(* ===== verification/Prelude.thy ===== *)
theory Prelude
  imports Main "HOL-Library.Word" "HOL-Library.AList" "HOL-Library.Multiset"
    "HOL-Library.Char_ord" "HOL-Library.List_Lexorder"
begin

text \<open>
  Shared vocabulary of the development: the Go values that several components use (byte strings,
  64-bit integers, errors, the decimal formats of package fmt), the specification of "first
  occurrence wins" that every deduplication of the program is measured against, and the generic
  lemmas on lists, association lists and words that the component theories share.
\<close>

section \<open>Collections of facts\<close>

named_theorems first_occ_simps \<open>facts about the first-occurrence specification\<close>
named_theorems alist_simps \<open>facts about Go maps kept as association lists\<close>
named_theorems bytes_simps \<open>facts about big-endian encodings and byte strings\<close>

section \<open>Go values\<close>

type_synonym byte = "8 word"
type_synonym bytes = "byte list"
type_synonym uint64 = "64 word"

text \<open>
  A Go error value: a leaf with its text, or a leaf wrapped by fmt.Errorf with a verb for the
  inner error. A function that returns (T, error) is modelled by a sum, one that returns error by
  an option.
\<close>

datatype goerror = Errno string | Wrapped string goerror

text \<open>The bytes of a Go string; Isabelle characters are exactly the 8-bit values.\<close>

definition str_bytes :: "string \<Rightarrow> bytes" where
  "str_bytes s = map of_char s"

lemma unat_of_char [bytes_simps]: "unat (of_char c :: byte) = of_char c"
proof -
  have "(of_char c :: byte) = word_of_nat (of_char c)"
    by (simp add: of_char_def)
  moreover have "(of_char c :: nat) < 256"
    by (rule nat_of_char_less_256)
  ultimately show ?thesis
    by (simp add: unat_of_nat)
qed

lemma of_char_byte_inject [bytes_simps]: "(of_char c :: byte) = of_char d \<longleftrightarrow> c = d"
proof
  assume "(of_char c :: byte) = of_char d"
  then have "unat (of_char c :: byte) = unat (of_char d :: byte)" by simp
  then have "(of_char c :: nat) = of_char d" by (simp only: unat_of_char)
  then show "c = d" by simp
qed simp

lemma str_bytes_inject [bytes_simps]: "str_bytes s = str_bytes t \<longleftrightarrow> s = t"
  by (auto simp: str_bytes_def bytes_simps inj_def dest: map_injective)

lemma length_str_bytes [bytes_simps]: "length (str_bytes s) = length s"
  by (simp add: str_bytes_def)

section \<open>First occurrence wins\<close>

text \<open>
  The specification of deduplication: scan left to right and keep an element whose key is neither
  in the given set nor the key of an element kept before it.
\<close>

fun first_occ :: "('a \<Rightarrow> 'k) \<Rightarrow> 'k set \<Rightarrow> 'a list \<Rightarrow> 'a list" where
  "first_occ key S [] = []"
| "first_occ key S (x # xs) =
     (if key x \<in> S then first_occ key S xs
      else x # first_occ key (insert (key x) S) xs)"

lemma set_first_occ_subset: "set (first_occ key S xs) \<subseteq> set xs"
proof (induction xs arbitrary: S)
  case (Cons x xs)
  then show ?case using Cons [of S] Cons [of "insert (key x) S"] by auto
qed simp

lemma keys_first_occ [first_occ_simps]: "key ` set (first_occ key S xs) = key ` set xs - S"
  by (induction xs arbitrary: S) auto

lemma distinct_first_occ [first_occ_simps]: "distinct (map key (first_occ key S xs))"
proof (induction xs arbitrary: S)
  case (Cons x xs)
  have "key x \<notin> key ` set (first_occ key (insert (key x) S) xs)"
    by (simp add: keys_first_occ)
  with Cons show ?case by simp
qed simp

lemma first_occ_append:
  "first_occ key S (xs @ ys) = first_occ key S xs @ first_occ key (S \<union> key ` set xs) ys"
proof (induction xs arbitrary: S)
  case (Cons x xs)
  show ?case
  proof (cases "key x \<in> S")
    case True
    then have "insert (key x) S = S" by blast
    then show ?thesis using True Cons [of S] by (simp add: insert_absorb)
  next
    case False
    then show ?thesis using Cons [of "insert (key x) S"] by simp
  qed
qed simp

lemma first_occ_id:
  assumes "distinct (map key xs)" and "key ` set xs \<inter> S = {}"
  shows "first_occ key S xs = xs"
  using assms by (induction xs arbitrary: S) auto

lemma length_first_occ: "length (first_occ key S xs) = card (key ` set xs - S)"
  by (metis distinct_card distinct_first_occ keys_first_occ length_map set_map)

lemma set_first_occ_functional:
  assumes "\<And>x y. x \<in> set xs \<Longrightarrow> y \<in> set xs \<Longrightarrow> key x = key y \<Longrightarrow> x = y"
  shows "set (first_occ key S xs) = {x \<in> set xs. key x \<notin> S}"
proof
  show "set (first_occ key S xs) \<subseteq> {x \<in> set xs. key x \<notin> S}"
    using keys_first_occ [of key S xs] set_first_occ_subset [of key S xs] by blast
next
  show "{x \<in> set xs. key x \<notin> S} \<subseteq> set (first_occ key S xs)"
  proof
    fix x assume x: "x \<in> {x \<in> set xs. key x \<notin> S}"
    then have "key x \<in> key ` set (first_occ key S xs)"
      by (auto simp: keys_first_occ)
    then obtain y where y: "y \<in> set (first_occ key S xs)" "key x = key y" by blast
    then have "y \<in> set xs" using set_first_occ_subset [of key S xs] by blast
    with x y assms show "x \<in> set (first_occ key S xs)" by blast
  qed
qed

text \<open>
  When equal keys carry equal elements (a duplicate is an exact resend), the elements kept do not
  depend on the order of delivery, only their order does.
\<close>

lemma mset_first_occ_perm:
  assumes "set xs = set ys"
    and "\<And>x y. x \<in> set xs \<Longrightarrow> y \<in> set xs \<Longrightarrow> key x = key y \<Longrightarrow> x = y"
  shows "mset (first_occ key S xs) = mset (first_occ key S ys)"
proof -
  have "set (first_occ key S xs) = {x \<in> set xs. key x \<notin> S}"
    using assms(2) by (rule set_first_occ_functional)
  moreover have "set (first_occ key S ys) = {x \<in> set ys. key x \<notin> S}"
    using assms by (intro set_first_occ_functional) blast
  ultimately have "set (first_occ key S xs) = set (first_occ key S ys)"
    using assms(1) by simp
  moreover have "distinct (first_occ key S xs)" "distinct (first_occ key S ys)"
    using distinct_first_occ [of key S] by (auto simp: distinct_map)
  ultimately show ?thesis by (simp add: set_eq_iff_mset_eq_distinct)
qed

lemma filter_eq_single: "distinct xs \<Longrightarrow> b \<in> set xs \<Longrightarrow> filter (\<lambda>x. x = b) xs = [b]"
  by (induction xs) (auto simp: filter_empty_conv)

section \<open>Association lists as Go maps\<close>

text \<open>
  A Go map whose size or range the code inspects is an association list with distinct keys, read
  with map-of and written with the library's update.
\<close>

lemma map_of_update [alist_simps]: "map_of (AList.update k v m) = (map_of m)(k \<mapsto> v)"
  by (rule update_conv')

lemma set_update_distinct:
  assumes "distinct (map fst m)"
  shows "set (AList.update k v m) = insert (k, v) {p \<in> set m. fst p \<noteq> k}"
  using assms by (induction m) force+

lemma length_update_fresh [alist_simps]:
  "map_of m k = None \<Longrightarrow> length (AList.update k v m) = Suc (length m)"
  by (induction m) auto

lemma length_update_present [alist_simps]:
  "map_of m k = Some w \<Longrightarrow> length (AList.update k v m) = length m"
  by (induction m) (auto split: if_splits)

section \<open>Big-endian integers\<close>

text \<open>binary.BigEndian.PutUint32, Uint32 and PutUint64, byte by byte as the library has them.\<close>

unbundle bit_operations_syntax

definition put_uint32 :: "32 word \<Rightarrow> bytes" where
  "put_uint32 v = [ucast (drop_bit 24 v), ucast (drop_bit 16 v), ucast (drop_bit 8 v), ucast v]"

fun get_uint32 :: "bytes \<Rightarrow> 32 word" where
  "get_uint32 (b0 # b1 # b2 # b3 # _) =
     ucast b3 OR push_bit 8 (ucast b2) OR push_bit 16 (ucast b1) OR push_bit 24 (ucast b0)"
| "get_uint32 _ = 0"

definition put_uint64 :: "uint64 \<Rightarrow> bytes" where
  "put_uint64 v =
     [ucast (drop_bit 56 v), ucast (drop_bit 48 v), ucast (drop_bit 40 v), ucast (drop_bit 32 v),
      ucast (drop_bit 24 v), ucast (drop_bit 16 v), ucast (drop_bit 8 v), ucast v]"

lemma length_put_uint32 [bytes_simps]: "length (put_uint32 v) = 4"
  by (simp add: put_uint32_def)

lemma length_put_uint64 [bytes_simps]: "length (put_uint64 v) = 8"
  by (simp add: put_uint64_def)

lemma get_put_uint32 [bytes_simps]: "get_uint32 (put_uint32 v @ bs) = v"
proof (rule bit_eqI)
  fix n assume "possible_bit TYPE(32 word) n"
  then have "n < 32" by (simp add: possible_bit_def)
  then consider "n < 8" | "8 \<le> n" "n < 16" | "16 \<le> n" "n < 24" | "24 \<le> n" "n < 32"
    by linarith
  then show "bit (get_uint32 (put_uint32 v @ bs)) n = bit v n"
    by cases (auto simp: put_uint32_def bit_simps)
qed

lemma of_nat_uint64_inject:
  "m < 2 ^ 64 \<Longrightarrow> n < 2 ^ 64 \<Longrightarrow> (of_nat m :: uint64) = of_nat n \<longleftrightarrow> m = n"
  by (simp add: word_of_nat_eq_iff take_bit_nat_eq_self)

lemma put_uint64_inject [bytes_simps]: "put_uint64 v = put_uint64 w \<longleftrightarrow> v = w"
proof
  assume eq: "put_uint64 v = put_uint64 w"
  show "v = w"
  proof (rule bit_eqI)
    fix n assume "possible_bit TYPE(uint64) n"
    then have n: "n < 64" by (simp add: possible_bit_def)
    define i where "i = n mod 8"
    have "(ucast (drop_bit (8 * (n div 8)) v) :: byte) = ucast (drop_bit (8 * (n div 8)) w)"
    proof -
      have "n div 8 \<in> {0, 1, 2, 3, 4, 5, 6, 7}" using n by auto
      with eq show ?thesis by (auto simp: put_uint64_def)
    qed
    then have "bit (ucast (drop_bit (8 * (n div 8)) v) :: byte) i
             = bit (ucast (drop_bit (8 * (n div 8)) w) :: byte) i" by simp
    moreover have "8 * (n div 8) + i = n" "i < 8" by (simp_all add: i_def)
    ultimately show "bit v n = bit w n" using n by (simp add: bit_simps)
  qed
qed simp

end
