(* ===== verification/Sim_Random.thy ===== *)
theory Sim_Random
  imports Prelude "HOL-Library.Monad_Syntax"
begin

text \<open>
  What the simulators (internal/simstorefront, internal/simdevice, deliverystats/simwebhooks.go) take
  from math/rand: a source is a state of type 'r with the draws the program makes. Float64 is a
  multiple of 2^-53, so that a comparison with a constant in [0.5, 1) is one of integers. Intn panics
  on a bound that is not positive, which is the value None.
\<close>

record 'r rand =
  rd_intn :: "int \<Rightarrow> 'r \<Rightarrow> int \<times> 'r"
  rd_unit :: "'r \<Rightarrow> nat \<times> 'r"
  rd_below :: "nat \<Rightarrow> 'r \<Rightarrow> nat \<times> 'r"

definition rand_ok :: "'r rand \<Rightarrow> bool" where
  "rand_ok rd \<longleftrightarrow> (\<forall>n r. 0 < n \<longrightarrow> 0 \<le> fst (rd_intn rd n r) \<and> fst (rd_intn rd n r) < n)
     \<and> (\<forall>i r. fst (rd_below rd i r) \<le> i)"

definition intn :: "'r rand \<Rightarrow> int \<Rightarrow> 'r \<Rightarrow> (int \<times> 'r) option" where
  "intn rd n r = (if n \<le> 0 then None else Some (rd_intn rd n r))"

lemma intn_range: "rand_ok rd \<Longrightarrow> intn rd n r = Some (i, r') \<Longrightarrow> 0 \<le> i \<and> i < n"
  unfolding rand_ok_def intn_def by (metis fst_conv not_le option.distinct(1) option.inject)

text \<open>rng.Shuffle: from the last index down to 1, swap with a draw from the indexes up to it.\<close>

definition swap_at :: "nat \<Rightarrow> nat \<Rightarrow> 'a list \<Rightarrow> 'a list" where
  "swap_at i j xs = xs[i := xs ! j, j := xs ! i]"

fun shuffle_loop :: "'r rand \<Rightarrow> nat \<Rightarrow> 'a list \<Rightarrow> 'r \<Rightarrow> 'a list \<times> 'r" where
  "shuffle_loop rd 0 xs r = (xs, r)"
| "shuffle_loop rd (Suc i) xs r =
     (let (j, r') = rd_below rd (Suc i) r in shuffle_loop rd i (swap_at (Suc i) j xs) r')"

definition shuffle :: "'r rand \<Rightarrow> 'a list \<Rightarrow> 'r \<Rightarrow> 'a list \<times> 'r" where
  "shuffle rd xs r = shuffle_loop rd (length xs - 1) xs r"

text \<open>Elements drawn from a list, with repetition.\<close>

fun draw_from :: "'r rand \<Rightarrow> 'a list \<Rightarrow> nat \<Rightarrow> 'r \<Rightarrow> ('a list \<times> 'r) option" where
  "draw_from rd xs 0 r = Some ([], r)"
| "draw_from rd xs (Suc k) r =
     do {
       (i, r1) \<leftarrow> intn rd (int (length xs)) r;
       (ds, r2) \<leftarrow> draw_from rd xs k r1;
       Some (xs ! nat i # ds, r2)
     }"

text \<open>Every element once and some of them again, in a shuffled order.\<close>

definition resend_some :: "'r rand \<Rightarrow> 'a list \<Rightarrow> nat \<Rightarrow> 'r \<Rightarrow> ('a list \<times> 'r) option" where
  "resend_some rd xs k r =
     do {
       (ds, r1) \<leftarrow> draw_from rd xs k r;
       Some (shuffle rd (xs @ ds) r1)
     }"

lemma mset_shuffle_loop:
  assumes "rand_ok rd"
  shows "i < length xs \<Longrightarrow> mset (fst (shuffle_loop rd i xs r)) = mset xs"
proof (induction i arbitrary: xs r)
  case (Suc i)
  obtain j r' where j: "rd_below rd (Suc i) r = (j, r')" by (cases "rd_below rd (Suc i) r")
  then have "j \<le> Suc i" using assms unfolding rand_ok_def by (metis fst_conv)
  then have "mset (swap_at (Suc i) j xs) = mset xs"
    unfolding swap_at_def using Suc.prems by (intro mset_swap) simp_all
  moreover have "length (swap_at (Suc i) j xs) = length xs" by (simp add: swap_at_def)
  ultimately show ?case using Suc.IH [of "swap_at (Suc i) j xs" r'] Suc.prems by (simp add: j)
qed simp

lemma mset_shuffle: "rand_ok rd \<Longrightarrow> mset (fst (shuffle rd xs r)) = mset xs"
  by (cases xs) (simp_all add: shuffle_def mset_shuffle_loop)

lemma draw_from_subset:
  assumes "rand_ok rd"
  shows "draw_from rd xs k r = Some (ds, r') \<Longrightarrow> set ds \<subseteq> set xs \<and> length ds = k"
proof (induction k arbitrary: r ds r')
  case (Suc k)
  then obtain i r1 es where d: "intn rd (int (length xs)) r = Some (i, r1)"
      "draw_from rd xs k r1 = Some (es, r')" "ds = xs ! nat i # es"
    by (auto split: Option.bind_split_asm prod.splits)
  from intn_range [OF assms d(1)] have "xs ! nat i \<in> set xs" by (simp add: nat_less_iff)
  with Suc.IH [OF d(2)] d(3) show ?case by simp
qed simp

lemma draw_from_total:
  "xs \<noteq> [] \<or> k = 0 \<Longrightarrow> \<exists>ds r'. draw_from rd xs k r = Some (ds, r')"
proof (induction k arbitrary: r)
  case (Suc k)
  then have "intn rd (int (length xs)) r \<noteq> None" by (simp add: intn_def)
  with Suc show ?case by (fastforce split: Option.bind_split prod.splits)
qed simp

lemma resend_some_mset:
  assumes "rand_ok rd" and "resend_some rd xs k r = Some (ys, r')"
  shows "set ys = set xs \<and> length ys = length xs + k"
proof -
  obtain ds r1 where d: "draw_from rd xs k r = Some (ds, r1)" "shuffle rd (xs @ ds) r1 = (ys, r')"
    using assms(2) by (auto simp: resend_some_def split: Option.bind_split_asm)
  have "mset ys = mset (xs @ ds)" using mset_shuffle [OF assms(1), of "xs @ ds" r1] d(2) by simp
  with draw_from_subset [OF assms(1) d(1)] show ?thesis
    by (metis Un_absorb2 length_append mset_eq_length set_append set_mset_mset)
qed

text \<open>A source for concrete runs, whose draws are given.\<close>

fun next_draw :: "nat list \<Rightarrow> nat \<times> nat list" where
  "next_draw [] = (0, [])"
| "next_draw (u # us) = (u, us)"

definition scripted_rand :: "nat list rand" where
  "scripted_rand = \<lparr>rd_intn = (\<lambda>n r. apfst (\<lambda>u. int u mod n) (next_draw r)),
     rd_unit = next_draw,
     rd_below = (\<lambda>i r. apfst (\<lambda>u. u mod (i + 1)) (next_draw r))\<rparr>"

lemma scripted_rand_ok: "rand_ok scripted_rand"
proof -
  have "u mod Suc i \<le> i" for u i :: nat
    using mod_less_divisor [of "Suc i" u] by linarith
  then show ?thesis by (simp add: rand_ok_def scripted_rand_def)
qed

end
