(* ===== verification/Go_Format.thy ===== *)
theory Go_Format
  imports Prelude
begin

text \<open>
  The part of Go's fmt and strconv the program uses on integers: the verbs %d and %0Nd, and
  strconv.ParseInt in base 10 with 64 bits. The identifiers the corpora generate and the numbers
  Redis stores as strings are built with these, so their injectivity and the round trip are used
  by the component theories.
\<close>

section \<open>Decimal digits\<close>

definition digit_char :: "nat \<Rightarrow> char" where
  "digit_char d = char_of (48 + d)"

definition is_digit :: "char \<Rightarrow> bool" where
  "is_digit c \<longleftrightarrow> 48 \<le> (of_char c :: nat) \<and> (of_char c :: nat) \<le> 57"

definition digit_val :: "char \<Rightarrow> nat" where
  "digit_val c = of_char c - 48"

fun show_nat :: "nat \<Rightarrow> string" where
  "show_nat n =
     (if n < 10 then [digit_char n] else show_nat (n div 10) @ [digit_char (n mod 10)])"

declare show_nat.simps [simp del]

definition digits_value :: "string \<Rightarrow> nat" where
  "digits_value s = foldl (\<lambda>a c. 10 * a + digit_val c) 0 s"

lemma of_char_digit_char: "d < 10 \<Longrightarrow> (of_char (digit_char d) :: nat) = 48 + d"
  by (simp add: digit_char_def)

lemma digit_val_digit_char [simp]: "d < 10 \<Longrightarrow> digit_val (digit_char d) = d"
  by (simp add: digit_val_def of_char_digit_char)

lemma is_digit_digit_char [simp]: "d < 10 \<Longrightarrow> is_digit (digit_char d)"
  by (simp add: is_digit_def of_char_digit_char)

lemma show_nat_digits: "list_all is_digit (show_nat n)"
proof (induction n rule: show_nat.induct)
  case (1 n)
  then show ?case by (subst show_nat.simps) auto
qed

lemma show_nat_nonempty [simp]: "show_nat n \<noteq> []"
  by (subst show_nat.simps) simp

lemma digits_value_snoc: "digits_value (s @ [c]) = 10 * digits_value s + digit_val c"
  by (simp add: digits_value_def)

lemma digits_value_show_nat [simp]: "digits_value (show_nat n) = n"
proof (induction n rule: show_nat.induct)
  case (1 n)
  show ?case
  proof (cases "n < 10")
    case True
    then show ?thesis by (subst show_nat.simps) (simp add: digits_value_def)
  next
    case False
    then show ?thesis using 1 by (subst show_nat.simps) (simp add: digits_value_snoc)
  qed
qed

lemma show_nat_inject [simp]: "show_nat m = show_nat n \<longleftrightarrow> m = n"
  by (metis digits_value_show_nat)

lemma digits_value_zeros: "digits_value (replicate k CHR ''0'' @ s) = digits_value s"
  by (induction k) (simp_all add: digits_value_def digit_val_def)

section \<open>The verbs %d and %0Nd\<close>

definition fmt_d :: "int \<Rightarrow> string" where
  "fmt_d i = (if i < 0 then ''-'' @ show_nat (nat (- i)) else show_nat (nat i))"

text \<open>The width of %0Nd counts the sign; the zeros go between the sign and the digits.\<close>

definition fmt_0d :: "nat \<Rightarrow> int \<Rightarrow> string" where
  "fmt_0d w i =
     (let sign = (if i < 0 then ''-'' else []); ds = show_nat (nat \<bar>i\<bar>)
      in sign @ replicate (w - length sign - length ds) CHR ''0'' @ ds)"

lemma not_minus_show_nat: "show_nat n \<noteq> CHR ''-'' # s"
proof
  assume "show_nat n = CHR ''-'' # s"
  then have "is_digit CHR ''-''" using show_nat_digits [of n] by simp
  then show False by (simp add: is_digit_def)
qed

lemma fmt_d_inject [simp]: "fmt_d i = fmt_d j \<longleftrightarrow> i = j"
  using not_minus_show_nat not_minus_show_nat [symmetric]
  by (auto simp: fmt_d_def split: if_splits)

lemma fmt_0d_nat_inject [simp]: "fmt_0d w (int m) = fmt_0d w (int n) \<longleftrightarrow> m = n"
proof
  assume "fmt_0d w (int m) = fmt_0d w (int n)"
  then have "digits_value (fmt_0d w (int m)) = digits_value (fmt_0d w (int n))" by simp
  then show "m = n" by (simp add: fmt_0d_def Let_def digits_value_zeros)
qed simp

lemma fmt_0d_nat_digits: "list_all is_digit (fmt_0d w (int n))"
  using show_nat_digits [of n] by (auto simp: fmt_0d_def Let_def list_all_iff is_digit_def)

section \<open>strconv.ParseInt\<close>

definition err_syntax :: goerror where
  "err_syntax = Errno ''invalid syntax''"

definition err_range :: goerror where
  "err_range = Errno ''value out of range''"

text \<open>
  The loop of ParseUint in base 10: a byte that is no digit is a syntax error, a value that does
  not fit 64 bits a range error, whichever comes first in the string.
\<close>

fun parse_uint_loop :: "nat \<Rightarrow> string \<Rightarrow> goerror + nat" where
  "parse_uint_loop n [] = Inr n"
| "parse_uint_loop n (c # cs) =
     (if \<not> is_digit c then Inl err_syntax
      else if 10 * n + digit_val c \<ge> 2 ^ 64 then Inl err_range
      else parse_uint_loop (10 * n + digit_val c) cs)"

definition parse_uint :: "string \<Rightarrow> goerror + nat" where
  "parse_uint s = (if s = [] then Inl err_syntax else parse_uint_loop 0 s)"

text \<open>
  ParseInt returns a value beside its error: 0 after a syntax error, the nearest 64-bit value
  after a range error. Callers that ignore the error use that value.
\<close>

definition parse_int64 :: "string \<Rightarrow> int \<times> goerror option" where
  "parse_int64 s =
     (let neg = (s \<noteq> [] \<and> hd s = CHR ''-'');
          body = (if s \<noteq> [] \<and> (hd s = CHR ''+'' \<or> hd s = CHR ''-'') then tl s else s);
          un = (case parse_uint body of
                  Inr u \<Rightarrow> Some (int u)
                | Inl e \<Rightarrow> if e = err_range then Some (2 ^ 64 - 1) else None)
      in case un of
           None \<Rightarrow> (0, Some err_syntax)
         | Some u \<Rightarrow>
             if \<not> neg \<and> u \<ge> 2 ^ 63 then (2 ^ 63 - 1, Some err_range)
             else if neg \<and> u > 2 ^ 63 then (- (2 ^ 63), Some err_range)
             else (if neg then - u else u, None))"

lemma foldl_decimal_ge: "a \<le> foldl (\<lambda>a c. 10 * a + digit_val c) a cs"
proof (induction cs arbitrary: a)
  case (Cons c cs)
  have "a \<le> 10 * a + digit_val c" by simp
  also have "\<dots> \<le> foldl (\<lambda>a c. 10 * a + digit_val c) (10 * a + digit_val c) cs" by (rule Cons)
  finally show ?case by simp
qed simp

lemma parse_uint_loop_digits:
  assumes "list_all is_digit s" and "foldl (\<lambda>a c. 10 * a + digit_val c) n s < 2 ^ 64"
  shows "parse_uint_loop n s = Inr (foldl (\<lambda>a c. 10 * a + digit_val c) n s)"
  using assms
proof (induction s arbitrary: n)
  case (Cons c cs)
  from foldl_decimal_ge [of "10 * n + digit_val c" cs] Cons.prems(2)
  have "10 * n + digit_val c < 2 ^ 64" by simp
  with Cons show ?case by simp
qed simp

lemma parse_uint_show_nat: "n < 2 ^ 64 \<Longrightarrow> parse_uint (show_nat n) = Inr n"
  using parse_uint_loop_digits [OF show_nat_digits, of 0 n]
  by (simp add: parse_uint_def flip: digits_value_def)

lemma hd_show_nat: "hd (show_nat n) \<noteq> CHR ''-''" "hd (show_nat n) \<noteq> CHR ''+''"
proof -
  have "is_digit (hd (show_nat n))"
    using show_nat_digits [of n] by (cases "show_nat n") auto
  then show "hd (show_nat n) \<noteq> CHR ''-''" "hd (show_nat n) \<noteq> CHR ''+''"
    by (auto simp: is_digit_def)
qed

lemma parse_int64_fmt_d:
  assumes "- (2 ^ 63) \<le> i" and "i < 2 ^ 63"
  shows "parse_int64 (fmt_d i) = (i, None)"
proof (cases "i < 0")
  case True
  then have "parse_uint (show_nat (nat (- i))) = Inr (nat (- i))"
    using assms by (intro parse_uint_show_nat) simp
  with True assms show ?thesis by (simp add: parse_int64_def fmt_d_def)
next
  case False
  then have "parse_uint (show_nat (nat i)) = Inr (nat i)"
    using assms by (intro parse_uint_show_nat) simp
  with False assms hd_show_nat [of "nat i"] show ?thesis
    by (simp add: parse_int64_def fmt_d_def)
qed

lemma parse_int64_empty [simp]: "fst (parse_int64 []) = 0"
  by (simp add: parse_int64_def parse_uint_def err_syntax_def err_range_def)

end
