(* ===== verification/Segments.thy ===== *)
theory Segments
  imports Go_Format
begin

text \<open>
  internal/segment/definitions.go and diff.go: the predicate families, the parameterised segments,
  the fifty test segments both evaluators range over, and the comparison of two membership sets.
  float64 values are of a type 'f that belongs to the environment; the literals of the code are
  given by a function from integers.
\<close>

section \<open>Definitions\<close>

text \<open>A Family is a string in Go; the eight named ones are constructors, any other is possible.\<close>

datatype family =
    PurchaseCountMin
  | CartAbandonDays
  | CategoryViewMin
  | PurchaseValueMin
  | RecentlyActiveHours
  | NeverPurchased
  | ChurnRiskDays
  | MultiCategoryMin
  | OtherFamily string

record 'f segment =
  seg_id :: string
  seg_family :: family
  min_count :: int
  window_days :: int
  category :: string
  min_value :: 'f
  min_hours :: int
  min_days :: int
  min_distinct :: int

text \<open>A composite literal that leaves every field but the id and the family zero.\<close>

definition blank_segment :: "'f \<Rightarrow> string \<Rightarrow> family \<Rightarrow> 'f segment" where
  "blank_segment zero i f =
     \<lparr>seg_id = i, seg_family = f, min_count = 0, window_days = 0, category = [], min_value = zero,
      min_hours = 0, min_days = 0, min_distinct = 0\<rparr>"

definition categories :: "string list" where
  "categories = [''electronics'', ''apparel'', ''home'', ''beauty'',
     ''sports'', ''books'', ''toys'', ''grocery'']"

definition purchase_count_segments :: "(int \<Rightarrow> 'f) \<Rightarrow> 'f segment list" where
  "purchase_count_segments lit =
     concat (map (\<lambda>n. map (\<lambda>w.
       (blank_segment (lit 0) (''purchase_count_min_'' @ fmt_d n @ ''_'' @ fmt_d w @ ''d'') PurchaseCountMin)
         \<lparr>min_count := n, window_days := w\<rparr>) [7, 30, 90]) [1, 2, 3, 5])"

definition cart_abandon_segments :: "(int \<Rightarrow> 'f) \<Rightarrow> 'f segment list" where
  "cart_abandon_segments lit =
     map (\<lambda>d. (blank_segment (lit 0) (''cart_abandon_'' @ fmt_d d @ ''d'') CartAbandonDays)
       \<lparr>min_days := d\<rparr>) [1, 3, 7, 14, 30]"

definition category_view_segments :: "(int \<Rightarrow> 'f) \<Rightarrow> 'f segment list" where
  "category_view_segments lit =
     concat (map (\<lambda>c. map (\<lambda>n.
       (blank_segment (lit 0) (''category_view_min_'' @ c @ ''_'' @ fmt_d n) CategoryViewMin)
         \<lparr>category := c, min_count := n\<rparr>) [3, 5]) categories)"

definition purchase_value_segments :: "(int \<Rightarrow> 'f) \<Rightarrow> 'f segment list" where
  "purchase_value_segments lit =
     concat (map (\<lambda>t. map (\<lambda>w.
       (blank_segment (lit 0) (''purchase_value_min_'' @ fmt_d t @ ''_'' @ fmt_d w @ ''d'') PurchaseValueMin)
         \<lparr>min_value := lit t, window_days := w\<rparr>) [30, 90]) [100, 250, 500])"

definition recently_active_segments :: "(int \<Rightarrow> 'f) \<Rightarrow> 'f segment list" where
  "recently_active_segments lit =
     map (\<lambda>h. (blank_segment (lit 0) (''recently_active_'' @ fmt_d h @ ''h'') RecentlyActiveHours)
       \<lparr>min_hours := h\<rparr>) [1, 6, 24, 72]"

definition churn_risk_segments :: "(int \<Rightarrow> 'f) \<Rightarrow> 'f segment list" where
  "churn_risk_segments lit =
     map (\<lambda>d. (blank_segment (lit 0) (''churn_risk_'' @ fmt_d d @ ''d'') ChurnRiskDays)
       \<lparr>min_days := d\<rparr>) [14, 30, 60]"

definition multi_category_segments :: "(int \<Rightarrow> 'f) \<Rightarrow> 'f segment list" where
  "multi_category_segments lit =
     map (\<lambda>k. (blank_segment (lit 0) (''multi_category_shopper_min_'' @ fmt_d k) MultiCategoryMin)
       \<lparr>min_distinct := k\<rparr>) [2, 3, 4]"

definition generate_test_segments :: "(int \<Rightarrow> 'f) \<Rightarrow> 'f segment list" where
  "generate_test_segments lit =
     purchase_count_segments lit @ cart_abandon_segments lit @ category_view_segments lit @
     purchase_value_segments lit @ recently_active_segments lit @
     [blank_segment (lit 0) ''never_purchased'' NeverPurchased] @
     churn_risk_segments lit @ multi_category_segments lit"

section \<open>Comparing two membership sets\<close>

record segment_diff =
  sd_segment_id :: string
  incremental_size :: nat
  recompute_size :: nat
  only_incremental :: nat
  only_recompute :: nat

definition diff_exact :: "segment_diff \<Rightarrow> bool" where
  "diff_exact d \<longleftrightarrow> only_incremental d = 0 \<and> only_recompute d = 0"

text \<open>The Go maps to true are sets; the loops count the members of one that the other lacks.\<close>

definition diff_sets :: "string \<Rightarrow> string set \<Rightarrow> string set \<Rightarrow> segment_diff" where
  "diff_sets i inc rec =
     \<lparr>sd_segment_id = i, incremental_size = card inc, recompute_size = card rec,
      only_incremental = card {p \<in> inc. p \<notin> rec}, only_recompute = card {p \<in> rec. p \<notin> inc}\<rparr>"

lemma diff_sets_code:
  "diff_sets i (set xs) (set ys) =
     \<lparr>sd_segment_id = i, incremental_size = length (remdups xs), recompute_size = length (remdups ys),
      only_incremental = length (filter (\<lambda>p. p \<notin> set ys) (remdups xs)),
      only_recompute = length (filter (\<lambda>p. p \<notin> set xs) (remdups ys))\<rparr>"
proof -
  have "card {p \<in> set a. p \<notin> set b} = length (filter (\<lambda>p. p \<notin> set b) (remdups a))" for a b :: "string list"
    by (metis distinct_card distinct_filter distinct_remdups set_filter set_remdups)
  then show ?thesis by (simp add: diff_sets_def length_remdups_card_conv)
qed

text \<open>The ids, as GenerateTestSegments lists them.\<close>

lemma test_segment_ids:
  "map seg_id (generate_test_segments (\<lambda>_. ())) =
     [''purchase_count_min_1_7d'', ''purchase_count_min_1_30d'', ''purchase_count_min_1_90d'',
      ''purchase_count_min_2_7d'', ''purchase_count_min_2_30d'', ''purchase_count_min_2_90d'',
      ''purchase_count_min_3_7d'', ''purchase_count_min_3_30d'', ''purchase_count_min_3_90d'',
      ''purchase_count_min_5_7d'', ''purchase_count_min_5_30d'', ''purchase_count_min_5_90d'',
      ''cart_abandon_1d'', ''cart_abandon_3d'', ''cart_abandon_7d'', ''cart_abandon_14d'',
      ''cart_abandon_30d'', ''category_view_min_electronics_3'',
      ''category_view_min_electronics_5'', ''category_view_min_apparel_3'',
      ''category_view_min_apparel_5'', ''category_view_min_home_3'',
      ''category_view_min_home_5'', ''category_view_min_beauty_3'',
      ''category_view_min_beauty_5'', ''category_view_min_sports_3'',
      ''category_view_min_sports_5'', ''category_view_min_books_3'',
      ''category_view_min_books_5'', ''category_view_min_toys_3'',
      ''category_view_min_toys_5'', ''category_view_min_grocery_3'',
      ''category_view_min_grocery_5'', ''purchase_value_min_100_30d'',
      ''purchase_value_min_100_90d'', ''purchase_value_min_250_30d'',
      ''purchase_value_min_250_90d'', ''purchase_value_min_500_30d'',
      ''purchase_value_min_500_90d'', ''recently_active_1h'', ''recently_active_6h'',
      ''recently_active_24h'', ''recently_active_72h'', ''never_purchased'',
      ''churn_risk_14d'', ''churn_risk_30d'', ''churn_risk_60d'',
      ''multi_category_shopper_min_2'', ''multi_category_shopper_min_3'',
      ''multi_category_shopper_min_4'']"
  by code_simp

text \<open>
  Distinctness by a number for each id: comparing fifty numbers is cheap where comparing long strings
  with common prefixes is not.
\<close>

definition id_number :: "string \<Rightarrow> int" where
  "id_number s = foldl (\<lambda>h c. 36 * h + of_char c) 0 s mod 149"

lemma test_segment_ids_distinct: "distinct (map seg_id (generate_test_segments (\<lambda>_. ())))"
proof -
  have "map id_number (map seg_id (generate_test_segments (\<lambda>_. ()))) =
     [27, 125, 4, 46, 64, 92, 65, 3, 31, 103, 30, 58, 72, 144, 139, 70, 134, 107, 109, 80, 82,
      52, 54, 131, 133, 0, 2, 135, 137, 118, 120, 145, 147, 1, 29, 110, 138, 104, 132, 53, 84,
      95, 96, 148, 49, 113, 127, 10, 11, 12]"
    unfolding test_segment_ids by code_simp
  then have "distinct (map id_number (map seg_id (generate_test_segments (\<lambda>_. ()))))"
    by simp
  then show ?thesis using distinct_map by blast
qed

section \<open>Properties\<close>

text \<open>
  The fifty segments: GenerateTestSegments returns 50 segments with 50 different ids, and every
  segment has one of the eight families, 12, 5, 16, 6, 4, 1, 3 and 3 of each.
\<close>

theorem fifty_test_segments:
  "length (generate_test_segments lit) = 50 \<and>
   distinct (map seg_id (generate_test_segments lit)) \<and>
   map (\<lambda>f. length (filter (\<lambda>s. seg_family s = f) (generate_test_segments lit)))
     [PurchaseCountMin, CartAbandonDays, CategoryViewMin, PurchaseValueMin, RecentlyActiveHours,
      NeverPurchased, ChurnRiskDays, MultiCategoryMin] = [12, 5, 16, 6, 4, 1, 3, 3]"
proof -
  let ?ss = "generate_test_segments lit" and ?us = "generate_test_segments (\<lambda>_. ())"
  have single: "map g [x] = [g x]" for g :: "'c \<Rightarrow> 'd" and x by simp
  have "map (\<lambda>s. (seg_id s, seg_family s)) ?ss = map (\<lambda>s. (seg_id s, seg_family s)) ?us"
    by (simp only: generate_test_segments_def purchase_count_segments_def cart_abandon_segments_def
      category_view_segments_def purchase_value_segments_def recently_active_segments_def
      churn_risk_segments_def multi_category_segments_def blank_segment_def
      map_append map_concat map_map comp_def segment.simps single)
  then have "map fst (map (\<lambda>s. (seg_id s, seg_family s)) ?ss) = map fst (map (\<lambda>s. (seg_id s, seg_family s)) ?us)"
    and "map snd (map (\<lambda>s. (seg_id s, seg_family s)) ?ss) = map snd (map (\<lambda>s. (seg_id s, seg_family s)) ?us)"
    by simp_all
  then have i: "map seg_id ?ss = map seg_id ?us" and f: "map seg_family ?ss = map seg_family ?us"
    by (simp_all add: comp_def)
  have c: "length (filter (\<lambda>s. seg_family s = x) ss) = count_list (map seg_family ss) x"
    for x and ss :: "'f segment list"
    by (induction ss) auto
  have "map (count_list (map seg_family ?us))
     [PurchaseCountMin, CartAbandonDays, CategoryViewMin, PurchaseValueMin, RecentlyActiveHours,
      NeverPurchased, ChurnRiskDays, MultiCategoryMin] = [12, 5, 16, 6, 4, 1, 3, 3]"
    by code_simp
  moreover have "length (map seg_id ?us) = 50" unfolding test_segment_ids by simp
  moreover have "length ?ss = length (map seg_id ?us)" using arg_cong [OF i, of length] by simp
  moreover have "distinct (map seg_id ?ss)" unfolding i by (rule test_segment_ids_distinct)
  ultimately show ?thesis unfolding c f by simp
qed

text \<open>
  DiffSets is a sound and complete comparison: the diff of two finite sets is Exact only when they
  are equal, and the counts account for every member of both.
\<close>

theorem diff_sets_exact:
  assumes "finite inc" and "finite rec"
  shows "(diff_exact (diff_sets i inc rec) \<longleftrightarrow> inc = rec) \<and>
    incremental_size (diff_sets i inc rec) + only_recompute (diff_sets i inc rec) =
    recompute_size (diff_sets i inc rec) + only_incremental (diff_sets i inc rec)"
proof -
  have f: "finite {p \<in> inc. p \<notin> rec}" "finite {p \<in> rec. p \<notin> inc}" using assms by simp_all
  have e: "{p \<in> inc. p \<notin> rec} = inc - rec" "{p \<in> rec. p \<notin> inc} = rec - inc" by auto
  have "card inc + card (rec - inc) = card (inc \<union> rec)"
    using assms card_Un_disjoint [of inc "rec - inc"] by simp
  moreover have "card rec + card (inc - rec) = card (inc \<union> rec)"
    using assms card_Un_disjoint [of rec "inc - rec"] by (simp add: Un_commute)
  ultimately show ?thesis using f by (auto simp: diff_exact_def diff_sets_def e)
qed

theorem diff_sets_exact_witness:
  "diff_exact (diff_sets ''s'' {''p1'', ''p2''} {''p2'', ''p1''}) \<and>
   \<not> diff_exact (diff_sets ''s'' {''p1''} {''p2''})"
  using diff_sets_exact [of "{''p1'', ''p2''}" "{''p2'', ''p1''}" "''s''"]
    diff_sets_exact [of "{''p1''}" "{''p2''}" "''s''"] by auto

end
