(* ===== verification/Dedup_Interface.thy ===== *)
theory Dedup_Interface
  imports Prelude
begin

text \<open>
  The contracts the deduplicating edges of the program rely on. A dedup cache answers "have I
  admitted this key before?"; a FIFO cache is a dedup cache that remembers exactly the last
  admitted keys up to a capacity. The client lemmas (what a stream of requests looks like after
  the cache) are proved once here, under the laws, and reach the code's three caches through the
  interpretations in the theories that model them.
\<close>

section \<open>Running a cache over a stream\<close>

text \<open>The elements of a stream the cache lets through, and the cache afterwards.\<close>

fun accepted :: "('k \<Rightarrow> 's \<Rightarrow> bool \<times> 's) \<Rightarrow> ('e \<Rightarrow> 'k) \<Rightarrow> 's \<Rightarrow> 'e list \<Rightarrow> 'e list" where
  "accepted adm key s [] = []"
| "accepted adm key s (e # es) =
     (let r = adm (key e) s
      in if fst r then e # accepted adm key (snd r) es else accepted adm key (snd r) es)"

fun cache_after :: "('k \<Rightarrow> 's \<Rightarrow> bool \<times> 's) \<Rightarrow> ('e \<Rightarrow> 'k) \<Rightarrow> 's \<Rightarrow> 'e list \<Rightarrow> 's" where
  "cache_after adm key s [] = s"
| "cache_after adm key s (e # es) = cache_after adm key (snd (adm (key e) s)) es"

lemma cache_after_append:
  "cache_after adm key s (es @ fs) = cache_after adm key (cache_after adm key s es) fs"
  by (induction es arbitrary: s) auto

lemma accepted_append:
  "accepted adm key s (es @ fs) =
     accepted adm key s es @ accepted adm key (cache_after adm key s es) fs"
  by (induction es arbitrary: s) (auto simp: Let_def)

text \<open>The last n elements of a list, oldest first: the window a bounded FIFO remembers.\<close>

definition last_n :: "nat \<Rightarrow> 'a list \<Rightarrow> 'a list" where
  "last_n n xs = drop (length xs - n) xs"

lemma length_last_n [simp]: "length (last_n n xs) = min n (length xs)"
  by (simp add: last_n_def)

lemma set_last_n: "set (last_n n xs) \<subseteq> set xs"
  by (simp add: last_n_def set_drop_subset)

lemma last_n_snoc: "last_n n (last_n n xs @ [x]) = last_n n (xs @ [x])"
  by (cases n) (auto simp: last_n_def intro!: arg_cong [where f = "\<lambda>i. drop i xs"])

lemma last_n_short: "length xs \<le> n \<Longrightarrow> last_n n xs = xs"
  by (simp add: last_n_def)

text \<open>No two equal elements at a distance of n or less.\<close>

definition spaced :: "nat \<Rightarrow> 'a list \<Rightarrow> bool" where
  "spaced n xs \<longleftrightarrow> (\<forall>i j. i < j \<longrightarrow> j < length xs \<longrightarrow> j - i \<le> n \<longrightarrow> xs ! i \<noteq> xs ! j)"

lemma spaced_snoc:
  assumes "spaced n xs" and "x \<notin> set (last_n n xs)"
  shows "spaced n (xs @ [x])"
  unfolding spaced_def
proof (intro allI impI)
  fix i j
  assume ij: "i < j" "j < length (xs @ [x])" "j - i \<le> n"
  show "(xs @ [x]) ! i \<noteq> (xs @ [x]) ! j"
  proof (cases "j = length xs")
    case True
    have "xs ! i \<in> set (last_n n xs)"
    proof -
      have "xs ! i = last_n n xs ! (i - (length xs - n))"
        using ij True by (simp add: last_n_def)
      moreover have "i - (length xs - n) < length (last_n n xs)"
        using ij True by auto
      ultimately show ?thesis by (metis nth_mem)
    qed
    with assms(2) True ij show ?thesis by (auto simp: nth_append)
  next
    case False
    with assms(1) ij show ?thesis by (auto simp: nth_append spaced_def)
  qed
qed

section \<open>Dedup caches\<close>

text \<open>
  \<open>known\<close> is the set of keys a cache state remembers, \<open>fits\<close> says of a set of keys that the
  cache can remember all of it at once. The laws: a known key is refused and changes nothing; a
  fresh key is admitted and remembered, at the cost of forgetting others only when they no longer
  fit together.
\<close>

locale dedup_cache =
  fixes admit :: "'k \<Rightarrow> 's \<Rightarrow> bool \<times> 's"
    and start :: 's
    and known :: "'s \<Rightarrow> 'k set"
    and fits :: "'k set \<Rightarrow> bool"
    and wf :: "'s \<Rightarrow> bool"
  assumes wf_start: "wf start"
    and known_start: "known start = {}"
    and wf_admit: "wf s \<Longrightarrow> wf (snd (admit k s))"
    and admit_known: "wf s \<Longrightarrow> k \<in> known s \<Longrightarrow> admit k s = (False, s)"
    and admit_fresh: "wf s \<Longrightarrow> k \<notin> known s \<Longrightarrow> fst (admit k s)"
    and known_fresh: "wf s \<Longrightarrow> k \<notin> known s \<Longrightarrow>
      k \<in> known (snd (admit k s)) \<and> known (snd (admit k s)) \<subseteq> insert k (known s)"
    and known_fits: "wf s \<Longrightarrow> k \<notin> known s \<Longrightarrow> fits (insert k (known s)) \<Longrightarrow>
      known (snd (admit k s)) = insert k (known s)"
    and fits_mono: "fits A \<Longrightarrow> B \<subseteq> A \<Longrightarrow> fits B"
begin

lemma fst_admit_iff: "wf s \<Longrightarrow> fst (admit k s) \<longleftrightarrow> k \<notin> known s"
  using admit_known admit_fresh by fastforce

lemma known_after_admit: "wf s \<Longrightarrow> k \<in> known (snd (admit k s))"
  using admit_known known_fresh by (cases "k \<in> known s") auto

lemma known_after_admit_subset: "wf s \<Longrightarrow> known (snd (admit k s)) \<subseteq> insert k (known s)"
  using admit_known known_fresh by (cases "k \<in> known s") auto

lemma admit_twice: "wf s \<Longrightarrow> fst (admit k (snd (admit k s))) = False"
  using wf_admit known_after_admit fst_admit_iff by blast

lemma wf_cache_after: "wf s \<Longrightarrow> wf (cache_after admit key s es)"
  by (induction es arbitrary: s) (auto intro: wf_admit)

text \<open>Nothing is refused that was not admitted before: the cache never loses a first arrival.\<close>

lemma keys_covered: "wf s \<Longrightarrow> key ` set es \<subseteq> known s \<union> key ` set (accepted admit key s es)"
proof (induction es arbitrary: s)
  case (Cons e es)
  have "key ` set es \<subseteq> known (snd (admit (key e) s)) \<union>
          key ` set (accepted admit key (snd (admit (key e) s)) es)"
    using Cons.IH [OF wf_admit [OF Cons.prems]] .
  with known_after_admit_subset [OF Cons.prems, of "key e"] fst_admit_iff [OF Cons.prems, of "key e"]
    admit_known [OF Cons.prems, of "key e"]
  show ?case by (auto simp: Let_def)
qed simp

lemma accepted_subset: "set (accepted admit key s es) \<subseteq> set es"
  by (induction es arbitrary: s) (auto simp: Let_def)

text \<open>A stream of distinct new keys passes whole, whatever the capacity.\<close>

lemma accepted_distinct:
  "wf s \<Longrightarrow> distinct (map key es) \<Longrightarrow> key ` set es \<inter> known s = {} \<Longrightarrow>
    accepted admit key s es = es"
proof (induction es arbitrary: s)
  case (Cons e es)
  have "key ` set es \<inter> insert (key e) (known s) = {}"
    using Cons.prems(2,3) by auto
  then have "key ` set es \<inter> known (snd (admit (key e) s)) = {}"
    using known_after_admit_subset [OF Cons.prems(1), of "key e"] by blast
  with Cons have "accepted admit key (snd (admit (key e) s)) es = es"
    by (simp add: wf_admit)
  with Cons.prems show ?case by (simp add: Let_def fst_admit_iff)
qed simp

text \<open>While the keys fit, the cache is exactly the specification.\<close>

lemma accepted_first_occ:
  "wf s \<Longrightarrow> fits (known s \<union> key ` set es) \<Longrightarrow>
    accepted admit key s es = first_occ key (known s) es"
proof (induction es arbitrary: s)
  case (Cons e es)
  show ?case
  proof (cases "key e \<in> known s")
    case True
    then have "known s \<union> key ` set (e # es) = known s \<union> key ` set es" by auto
    with Cons True show ?thesis by (simp add: admit_known)
  next
    case False
    have "fits (insert (key e) (known s))"
      using Cons.prems(2) by (rule fits_mono) auto
    then have k: "known (snd (admit (key e) s)) = insert (key e) (known s)"
      using Cons.prems(1) False by (rule known_fits [rotated 2])
    have "fits (known (snd (admit (key e) s)) \<union> key ` set es)"
      using Cons.prems(2) k by (rule_tac fits_mono) auto
    then have "accepted admit key (snd (admit (key e) s)) es
        = first_occ key (known (snd (admit (key e) s))) es"
      using Cons.IH wf_admit Cons.prems(1) by blast
    with False k Cons.prems(1) show ?thesis by (simp add: Let_def admit_fresh)
  qed
qed simp

corollary accepted_start:
  "fits (key ` set es) \<Longrightarrow> accepted admit key start es = first_occ key {} es"
  using accepted_first_occ [OF wf_start] by (simp add: known_start)

end

section \<open>FIFO caches\<close>

locale fifo_cache =
  fixes cap :: nat
    and admit :: "'k \<Rightarrow> 's \<Rightarrow> bool \<times> 's"
    and start :: 's
    and order :: "'s \<Rightarrow> 'k list"
    and wf :: "'s \<Rightarrow> bool"
  assumes cap_pos: "0 < cap"
    and fifo_start: "wf start"
    and order_start: "order start = []"
    and order_bounded: "wf s \<Longrightarrow> length (order s) \<le> cap"
    and order_distinct: "wf s \<Longrightarrow> distinct (order s)"
    and fifo_wf: "wf s \<Longrightarrow> wf (snd (admit k s))"
    and fifo_known: "wf s \<Longrightarrow> k \<in> set (order s) \<Longrightarrow> admit k s = (False, s)"
    and fifo_fresh: "wf s \<Longrightarrow> k \<notin> set (order s) \<Longrightarrow>
      fst (admit k s) \<and> order (snd (admit k s)) = last_n cap (order s @ [k])"
begin

text \<open>The window: after any stream the cache holds the last admitted keys, up to its capacity.\<close>

lemma order_cache_after:
  "wf s \<Longrightarrow> order (cache_after admit key s es) =
     last_n cap (order s @ map key (accepted admit key s es))"
proof (induction es arbitrary: s)
  case Nil
  then show ?case using order_bounded [of s] by (simp add: last_n_short)
next
  case (Cons e es)
  show ?case
  proof (cases "key e \<in> set (order s)")
    case True
    with Cons fifo_known [of s "key e"] show ?thesis by simp
  next
    case False
    with Cons.prems have f: "fst (admit (key e) s)"
      and o: "order (snd (admit (key e) s)) = last_n cap (order s @ [key e])"
      using fifo_fresh by blast+
    have comp: "last_n cap (last_n cap xs @ ys) = last_n cap (xs @ ys)" for xs ys :: "'k list"
    proof (induction ys rule: rev_induct)
      case Nil
      show ?case by (simp add: last_n_def)
    next
      case (snoc y ys)
      then show ?case by (metis append.assoc last_n_snoc)
    qed
    from Cons.IH [OF fifo_wf [OF Cons.prems]] f o show ?thesis
      by (simp add: Let_def comp)
  qed
qed

text \<open>
  A key is admitted again only after at least \<open>cap\<close> other keys have been admitted since: in the
  stream of admitted keys equal keys are more than \<open>cap\<close> apart.
\<close>

lemma spaced_accepted:
  assumes "wf s" and "spaced cap hist" and "order s = last_n cap hist"
  shows "spaced cap (hist @ map key (accepted admit key s es))"
  using assms
proof (induction es arbitrary: s hist)
  case (Cons e es)
  show ?case
  proof (cases "key e \<in> set (order s)")
    case True
    with Cons fifo_known [of s "key e"] show ?thesis by simp
  next
    case False
    then have f: "fst (admit (key e) s)"
      and o: "order (snd (admit (key e) s)) = last_n cap (hist @ [key e])"
      using Cons.prems fifo_fresh [of s "key e"] by (simp_all add: last_n_snoc)
    have "spaced cap (hist @ [key e])"
      using Cons.prems False by (simp add: spaced_snoc)
    from Cons.IH [OF fifo_wf [OF Cons.prems(1)] this o] f show ?thesis
      by (simp add: Let_def)
  qed
qed simp

corollary spaced_accepted_start: "spaced cap (map key (accepted admit key start es))"
proof -
  have "spaced cap []" by (simp add: spaced_def)
  from spaced_accepted [OF fifo_start this, of key es] show ?thesis
    by (simp add: order_start last_n_def)
qed

end

text \<open>One contract gives the other: the known keys are the queued ones, and up to \<open>cap\<close> fit.\<close>

sublocale fifo_cache \<subseteq> dedup_cache admit start "\<lambda>s. set (order s)"
  "\<lambda>K. finite K \<and> card K \<le> cap" wf
proof
  show "wf start" by (rule fifo_start)
  show "set (order start) = {}" by (simp add: order_start)
next
  fix s k assume "wf s"
  then show "wf (snd (admit k s))" by (rule fifo_wf)
next
  fix s k assume "wf s" "k \<in> set (order s)"
  then show "admit k s = (False, s)" by (rule fifo_known)
next
  fix s k assume "wf s" "k \<notin> set (order s)"
  then show "fst (admit k s)" using fifo_fresh by blast
next
  fix s k assume s: "wf s" "k \<notin> set (order s)"
  then have o: "order (snd (admit k s)) = last_n cap (order s @ [k])" using fifo_fresh by blast
  have "length (order s @ [k]) - cap \<le> length (order s)" using cap_pos by simp
  then have "k \<in> set (last_n cap (order s @ [k]))" by (simp add: last_n_def)
  with o show "k \<in> set (order (snd (admit k s))) \<and>
      set (order (snd (admit k s))) \<subseteq> insert k (set (order s))"
    using set_last_n [of cap "order s @ [k]"] by auto
next
  fix s k assume s: "wf s" "k \<notin> set (order s)"
    and "finite (insert k (set (order s))) \<and> card (insert k (set (order s))) \<le> cap"
  then have "length (order s @ [k]) \<le> cap"
    using order_distinct [of s] by (simp add: distinct_card)
  then have "last_n cap (order s @ [k]) = order s @ [k]" by (rule last_n_short)
  with s show "set (order (snd (admit k s))) = insert k (set (order s))"
    using fifo_fresh by auto
next
  fix A B :: "'k set" assume "finite A \<and> card A \<le> cap" "B \<subseteq> A"
  then show "finite B \<and> card B \<le> cap"
    by (meson card_mono finite_subset order_trans)
qed

end
