(* ===== verification/Edge_Interface.thy ===== *)
theory Edge_Interface
  imports Dedup_Interface
begin

text \<open>
  What the two edges without a disk queue have in common: internal/eventingest and
  internal/deliverystats both put a bounded FIFO cache of ids in front of a producer and return
  what the producer returns. The locale states the law of one call; what a stream of calls does is
  proved here once, for both.
\<close>

text \<open>A producer of messages of type 'e whose effects are in a state of type 'p.\<close>

type_synonym ('e, 'p) sender = "'e \<Rightarrow> 'p \<Rightarrow> goerror option \<times> 'p"

text \<open>The producer that keeps what it takes and never fails, and one that never takes anything.\<close>

definition keep_all :: "('e, 'e list) sender" where
  "keep_all e k = (None, k @ [e])"

definition refuse_all :: "goerror \<Rightarrow> ('e, 'e list) sender" where
  "refuse_all x e k = (Some x, k)"

lemma fold_keep_all: "fold (\<lambda>e k. snd (keep_all e k)) es k = k @ es"
  by (induction es arbitrary: k) (auto simp: keep_all_def)

text \<open>What the calls of a stream return.\<close>

fun results :: "('e \<Rightarrow> 'q \<Rightarrow> 'r \<times> 'q) \<Rightarrow> 'e list \<Rightarrow> 'q \<Rightarrow> 'r list" where
  "results f [] q = []"
| "results f (e # es) q = fst (f e q) # results f es (snd (f e q))"

lemma length_results [simp]: "length (results f es q) = length es"
  by (induction es arbitrary: q) simp_all

locale forwarding_edge = fifo_cache cap admit start order wf
  for cap :: nat and admit :: "'k \<Rightarrow> 's \<Rightarrow> bool \<times> 's" and start :: 's
    and order :: "'s \<Rightarrow> 'k list" and wf :: "'s \<Rightarrow> bool" +
  fixes key :: "'e \<Rightarrow> 'k"
    and ingest :: "('e, 'p) sender \<Rightarrow> 'e \<Rightarrow> 'q \<Rightarrow> (bool \<times> goerror option) \<times> 'q"
    and cache_of :: "'q \<Rightarrow> 's"
    and producer_of :: "'q \<Rightarrow> 'p"
  assumes refused: "\<not> fst (admit (key e) (cache_of p)) \<Longrightarrow>
      fst (ingest snd_fn e p) = (False, None) \<and>
      cache_of (snd (ingest snd_fn e p)) = snd (admit (key e) (cache_of p)) \<and>
      producer_of (snd (ingest snd_fn e p)) = producer_of p"
    and forwarded: "fst (admit (key e) (cache_of p)) \<Longrightarrow>
      fst (ingest snd_fn e p) = (True, fst (snd_fn e (producer_of p))) \<and>
      cache_of (snd (ingest snd_fn e p)) = snd (admit (key e) (cache_of p)) \<and>
      producer_of (snd (ingest snd_fn e p)) = snd (snd_fn e (producer_of p))"
begin

text \<open>A stream of calls: the producer is called for the accepted messages, in their order.\<close>

lemma stream:
  "cache_of (fold (\<lambda>e p. snd (ingest snd_fn e p)) es p) = cache_after admit key (cache_of p) es \<and>
   producer_of (fold (\<lambda>e p. snd (ingest snd_fn e p)) es p) =
     fold (\<lambda>e k. snd (snd_fn e k)) (accepted admit key (cache_of p) es) (producer_of p)"
proof (induction es arbitrary: p)
  case (Cons e es)
  then show ?case
    using refused [of e p snd_fn] forwarded [of e p snd_fn]
    by (cases "fst (admit (key e) (cache_of p))") (auto simp: Let_def)
qed simp

lemma stream_reference:
  assumes "cache_of p = start" and "card (key ` set es) \<le> cap"
  shows "producer_of (fold (\<lambda>e p. snd (ingest snd_fn e p)) es p) =
    fold (\<lambda>e k. snd (snd_fn e k)) (first_occ key {} es) (producer_of p)"
  using stream [of snd_fn es p] accepted_start [of key es] assms by simp

text \<open>A stream in which no id is known or repeated is forwarded whole, with the producer's results.\<close>

lemma stream_fresh:
  "wf (cache_of p) \<Longrightarrow> distinct (map key es) \<Longrightarrow> key ` set es \<inter> set (order (cache_of p)) = {} \<Longrightarrow>
     results (ingest snd_fn) es p = map (Pair True) (results snd_fn es (producer_of p)) \<and>
     producer_of (fold (\<lambda>e p. snd (ingest snd_fn e p)) es p) = fold (\<lambda>e k. snd (snd_fn e k)) es (producer_of p)"
proof (induction es arbitrary: p)
  case (Cons e es)
  have "fst (admit (key e) (cache_of p))" using Cons.prems by (simp add: fst_admit_iff)
  note f = forwarded [OF this, of snd_fn]
  have "key ` set es \<inter> insert (key e) (set (order (cache_of p))) = {}" using Cons.prems(2,3) by auto
  with known_after_admit_subset [OF Cons.prems(1), of "key e"]
  have "key ` set es \<inter> set (order (snd (admit (key e) (cache_of p)))) = {}" by blast
  moreover have "wf (cache_of (snd (ingest snd_fn e p)))" using f Cons.prems(1) by (simp add: wf_admit)
  ultimately show ?case using Cons.IH [of "snd (ingest snd_fn e p)"] Cons.prems(2) f by simp
qed simp

text \<open>A message that was offered once is refused when it is offered again at once.\<close>

lemma resend_refused:
  assumes "wf (cache_of p)"
  shows "fst (ingest snd_fn' e (snd (ingest snd_fn e p))) = (False, None) \<and>
    producer_of (snd (ingest snd_fn' e (snd (ingest snd_fn e p)))) = producer_of (snd (ingest snd_fn e p))"
proof -
  have "cache_of (snd (ingest snd_fn e p)) = snd (admit (key e) (cache_of p))"
    using refused [of e p snd_fn] forwarded [of e p snd_fn]
    by (cases "fst (admit (key e) (cache_of p))") auto
  with admit_twice [OF assms, of "key e"] refused [of e "snd (ingest snd_fn e p)" snd_fn']
  show ?thesis by simp
qed

text \<open>The outcome of a call is decided by the cache alone.\<close>

lemma outcome_iff:
  assumes "wf (cache_of p)"
  shows "fst (fst (ingest snd_fn e p)) \<longleftrightarrow> key e \<notin> set (order (cache_of p))"
  using fst_admit_iff [OF assms, of "key e"] refused [of e p snd_fn] forwarded [of e p snd_fn]
  by (cases "fst (admit (key e) (cache_of p))") auto

end

end
