(* ===== verification/Messages.thy ===== *)
theory Messages
  imports Prelude
begin

text \<open>
  The three protobuf messages, as records with the fields of the generated Go structs
  (proto/telemetry.pb.go, proto/storefront.pb.go, proto/deliverystats.pb.go). Timestamps are int64
  milliseconds, kept as integers; a float64 is kept as its IEEE 754 bits where the code only copies
  it or reads its bits. The wire format itself belongs to google.golang.org/protobuf and is a
  parameter of the components that marshal, with the round trip as its documented law.
\<close>

record reading =
  device_id :: string
  sequence :: uint64
  timestamp_ms :: int
  reading_value :: uint64

record storefront_event =
  event_id :: string
  profile_id :: string
  event_type :: string
  ev_timestamp_ms :: int
  attributes :: "(string \<times> string) list"

record delivery_webhook =
  webhook_id :: string
  message_id :: string
  channel :: string
  status :: string
  wh_timestamp_ms :: int
  provider :: string

text \<open>Reading a Go map[string]string: the empty string for a missing key.\<close>

definition attr :: "(string \<times> string) list \<Rightarrow> string \<Rightarrow> string" where
  "attr m k = (case map_of m k of Some v \<Rightarrow> v | None \<Rightarrow> [])"

text \<open>
  What the program relies on of proto.Marshal and proto.Unmarshal: a marshalled message
  unmarshals to itself.
\<close>

definition codec_ok :: "('m \<Rightarrow> goerror + bytes) \<Rightarrow> (bytes \<Rightarrow> goerror + 'm) \<Rightarrow> bool" where
  "codec_ok marshal unmarshal \<longleftrightarrow> (\<forall>m b. marshal m = Inr b \<longrightarrow> unmarshal b = Inr m)"

text \<open>A codec given by a table of messages and their encodings, for concrete instances.\<close>

definition table_marshal :: "('m \<times> bytes) list \<Rightarrow> 'm \<Rightarrow> goerror + bytes" where
  "table_marshal t m = (case map_of t m of Some b \<Rightarrow> Inr b | None \<Rightarrow> Inl (Errno ''marshal''))"

definition table_unmarshal :: "('m \<times> bytes) list \<Rightarrow> bytes \<Rightarrow> goerror + 'm" where
  "table_unmarshal t b =
     (case map_of (map prod.swap t) b of Some m \<Rightarrow> Inr m | None \<Rightarrow> Inl (Errno ''unmarshal''))"

lemma codec_ok_table: "distinct (map snd t) \<Longrightarrow> codec_ok (table_marshal t) (table_unmarshal t)"
proof -
  assume d: "distinct (map snd t)"
  have "map_of (map prod.swap t) b = Some m" if "map_of t m = Some b" for m b
    using that d by (intro map_of_is_SomeI) (force simp: comp_def dest: map_of_SomeD)+
  then show ?thesis
    by (auto simp: codec_ok_def table_marshal_def table_unmarshal_def split: option.splits)
qed

lemma codec_okD: "codec_ok marshal unmarshal \<Longrightarrow> marshal m = Inr b \<Longrightarrow> unmarshal b = Inr m"
  by (simp add: codec_ok_def)

end
