(* ===== verification/Event_Edge.thy ===== *)
theory Event_Edge
  imports Edge_Interface Messages
begin

text \<open>
  internal/eventingest: the bounded set of event ids (dedup.go), the edge in front of Kafka
  (pipeline.go) and the naive deduplication it is compared with (reference.go).
\<close>

section \<open>EventDedup\<close>

definition max_event_ids :: nat where
  "max_event_ids = 4000000"

lemma max_event_ids_pos [simp]: "0 < max_event_ids"
  by (simp add: max_event_ids_def)

record event_dedup =
  ed_seen :: "string set"
  ed_order :: "string list"

definition new_event_dedup :: event_dedup where
  "new_event_dedup = \<lparr>ed_seen = {}, ed_order = []\<rparr>"

definition event_admit :: "string \<Rightarrow> event_dedup \<Rightarrow> bool \<times> event_dedup" where
  "event_admit eid d =
     (if eid \<in> ed_seen d then (False, d)
      else
        let seen1 = insert eid (ed_seen d);
            order1 = ed_order d @ [eid]
        in if length order1 > max_event_ids
           then (True, d\<lparr>ed_seen := seen1 - {hd order1}, ed_order := tl order1\<rparr>)
           else (True, d\<lparr>ed_seen := seen1, ed_order := order1\<rparr>))"

definition event_entry_count :: "event_dedup \<Rightarrow> nat" where
  "event_entry_count d = card (ed_seen d)"

definition event_dedup_ok :: "event_dedup \<Rightarrow> bool" where
  "event_dedup_ok d \<longleftrightarrow> ed_seen d = set (ed_order d) \<and> distinct (ed_order d)
     \<and> length (ed_order d) \<le> max_event_ids"

section \<open>Pipeline\<close>

record 'p event_pipeline =
  ep_dedup :: event_dedup
  ep_producer :: 'p

definition new_event_pipeline :: "event_dedup \<Rightarrow> 'p \<Rightarrow> 'p event_pipeline" where
  "new_event_pipeline d k = \<lparr>ep_dedup = d, ep_producer = k\<rparr>"

definition event_ingest ::
  "(storefront_event, 'p) sender \<Rightarrow> storefront_event \<Rightarrow> 'p event_pipeline \<Rightarrow>
   (bool \<times> goerror option) \<times> 'p event_pipeline"
where
  "event_ingest produce e p =
     (case event_admit (event_id e) (ep_dedup p) of
        (False, d) \<Rightarrow> ((False, None), p\<lparr>ep_dedup := d\<rparr>)
      | (True, d) \<Rightarrow>
          (case produce e (ep_producer p) of
             (Some err, k) \<Rightarrow> ((True, Some err), p\<lparr>ep_dedup := d, ep_producer := k\<rparr>)
           | (None, k) \<Rightarrow> ((True, None), p\<lparr>ep_dedup := d, ep_producer := k\<rparr>)))"

definition event_ingest_all ::
  "(storefront_event, 'p) sender \<Rightarrow> storefront_event list \<Rightarrow> 'p event_pipeline \<Rightarrow> 'p event_pipeline"
where
  "event_ingest_all produce es p = fold (\<lambda>e p. snd (event_ingest produce e p)) es p"

section \<open>ReferenceDedup\<close>

fun event_reference_loop :: "string set \<Rightarrow> storefront_event list \<Rightarrow> storefront_event list \<Rightarrow> storefront_event list" where
  "event_reference_loop seen_ids out [] = out"
| "event_reference_loop seen_ids out (e # es) =
     (if event_id e \<in> seen_ids then event_reference_loop seen_ids out es
      else event_reference_loop (insert (event_id e) seen_ids) (out @ [e]) es)"

definition event_reference_dedup :: "storefront_event list \<Rightarrow> storefront_event list" where
  "event_reference_dedup delivered = event_reference_loop {} [] delivered"

lemma event_reference_loop_first_occ:
  "event_reference_loop seen_ids out es = out @ first_occ event_id seen_ids es"
  by (induction es arbitrary: seen_ids out) auto

lemma event_reference_first_occ: "event_reference_dedup es = first_occ event_id {} es"
  by (simp add: event_reference_dedup_def event_reference_loop_first_occ)

section \<open>The edge keeps its contract\<close>

lemma event_order_admit:
  assumes "event_dedup_ok d" and "eid \<notin> set (ed_order d)"
  shows "fst (event_admit eid d) \<and>
    ed_order (snd (event_admit eid d)) = last_n max_event_ids (ed_order d @ [eid])"
proof (cases "length (ed_order d) = max_event_ids")
  case True
  then have "last_n max_event_ids (ed_order d @ [eid]) = tl (ed_order d @ [eid])"
    by (simp add: last_n_def drop_Suc del: drop_append)
  with True assms show ?thesis by (simp add: event_admit_def event_dedup_ok_def Let_def)
next
  case False
  with assms have "length (ed_order d @ [eid]) \<le> max_event_ids" by (simp add: event_dedup_ok_def)
  with assms show ?thesis by (simp add: event_admit_def event_dedup_ok_def Let_def last_n_short)
qed

lemma event_dedup_ok_admit:
  assumes "event_dedup_ok d"
  shows "event_dedup_ok (snd (event_admit eid d))"
proof (cases "eid \<in> ed_seen d")
  case True
  with assms show ?thesis by (simp add: event_admit_def)
next
  case False
  with assms have d: "distinct (ed_order d @ [eid])" by (simp add: event_dedup_ok_def)
  then have "set (tl (ed_order d @ [eid])) = set (ed_order d @ [eid]) - {hd (ed_order d @ [eid])}"
    by (cases "ed_order d @ [eid]") auto
  with False d assms show ?thesis
    by (simp add: event_dedup_ok_def event_admit_def Let_def distinct_tl)
qed

lemma event_dedup_ok_new [simp]: "event_dedup_ok new_event_dedup"
  by (simp add: event_dedup_ok_def new_event_dedup_def)

interpretation ev: forwarding_edge max_event_ids event_admit new_event_dedup ed_order event_dedup_ok
  event_id event_ingest ep_dedup ep_producer
proof
  fix d eid assume "event_dedup_ok d" "eid \<in> set (ed_order d)"
  then show "event_admit eid d = (False, d)" by (simp add: event_admit_def event_dedup_ok_def)
next
  fix e :: storefront_event and snd_fn and p :: "'a event_pipeline"
  assume "\<not> fst (event_admit (event_id e) (ep_dedup p))"
  then obtain d where "event_admit (event_id e) (ep_dedup p) = (False, d)"
    by (metis prod.collapse)
  then show "fst (event_ingest snd_fn e p) = (False, None) \<and>
      ep_dedup (snd (event_ingest snd_fn e p)) = snd (event_admit (event_id e) (ep_dedup p)) \<and>
      ep_producer (snd (event_ingest snd_fn e p)) = ep_producer p"
    by (simp add: event_ingest_def)
next
  fix e :: storefront_event and snd_fn and p :: "'a event_pipeline"
  assume "fst (event_admit (event_id e) (ep_dedup p))"
  then obtain d where "event_admit (event_id e) (ep_dedup p) = (True, d)"
    by (metis prod.collapse)
  then show "fst (event_ingest snd_fn e p) = (True, fst (snd_fn e (ep_producer p))) \<and>
      ep_dedup (snd (event_ingest snd_fn e p)) = snd (event_admit (event_id e) (ep_dedup p)) \<and>
      ep_producer (snd (event_ingest snd_fn e p)) = snd (snd_fn e (ep_producer p))"
    by (simp add: event_ingest_def split: prod.split option.split)
qed (simp_all add: event_order_admit event_dedup_ok_admit, simp_all add: event_dedup_ok_def new_event_dedup_def)

section \<open>Properties\<close>

text \<open>
  Agreement with the reference: whatever the producer does, a fresh edge hands a stream with at
  most 4,000,000 distinct event ids to the producer exactly as the naive deduplication orders it,
  one call for each event that is the first with its id.
\<close>

theorem event_edge_agrees_with_reference:
  assumes "card (event_id ` set es) \<le> 4000000"
  shows "ep_producer (event_ingest_all produce es (new_event_pipeline new_event_dedup k)) =
    fold (\<lambda>e k. snd (produce e k)) (event_reference_dedup es) k"
  using ev.stream_reference [of "new_event_pipeline new_event_dedup k" es produce] assms
  by (simp add: event_ingest_all_def new_event_pipeline_def event_reference_first_occ max_event_ids_def)

definition demo_event :: "string \<Rightarrow> storefront_event" where
  "demo_event i = \<lparr>event_id = i, profile_id = ''p1'', event_type = ''page_view'',
     ev_timestamp_ms = 0, attributes = []\<rparr>"

theorem event_edge_agrees_with_reference_witness:
  "ep_producer (event_ingest_all keep_all (map demo_event [''e1'', ''e2'', ''e1''])
     (new_event_pipeline new_event_dedup [])) = map demo_event [''e1'', ''e2'']"
proof -
  have "card (event_id ` set (map demo_event [''e1'', ''e2'', ''e1''])) \<le> 4000000"
    by (simp add: demo_event_def card_insert_if)
  from event_edge_agrees_with_reference [OF this, of keep_all "[]"] show ?thesis
    by (simp add: fold_keep_all) (simp add: event_reference_dedup_def demo_event_def)
qed

text \<open>
  C31. Bounded memory without early loss: after any stream the edge remembers exactly the last
  4,000,000 admitted ids, EntryCount is their number, and an id is admitted a second time only after
  more than 4,000,000 other admissions.
\<close>

theorem event_memory_window:
  "let d = cache_after event_admit event_id new_event_dedup es;
       adm = map event_id (accepted event_admit event_id new_event_dedup es)
   in ed_order d = last_n 4000000 adm \<and> event_entry_count d = min 4000000 (length adm) \<and>
      spaced 4000000 adm \<and> event_id ` set es = set adm"
proof -
  let ?d = "cache_after event_admit event_id new_event_dedup es"
  let ?adm = "map event_id (accepted event_admit event_id new_event_dedup es)"
  have ok: "event_dedup_ok ?d" by (simp add: ev.wf_cache_after)
  have o: "ed_order ?d = last_n max_event_ids ?adm"
    using ev.order_cache_after [OF ev.fifo_start, of event_id es] by (simp add: new_event_dedup_def)
  have n: "event_entry_count ?d = length (ed_order ?d)"
    using ok by (simp add: event_entry_count_def event_dedup_ok_def distinct_card)
  have "event_id ` set es \<subseteq> set ?adm"
    using ev.keys_covered [OF ev.fifo_start, of event_id es] by (simp add: new_event_dedup_def)
  moreover have "set ?adm \<subseteq> event_id ` set es"
    using ev.accepted_subset [of event_id new_event_dedup es] by auto
  ultimately show ?thesis
    using o n ev.spaced_accepted_start [of event_id es] by (simp add: Let_def max_event_ids_def)
qed

text \<open>
  A produce error is not retried: once Ingest returned an error for an event, sending the same
  event again is reported as accepted=false with no error and does not reach the producer. The
  doc comment of Ingest says of such a call that the event is on its way or has landed.
\<close>

theorem event_error_then_duplicate:
  assumes "event_dedup_ok (ep_dedup p)" and "event_ingest produce e p = ((True, Some err), p')"
  shows "fst (event_ingest produce' e p') = (False, None) \<and>
    ep_producer (snd (event_ingest produce' e p')) = ep_producer p'"
  using ev.resend_refused [OF assms(1), of produce' e produce] assms(2) by simp

theorem event_error_then_duplicate_witness:
  "\<exists>p'. event_ingest (refuse_all (Errno ''broker down'')) (demo_event ''e1'')
      (new_event_pipeline new_event_dedup []) = ((True, Some (Errno ''broker down'')), p') \<and>
    fst (event_ingest keep_all (demo_event ''e1'') p') = (False, None) \<and>
    ep_producer (snd (event_ingest keep_all (demo_event ''e1'') p')) = []"
proof -
  let ?p = "new_event_pipeline new_event_dedup ([] :: storefront_event list)"
  let ?i = "event_ingest (refuse_all (Errno ''broker down'')) (demo_event ''e1'') ?p"
  have ok: "event_dedup_ok (ep_dedup ?p)" by (simp add: new_event_pipeline_def)
  have f: "fst ?i = (True, Some (Errno ''broker down''))" "ep_producer (snd ?i) = []"
    by (simp_all add: event_ingest_def event_admit_def new_event_pipeline_def new_event_dedup_def
        demo_event_def refuse_all_def Let_def max_event_ids_def)
  then have i: "?i = ((True, Some (Errno ''broker down'')), snd ?i)" by (simp add: prod_eq_iff)
  from event_error_then_duplicate [OF ok i, of keep_all] i f(2) show ?thesis by metis
qed

end
