(* ===== verification/Delivery_Edge.thy ===== *)
theory Delivery_Edge
  imports Edge_Interface Messages
begin

text \<open>
  internal/deliverystats, the edge: the bounded set of webhook ids (dedup.go), the pipeline in front
  of Kafka (pipeline.go) and the naive deduplication it is compared with (reference.go). The Go code
  repeats the storefront edge on purpose and shares nothing with it; the definitions here do the
  same, and only the contract they are proved against is shared.
\<close>

section \<open>WebhookDedup\<close>

definition max_webhook_ids :: nat where
  "max_webhook_ids = 4000000"

lemma max_webhook_ids_pos [simp]: "0 < max_webhook_ids"
  by (simp add: max_webhook_ids_def)

record webhook_dedup =
  wd_seen :: "string set"
  wd_order :: "string list"

definition new_webhook_dedup :: webhook_dedup where
  "new_webhook_dedup = \<lparr>wd_seen = {}, wd_order = []\<rparr>"

definition webhook_admit :: "string \<Rightarrow> webhook_dedup \<Rightarrow> bool \<times> webhook_dedup" where
  "webhook_admit wid d =
     (if wid \<in> wd_seen d then (False, d)
      else
        let seen1 = insert wid (wd_seen d);
            order1 = wd_order d @ [wid]
        in if length order1 > max_webhook_ids
           then (True, d\<lparr>wd_seen := seen1 - {hd order1}, wd_order := tl order1\<rparr>)
           else (True, d\<lparr>wd_seen := seen1, wd_order := order1\<rparr>))"

definition webhook_entry_count :: "webhook_dedup \<Rightarrow> nat" where
  "webhook_entry_count d = card (wd_seen d)"

definition webhook_dedup_ok :: "webhook_dedup \<Rightarrow> bool" where
  "webhook_dedup_ok d \<longleftrightarrow> wd_seen d = set (wd_order d) \<and> distinct (wd_order d)
     \<and> length (wd_order d) \<le> max_webhook_ids"

section \<open>Pipeline\<close>

record 'p webhook_pipeline =
  wp_dedup :: webhook_dedup
  wp_producer :: 'p

definition new_webhook_pipeline :: "webhook_dedup \<Rightarrow> 'p \<Rightarrow> 'p webhook_pipeline" where
  "new_webhook_pipeline d k = \<lparr>wp_dedup = d, wp_producer = k\<rparr>"

definition webhook_ingest ::
  "(delivery_webhook, 'p) sender \<Rightarrow> delivery_webhook \<Rightarrow> 'p webhook_pipeline \<Rightarrow>
   (bool \<times> goerror option) \<times> 'p webhook_pipeline"
where
  "webhook_ingest produce e p =
     (case webhook_admit (webhook_id e) (wp_dedup p) of
        (False, d) \<Rightarrow> ((False, None), p\<lparr>wp_dedup := d\<rparr>)
      | (True, d) \<Rightarrow>
          (case produce e (wp_producer p) of
             (Some err, k) \<Rightarrow> ((True, Some err), p\<lparr>wp_dedup := d, wp_producer := k\<rparr>)
           | (None, k) \<Rightarrow> ((True, None), p\<lparr>wp_dedup := d, wp_producer := k\<rparr>)))"

definition webhook_ingest_all ::
  "(delivery_webhook, 'p) sender \<Rightarrow> delivery_webhook list \<Rightarrow> 'p webhook_pipeline \<Rightarrow> 'p webhook_pipeline"
where
  "webhook_ingest_all produce es p = fold (\<lambda>e p. snd (webhook_ingest produce e p)) es p"

section \<open>ReferenceDedup\<close>

fun webhook_reference_loop :: "string set \<Rightarrow> delivery_webhook list \<Rightarrow> delivery_webhook list \<Rightarrow> delivery_webhook list" where
  "webhook_reference_loop seen_ids out [] = out"
| "webhook_reference_loop seen_ids out (e # es) =
     (if webhook_id e \<in> seen_ids then webhook_reference_loop seen_ids out es
      else webhook_reference_loop (insert (webhook_id e) seen_ids) (out @ [e]) es)"

definition webhook_reference_dedup :: "delivery_webhook list \<Rightarrow> delivery_webhook list" where
  "webhook_reference_dedup delivered = webhook_reference_loop {} [] delivered"

lemma webhook_reference_loop_first_occ:
  "webhook_reference_loop seen_ids out es = out @ first_occ webhook_id seen_ids es"
  by (induction es arbitrary: seen_ids out) auto

lemma webhook_reference_first_occ: "webhook_reference_dedup es = first_occ webhook_id {} es"
  by (simp add: webhook_reference_dedup_def webhook_reference_loop_first_occ)

section \<open>The edge keeps its contract\<close>

lemma webhook_order_admit:
  assumes "webhook_dedup_ok d" and "wid \<notin> set (wd_order d)"
  shows "fst (webhook_admit wid d) \<and>
    wd_order (snd (webhook_admit wid d)) = last_n max_webhook_ids (wd_order d @ [wid])"
proof (cases "length (wd_order d) = max_webhook_ids")
  case True
  then have "last_n max_webhook_ids (wd_order d @ [wid]) = tl (wd_order d @ [wid])"
    by (simp add: last_n_def drop_Suc del: drop_append)
  with True assms show ?thesis by (simp add: webhook_admit_def webhook_dedup_ok_def Let_def)
next
  case False
  with assms have "length (wd_order d @ [wid]) \<le> max_webhook_ids" by (simp add: webhook_dedup_ok_def)
  with assms show ?thesis by (simp add: webhook_admit_def webhook_dedup_ok_def Let_def last_n_short)
qed

lemma webhook_dedup_ok_admit:
  assumes "webhook_dedup_ok d"
  shows "webhook_dedup_ok (snd (webhook_admit wid d))"
proof (cases "wid \<in> wd_seen d")
  case True
  with assms show ?thesis by (simp add: webhook_admit_def)
next
  case False
  with assms have d: "distinct (wd_order d @ [wid])" by (simp add: webhook_dedup_ok_def)
  then have "set (tl (wd_order d @ [wid])) = set (wd_order d @ [wid]) - {hd (wd_order d @ [wid])}"
    by (cases "wd_order d @ [wid]") auto
  with False d assms show ?thesis
    by (simp add: webhook_dedup_ok_def webhook_admit_def Let_def distinct_tl)
qed

lemma webhook_dedup_ok_new [simp]: "webhook_dedup_ok new_webhook_dedup"
  by (simp add: webhook_dedup_ok_def new_webhook_dedup_def)

interpretation wh: forwarding_edge max_webhook_ids webhook_admit new_webhook_dedup wd_order webhook_dedup_ok
  webhook_id webhook_ingest wp_dedup wp_producer
proof
  fix d wid assume "webhook_dedup_ok d" "wid \<in> set (wd_order d)"
  then show "webhook_admit wid d = (False, d)" by (simp add: webhook_admit_def webhook_dedup_ok_def)
next
  fix e :: delivery_webhook and snd_fn and p :: "'a webhook_pipeline"
  assume "\<not> fst (webhook_admit (webhook_id e) (wp_dedup p))"
  then obtain d where "webhook_admit (webhook_id e) (wp_dedup p) = (False, d)"
    by (metis prod.collapse)
  then show "fst (webhook_ingest snd_fn e p) = (False, None) \<and>
      wp_dedup (snd (webhook_ingest snd_fn e p)) = snd (webhook_admit (webhook_id e) (wp_dedup p)) \<and>
      wp_producer (snd (webhook_ingest snd_fn e p)) = wp_producer p"
    by (simp add: webhook_ingest_def)
next
  fix e :: delivery_webhook and snd_fn and p :: "'a webhook_pipeline"
  assume "fst (webhook_admit (webhook_id e) (wp_dedup p))"
  then obtain d where "webhook_admit (webhook_id e) (wp_dedup p) = (True, d)"
    by (metis prod.collapse)
  then show "fst (webhook_ingest snd_fn e p) = (True, fst (snd_fn e (wp_producer p))) \<and>
      wp_dedup (snd (webhook_ingest snd_fn e p)) = snd (webhook_admit (webhook_id e) (wp_dedup p)) \<and>
      wp_producer (snd (webhook_ingest snd_fn e p)) = snd (snd_fn e (wp_producer p))"
    by (simp add: webhook_ingest_def split: prod.split option.split)
qed (simp_all add: webhook_order_admit webhook_dedup_ok_admit, simp_all add: webhook_dedup_ok_def new_webhook_dedup_def)

section \<open>Properties\<close>

text \<open>
  Agreement with the reference: a fresh delivery edge over any producer hands a stream of webhooks
  with at most 4,000,000 distinct ids to the producer exactly as the naive deduplication orders it.
\<close>

theorem delivery_edge_agrees_with_reference:
  assumes "card (webhook_id ` set ws) \<le> 4000000"
  shows "wp_producer (webhook_ingest_all produce ws (new_webhook_pipeline new_webhook_dedup k)) =
    fold (\<lambda>w k. snd (produce w k)) (webhook_reference_dedup ws) k"
  using wh.stream_reference [of "new_webhook_pipeline new_webhook_dedup k" ws produce] assms
  by (simp add: webhook_ingest_all_def new_webhook_pipeline_def webhook_reference_first_occ
      max_webhook_ids_def)

definition demo_webhook :: "string \<Rightarrow> delivery_webhook" where
  "demo_webhook i = \<lparr>webhook_id = i, message_id = ''m1'', channel = ''sms'', status = ''sent'',
     wh_timestamp_ms = 0, provider = ''twilio''\<rparr>"

theorem delivery_edge_agrees_with_reference_witness:
  "wp_producer (webhook_ingest_all keep_all (map demo_webhook [''w1'', ''w1'', ''w2''])
     (new_webhook_pipeline new_webhook_dedup [])) = map demo_webhook [''w1'', ''w2'']"
proof -
  have "card (webhook_id ` set (map demo_webhook [''w1'', ''w1'', ''w2''])) \<le> 4000000"
    by (simp add: demo_webhook_def card_insert_if)
  from delivery_edge_agrees_with_reference [OF this, of keep_all "[]"] show ?thesis
    by (simp add: fold_keep_all) (simp add: webhook_reference_dedup_def demo_webhook_def)
qed

end
