(* ===== verification/Corpora.thy ===== *)
theory Corpora
  imports Sim_Random Go_Format Segments Event_Edge Delivery_Edge
begin

text \<open>
  The simulated corpora of internal/simstorefront and of deliverystats/simwebhooks.go, over any source
  of random draws. The float64 arithmetic that turns a draw into a distance in time or into a price is
  a parameter; nothing proved depends on it.
\<close>

record sim_floats =
  sf_ago_days :: "int \<Rightarrow> nat \<Rightarrow> int"
  sf_ago_minutes :: "int \<Rightarrow> nat \<Rightarrow> int"
  sf_price :: "nat \<Rightarrow> string"

text \<open>time.Time.UnixMilli of an instant in nanoseconds.\<close>

definition unix_milli :: "int \<Rightarrow> int" where
  "unix_milli ns = ns div 1000000"

section \<open>Storefront events\<close>

record profile_events =
  pe_profile_id :: string
  pe_events :: "storefront_event list"

text \<open>The switch over the draw: 0.55, 0.80, 0.92 and 0.97 as multiples of 2^-53.\<close>

definition draw_event_type :: "nat \<Rightarrow> bool \<Rightarrow> string \<times> bool" where
  "draw_event_type u cart_open =
     (if u < 4953959590107546 then (''page_view'', cart_open)
      else if u < 7205759403792794 then (''add_to_cart'', True)
      else if u < 8286623314361713 \<and> cart_open then (''purchase'', False)
      else if u < 8736983277098762 \<and> cart_open then (''cart_abandon'', False)
      else (''page_view'', cart_open))"

definition event_id_text :: "nat \<Rightarrow> nat \<Rightarrow> string" where
  "event_id_text p i = ''evt-'' @ fmt_0d 8 (int p) @ ''-'' @ fmt_0d 4 (int i)"

text \<open>The inner loop, from event number i on with k events to come.\<close>

fun draw_events ::
  "'r rand \<Rightarrow> sim_floats \<Rightarrow> int \<Rightarrow> int \<Rightarrow> nat \<Rightarrow> nat \<Rightarrow> nat \<Rightarrow> bool \<Rightarrow> 'r \<Rightarrow> (storefront_event list \<times> 'r) option"
where
  "draw_events rd fl days now p i 0 cart_open r = Some ([], r)"
| "draw_events rd fl days now p i (Suc k) cart_open r =
     (let (u_time, r1) = rd_unit rd r;
          (u_type, r2) = rd_unit rd r1;
          (etype, cart') = draw_event_type u_type cart_open
      in do {
           (c, r3) \<leftarrow> intn rd (int (length categories)) r2;
           let category = (''category'', categories ! nat c);
           (attrs, r5) \<leftarrow>
             (if etype = ''purchase'' \<or> etype = ''add_to_cart'' then
                (let (u_price, r4) = rd_unit rd r3
                 in do {
                      (sku, r5) \<leftarrow> intn rd 50000 r4;
                      Some ([category, (''price'', sf_price fl u_price), (''sku'', ''sku-'' @ fmt_0d 5 sku)], r5)
                    })
              else Some ([category], r3));
           (es, r6) \<leftarrow> draw_events rd fl days now p (i + 1) k cart' r5;
           Some (\<lparr>event_id = event_id_text p i, profile_id = ''profile-'' @ fmt_0d 8 (int p),
                  event_type = etype, ev_timestamp_ms = unix_milli (now - sf_ago_days fl days u_time),
                  attributes = attrs\<rparr> # es, r6)
         })"

text \<open>
  The sort by adjacent swaps: the next event moves left past every event with a later timestamp. The
  sorted part is kept last element first.
\<close>

fun sink_event :: "storefront_event \<Rightarrow> storefront_event list \<Rightarrow> storefront_event list" where
  "sink_event e [] = [e]"
| "sink_event e (y # ys) =
     (if ev_timestamp_ms e < ev_timestamp_ms y then y # sink_event e ys else e # y # ys)"

definition sort_events :: "storefront_event list \<Rightarrow> storefront_event list" where
  "sort_events es = rev (fold sink_event es [])"

fun build_profiles ::
  "'r rand \<Rightarrow> sim_floats \<Rightarrow> int \<Rightarrow> int \<Rightarrow> int \<Rightarrow> nat \<Rightarrow> nat \<Rightarrow> 'r \<Rightarrow> (profile_events list \<times> 'r) option"
where
  "build_profiles rd fl avg days now p 0 r = Some ([], r)"
| "build_profiles rd fl avg days now p (Suc k) r =
     do {
       (m, r1) \<leftarrow> intn rd (2 * avg) r;
       (es, r2) \<leftarrow> draw_events rd fl days now p 0 (nat (1 + m)) False r1;
       (ps, r3) \<leftarrow> build_profiles rd fl avg days now (p + 1) k r2;
       Some (\<lparr>pe_profile_id = ''profile-'' @ fmt_0d 8 (int p), pe_events = sort_events es\<rparr> # ps, r3)
     }"

definition build_storefront ::
  "'r rand \<Rightarrow> sim_floats \<Rightarrow> nat \<Rightarrow> int \<Rightarrow> int \<Rightarrow> int \<Rightarrow> 'r \<Rightarrow> profile_events list option"
where
  "build_storefront rd fl profiles avg days now r =
     map_option fst (build_profiles rd fl avg days now 0 profiles r)"

definition flatten_profiles :: "profile_events list \<Rightarrow> storefront_event list" where
  "flatten_profiles ps = foldl (\<lambda>out p. out @ pe_events p) [] ps"

text \<open>WithDuplicates, given the number of duplicates its float64 expression yields.\<close>

definition with_duplicates ::
  "'r rand \<Rightarrow> storefront_event list \<Rightarrow> nat \<Rightarrow> 'r \<Rightarrow> storefront_event list option"
where
  "with_duplicates rd events dup_count r = map_option fst (resend_some rd events dup_count r)"

section \<open>Delivery webhooks\<close>

definition channels :: "(string \<times> string) list" where
  "channels = [(''email'', ''sendgrid''), (''sms'', ''twilio''), (''whatsapp'', ''meta_whatsapp'')]"

definition webhook_id_text :: "nat \<Rightarrow> nat \<Rightarrow> string" where
  "webhook_id_text m k = ''wh-'' @ fmt_0d 9 (int m) @ ''-'' @ fmt_d (int k)"

text \<open>The outcome of a message: 0.90 and 0.97 as multiples of 2^-53.\<close>

definition draw_status :: "nat \<Rightarrow> string" where
  "draw_status u =
     (if u < 8106479329266893 then ''delivered''
      else if u < 8736983277098762 then ''bounced'' else ''failed'')"

definition message_webhook :: "nat \<Rightarrow> nat \<Rightarrow> string \<times> string \<Rightarrow> string \<Rightarrow> int \<Rightarrow> delivery_webhook" where
  "message_webhook m k ch st at =
     \<lparr>webhook_id = webhook_id_text m k, message_id = ''msg-'' @ fmt_0d 9 (int m), channel = fst ch,
      status = st, wh_timestamp_ms = unix_milli at, provider = snd ch\<rparr>"

fun build_messages ::
  "'r rand \<Rightarrow> sim_floats \<Rightarrow> int \<Rightarrow> int \<Rightarrow> nat \<Rightarrow> nat \<Rightarrow> 'r \<Rightarrow> (delivery_webhook list \<times> 'r) option"
where
  "build_messages rd fl minutes now m 0 r = Some ([], r)"
| "build_messages rd fl minutes now m (Suc k) r =
     do {
       (c, r1) \<leftarrow> intn rd (int (length channels)) r;
       let ch = channels ! nat c;
       let (u_time, r2) = rd_unit rd r1;
       let sent_at = now - sf_ago_minutes fl minutes u_time;
       let (u_outcome, r3) = rd_unit rd r2;
       (delay, r4) \<leftarrow> intn rd 30 r3;
       let delivered_at = sent_at + (1 + delay) * 1000000000;
       (ws, r5) \<leftarrow> build_messages rd fl minutes now (m + 1) k r4;
       Some (message_webhook m 0 ch ''sent'' sent_at #
             message_webhook m 1 ch (draw_status u_outcome) delivered_at # ws, r5)
     }"

definition build_webhooks ::
  "'r rand \<Rightarrow> sim_floats \<Rightarrow> nat \<Rightarrow> int \<Rightarrow> int \<Rightarrow> 'r \<Rightarrow> delivery_webhook list option"
where
  "build_webhooks rd fl messages minutes now r =
     map_option fst (build_messages rd fl minutes now 0 messages r)"

definition with_retries ::
  "'r rand \<Rightarrow> delivery_webhook list \<Rightarrow> nat \<Rightarrow> 'r \<Rightarrow> delivery_webhook list option"
where
  "with_retries rd webhooks dup_count r = map_option fst (resend_some rd webhooks dup_count r)"

section \<open>Identifiers\<close>

lemma digits_dash:
  "list_all is_digit a \<Longrightarrow> list_all is_digit b \<Longrightarrow> a @ CHR ''-'' # c = b @ CHR ''-'' # d \<longleftrightarrow> a = b \<and> c = d"
proof (induction a arbitrary: b)
  case Nil
  then show ?case by (cases b) (auto simp: is_digit_def)
next
  case (Cons x a)
  then show ?case by (cases b) (auto simp: is_digit_def)
qed

lemma event_id_text_inject: "event_id_text p i = event_id_text q j \<longleftrightarrow> p = q \<and> i = j"
  using digits_dash [OF fmt_0d_nat_digits fmt_0d_nat_digits] by (simp add: event_id_text_def)

lemma webhook_id_text_inject: "webhook_id_text m k = webhook_id_text n l \<longleftrightarrow> m = n \<and> k = l"
  using digits_dash [OF fmt_0d_nat_digits fmt_0d_nat_digits] by (simp add: webhook_id_text_def)

lemma upt_first: "[i..<i + Suc k] = i # [Suc i..<Suc i + k]"
  by (simp add: upt_conv_Cons del: upt_Suc)

lemma draw_events_ids:
  "draw_events rd fl days now p i k cart r = Some (es, r') \<Longrightarrow>
     map event_id es = map (event_id_text p) [i..<i + k] \<and>
     (\<forall>e \<in> set es. profile_id e = ''profile-'' @ fmt_0d 8 (int p))"
proof (induction k arbitrary: i cart r es r')
  case (Suc k)
  from Suc.prems obtain j cart1 r1 es1 e where
    "draw_events rd fl days now p (i + 1) k cart1 r1 = Some (es1, r')" "es = e # es1"
    "event_id e = event_id_text p i" "profile_id e = ''profile-'' @ fmt_0d 8 (int p)"
    by (auto simp: Let_def split: Option.bind_split_asm prod.splits if_splits)
  with Suc.IH [of "i + 1" cart1 r1 es1 r'] show ?case unfolding upt_first by simp
qed simp

lemma mset_sink_event: "mset (sink_event e ys) = {#e#} + mset ys"
  by (induction ys) auto

lemma mset_fold_sink: "mset (fold sink_event es acc) = mset es + mset acc"
  by (induction es arbitrary: acc) (auto simp: mset_sink_event)

lemma mset_sort_events: "mset (sort_events es) = mset es"
  by (simp add: sort_events_def mset_fold_sink)

lemma sorted_sink_event:
  "sorted_wrt (\<lambda>x y. ev_timestamp_ms y \<le> ev_timestamp_ms x) ys \<Longrightarrow>
     sorted_wrt (\<lambda>x y. ev_timestamp_ms y \<le> ev_timestamp_ms x) (sink_event e ys)"
proof (induction ys)
  case (Cons y ys)
  have "set (sink_event e ys) = insert e (set ys)"
    using mset_sink_event [of e ys] by (metis list.simps(15) mset.simps(2) mset_eq_setD union_mset_add_mset_left add_0)
  with Cons show ?case by auto
qed simp

lemma sorted_sort_events: "sorted (map ev_timestamp_ms (sort_events es))"
proof -
  have "sorted_wrt (\<lambda>x y. ev_timestamp_ms y \<le> ev_timestamp_ms x) (fold sink_event es acc)"
    if "sorted_wrt (\<lambda>x y. ev_timestamp_ms y \<le> ev_timestamp_ms x) acc" for acc
    using that by (induction es arbitrary: acc) (simp_all add: sorted_sink_event)
  from this [of "[]"] show ?thesis
    by (simp add: sort_events_def sorted_wrt_rev sorted_wrt_map flip: rev_map)
qed

text \<open>What a profile of the corpus looks like.\<close>

definition profile_ok :: "int \<Rightarrow> nat \<Rightarrow> profile_events \<Rightarrow> bool" where
  "profile_ok avg p pe \<longleftrightarrow> pe_profile_id pe = ''profile-'' @ fmt_0d 8 (int p)
     \<and> (\<forall>e \<in> set (pe_events pe). profile_id e = pe_profile_id pe)
     \<and> 1 \<le> length (pe_events pe) \<and> int (length (pe_events pe)) \<le> 2 * avg
     \<and> sorted (map ev_timestamp_ms (pe_events pe))
     \<and> mset (map event_id (pe_events pe)) = mset (map (event_id_text p) [0..<length (pe_events pe)])"

lemma build_profiles_ok:
  assumes "rand_ok rd"
  shows "build_profiles rd fl avg days now p k r = Some (ps, r') \<Longrightarrow>
    length ps = k \<and> (\<forall>i < k. profile_ok avg (p + i) (ps ! i))"
proof (induction k arbitrary: p r ps r')
  case (Suc k)
  from Suc.prems obtain m r1 es r2 ps1 where d: "intn rd (2 * avg) r = Some (m, r1)"
    "draw_events rd fl days now p 0 (nat (1 + m)) False r1 = Some (es, r2)"
    "build_profiles rd fl avg days now (p + 1) k r2 = Some (ps1, r')"
    "ps = \<lparr>pe_profile_id = ''profile-'' @ fmt_0d 8 (int p), pe_events = sort_events es\<rparr> # ps1"
    by (auto split: Option.bind_split_asm)
  note m = intn_range [OF assms d(1)]
  note e = draw_events_ids [OF d(2)]
  from e have "length es = nat (1 + m)" by (metis add_0 diff_zero length_map length_upt)
  moreover have "length (sort_events es) = length es" "set (sort_events es) = set es"
    using mset_sort_events [of es] by (metis size_mset, metis set_mset_mset)
  moreover have "mset (map event_id (sort_events es)) = mset (map event_id es)"
    by (simp add: mset_sort_events)
  moreover have "Suc 0 \<le> nat (1 + m)" using m by (simp add: Suc_le_eq)
  ultimately have "profile_ok avg p (hd ps)"
    using e m by (simp add: profile_ok_def d(4) sorted_sort_events)
  with Suc.IH [OF d(3)] show ?case
    by (simp add: d(4) All_less_Suc2 nth_Cons')
qed simp

lemma flatten_profiles_concat: "flatten_profiles ps = concat (map pe_events ps)"
proof -
  have "foldl (\<lambda>out p. out @ pe_events p) acc ps = acc @ concat (map pe_events ps)" for acc
    by (induction ps arbitrary: acc) simp_all
  then show ?thesis by (simp add: flatten_profiles_def)
qed

lemma profiles_distinct:
  assumes "\<forall>i < length ps. profile_ok avg (p + i) (ps ! i)"
  shows "distinct (map event_id (concat (map pe_events ps))) \<and>
    (\<forall>x \<in> set (concat (map pe_events ps)). \<exists>q j. p \<le> q \<and> event_id x = event_id_text q j)"
  using assms
proof (induction ps arbitrary: p)
  case (Cons pe ps)
  have "\<forall>i < length ps. profile_ok avg (p + 1 + i) (ps ! i)"
  proof (intro allI impI)
    fix i assume "i < length ps"
    with spec [OF Cons.prems, of "Suc i"] show "profile_ok avg (p + 1 + i) (ps ! i)" by simp
  qed
  from Cons.IH [OF this] have IH: "distinct (map event_id (concat (map pe_events ps)))"
    "\<forall>x \<in> set (concat (map pe_events ps)). \<exists>q j. p + 1 \<le> q \<and> event_id x = event_id_text q j"
    by blast+
  have ok: "mset (map event_id (pe_events pe)) = mset (map (event_id_text p) [0..<length (pe_events pe)])"
    using Cons.prems by (auto simp: profile_ok_def)
  then have "distinct (map event_id (pe_events pe))"
    by (metis (mono_tags, lifting) distinct_map distinct_upt event_id_text_inject inj_onI mset_eq_imp_distinct_iff)
  moreover have own: "\<forall>x \<in> set (pe_events pe). \<exists>j. event_id x = event_id_text p j"
    using mset_eq_setD [OF ok] by auto
  moreover have "event_id ` set (pe_events pe) \<inter> event_id ` set (concat (map pe_events ps)) = {}"
    using own IH(2) by (fastforce simp: event_id_text_inject)
  ultimately show ?case using IH by (fastforce dest: Suc_leD)
qed simp

lemma build_messages_ids:
  "build_messages rd fl minutes now m k r = Some (ws, r') \<Longrightarrow>
     map webhook_id ws = concat (map (\<lambda>i. [webhook_id_text i 0, webhook_id_text i 1]) [m..<m + k])"
proof (induction k arbitrary: m r ws r')
  case (Suc k)
  from Suc.prems obtain r1 ws1 where
    "build_messages rd fl minutes now (m + 1) k r1 = Some (ws1, r')"
    "map webhook_id ws = webhook_id_text m 0 # webhook_id_text m 1 # map webhook_id ws1"
    by (auto simp: message_webhook_def Let_def split: Option.bind_split_asm prod.splits)
  with Suc.IH [of "m + 1" r1 ws1 r'] show ?case unfolding upt_first by simp
qed simp

lemma build_messages_distinct:
  assumes "build_messages rd fl minutes now m k r = Some (ws, r')"
  shows "distinct (map webhook_id ws)"
proof -
  have "distinct (concat (map (\<lambda>i. [webhook_id_text i 0, webhook_id_text i 1]) [m..<n]))" for n
    by (induction n) (auto simp: webhook_id_text_inject)
  with build_messages_ids [OF assms] show ?thesis by simp
qed

section \<open>Properties\<close>

text \<open>
  The storefront corpus: Build makes the asked number of profiles, each with at least one and at
  most 2 * avgEvents events of its own, in the order of their timestamps, and no event id occurs twice
  in the corpus.
\<close>

theorem storefront_corpus_well_formed:
  assumes "rand_ok rd" and "build_storefront rd fl profiles avg days now r = Some ps"
  shows "length ps = profiles \<and> (\<forall>i < profiles. profile_ok avg i (ps ! i)) \<and>
    distinct (map event_id (flatten_profiles ps))"
proof -
  obtain r' where "build_profiles rd fl avg days now 0 profiles r = Some (ps, r')"
    using assms(2) by (auto simp: build_storefront_def)
  from build_profiles_ok [OF assms(1) this] have ok: "length ps = profiles" "\<forall>i < profiles. profile_ok avg (0 + i) (ps ! i)"
    by auto
  from profiles_distinct [of ps avg 0] ok show ?thesis by (simp add: flatten_profiles_concat)
qed

definition demo_sim_floats :: sim_floats where
  "demo_sim_floats = \<lparr>sf_ago_days = (\<lambda>d u. d * int u), sf_ago_minutes = (\<lambda>m u. m * int u), sf_price = (\<lambda>u. ''9.99'')\<rparr>"

theorem storefront_corpus_well_formed_witness:
  "case build_storefront scripted_rand demo_sim_floats 2 1 3 90000000 [0, 7, 8, 1, 0, 9, 8, 1] of
     Some ps \<Rightarrow> length ps = 2 \<and> distinct (map event_id (flatten_profiles ps)) | None \<Rightarrow> False"
proof -
  have "build_storefront scripted_rand demo_sim_floats 2 1 3 90000000 [0, 7, 8, 1, 0, 9, 8, 1] \<noteq> None"
    by (simp add: build_storefront_def scripted_rand_def intn_def draw_event_type_def Let_def categories_def
        numeral_2_eq_2 demo_sim_floats_def)
  then obtain ps where "build_storefront scripted_rand demo_sim_floats 2 1 3 90000000 [0, 7, 8, 1, 0, 9, 8, 1] = Some ps" by blast
  with storefront_corpus_well_formed [OF scripted_rand_ok this] show ?thesis by simp
qed

text \<open>
  A profile's history need not make sense: event types are drawn before the events are sorted by
  time, so that a purchase can come first in a profile's stream.
\<close>

theorem purchase_before_cart:
  "map_option (map (map event_type \<circ> pe_events))
     (build_storefront scripted_rand demo_sim_floats 1 3 1 90000000
        [1, 1000000, 6000000000000000, 0, 0, 0, 5000000, 8000000000000000, 0, 0, 0]) =
   Some [[''purchase'', ''add_to_cart'']]"
  by (simp add: build_storefront_def scripted_rand_def intn_def draw_event_type_def Let_def categories_def
      numeral_2_eq_2 demo_sim_floats_def sort_events_def unix_milli_def)

end
