(* ===== verification/Telemetry_Dedup.thy ===== *)
theory Telemetry_Dedup
  imports Dedup_Interface Messages
begin

text \<open>
  internal/ingest/dedup.go: the per-device record of admitted sequences, bounded first in first
  out, and the map of devices around it. Admit, EntryCount and DeviceCount run under the mutex for
  their whole body, so each is one atomic function on the state.
\<close>

section \<open>State and operations\<close>

definition max_sequences_per_device :: nat where
  "max_sequences_per_device = 4096"

lemma max_sequences_pos [simp]: "0 < max_sequences_per_device"
  by (simp add: max_sequences_per_device_def)

text \<open>The Go set is a map to true; only keys are ever added or deleted, so it is a set here.\<close>

record device_seen =
  seen_set :: "uint64 set"
  seen_order :: "uint64 list"

definition empty_device_seen :: device_seen where
  "empty_device_seen = \<lparr>seen_set = {}, seen_order = []\<rparr>"

record dedup =
  seen :: "(string \<times> device_seen) list"

definition new_dedup :: dedup where
  "new_dedup = \<lparr>seen = []\<rparr>"

text \<open>The part of Admit that works on one device's record.\<close>

definition admit_seq :: "uint64 \<Rightarrow> device_seen \<Rightarrow> bool \<times> device_seen" where
  "admit_seq q ds =
     (if q \<in> seen_set ds then (False, ds)
      else
        let set1 = insert q (seen_set ds);
            order1 = seen_order ds @ [q]
        in if length order1 > max_sequences_per_device
           then (True, \<lparr>seen_set = set1 - {hd order1}, seen_order = tl order1\<rparr>)
           else (True, \<lparr>seen_set = set1, seen_order = order1\<rparr>))"

definition device_state :: "dedup \<Rightarrow> string \<Rightarrow> device_seen" where
  "device_state d dev = (case map_of (seen d) dev of Some ds \<Rightarrow> ds | None \<Rightarrow> empty_device_seen)"

definition admit :: "string \<Rightarrow> uint64 \<Rightarrow> dedup \<Rightarrow> bool \<times> dedup" where
  "admit dev q d =
     (let r = admit_seq q (device_state d dev)
      in (fst r, \<lparr>seen = AList.update dev (snd r) (seen d)\<rparr>))"

definition entry_count :: "dedup \<Rightarrow> nat" where
  "entry_count d = sum_list (map (\<lambda>(_, ds). card (seen_set ds)) (seen d))"

definition device_count :: "dedup \<Rightarrow> nat" where
  "device_count d = length (seen d)"

section \<open>Invariant\<close>

definition device_ok :: "device_seen \<Rightarrow> bool" where
  "device_ok ds \<longleftrightarrow> seen_set ds = set (seen_order ds) \<and> distinct (seen_order ds)
     \<and> length (seen_order ds) \<le> max_sequences_per_device"

definition dedup_ok :: "dedup \<Rightarrow> bool" where
  "dedup_ok d \<longleftrightarrow> distinct (map fst (seen d)) \<and> list_all (\<lambda>p. device_ok (snd p)) (seen d)"

lemma device_ok_empty [simp]: "device_ok empty_device_seen"
  by (simp add: device_ok_def empty_device_seen_def)

lemma order_admit_seq:
  assumes "device_ok ds" and "q \<notin> set (seen_order ds)"
  shows "seen_order (snd (admit_seq q ds)) = last_n max_sequences_per_device (seen_order ds @ [q])"
proof -
  have q: "q \<notin> seen_set ds" using assms by (simp add: device_ok_def)
  show ?thesis
  proof (cases "length (seen_order ds) = max_sequences_per_device")
    case True
    then have "last_n max_sequences_per_device (seen_order ds @ [q]) = tl (seen_order ds @ [q])"
      by (simp add: last_n_def drop_Suc del: drop_append)
    with True q show ?thesis by (simp add: admit_seq_def Let_def)
  next
    case False
    with assms have "length (seen_order ds @ [q]) \<le> max_sequences_per_device"
      by (simp add: device_ok_def)
    with q show ?thesis by (simp add: admit_seq_def Let_def last_n_short)
  qed
qed

lemma device_ok_admit_seq: "device_ok ds \<Longrightarrow> device_ok (snd (admit_seq q ds))"
proof -
  assume ok: "device_ok ds"
  then have set: "seen_set ds = set (seen_order ds)" and "distinct (seen_order ds)"
    and len: "length (seen_order ds) \<le> max_sequences_per_device"
    by (simp_all add: device_ok_def)
  show ?thesis
  proof (cases "q \<in> seen_set ds")
    case True
    with ok show ?thesis by (simp add: admit_seq_def)
  next
    case False
    with set \<open>distinct (seen_order ds)\<close> have d: "distinct (seen_order ds @ [q])" by simp
    then have "set (tl (seen_order ds @ [q])) = set (seen_order ds @ [q]) - {hd (seen_order ds @ [q])}"
      by (cases "seen_order ds @ [q]") auto
    with False set d len show ?thesis
      by (simp add: device_ok_def admit_seq_def Let_def distinct_tl)
  qed
qed

text \<open>One device's record is a FIFO cache: the contract every deduplication property rests on.\<close>

interpretation dev: fifo_cache max_sequences_per_device admit_seq empty_device_seen seen_order device_ok
proof
  show "seen_order empty_device_seen = []" by (simp add: empty_device_seen_def)
next
  fix ds q assume "device_ok ds" "q \<notin> set (seen_order ds)"
  then show "fst (admit_seq q ds) \<and>
      seen_order (snd (admit_seq q ds)) = last_n max_sequences_per_device (seen_order ds @ [q])"
    using order_admit_seq [of ds q] by (simp add: admit_seq_def device_ok_def Let_def)
next
  fix ds assume "device_ok ds"
  then show "length (seen_order ds) \<le> max_sequences_per_device" "distinct (seen_order ds)"
    by (simp_all add: device_ok_def)
next
  fix ds q assume "device_ok ds" "q \<in> set (seen_order ds)"
  then show "admit_seq q ds = (False, ds)" by (simp add: admit_seq_def device_ok_def)
qed (simp_all add: device_ok_admit_seq)

section \<open>The device map\<close>

lemma device_ok_state: "dedup_ok d \<Longrightarrow> device_ok (device_state d dev)"
  by (auto simp: dedup_ok_def device_state_def list_all_iff split: option.splits
      dest!: map_of_SomeD)

lemma device_state_admit:
  "device_state (snd (admit dev q d)) dev' =
     (if dev' = dev then snd (admit_seq q (device_state d dev)) else device_state d dev')"
  by (simp add: admit_def device_state_def Let_def alist_simps)

lemma fst_admit: "fst (admit dev q d) = fst (admit_seq q (device_state d dev))"
  by (simp add: admit_def Let_def)

lemma dedup_ok_new [simp]: "dedup_ok new_dedup"
  by (simp add: dedup_ok_def new_dedup_def)

lemma device_state_new [simp]: "device_state new_dedup dev = empty_device_seen"
  by (simp add: device_state_def new_dedup_def)

lemma dedup_ok_admit: "dedup_ok d \<Longrightarrow> dedup_ok (snd (admit dev q d))"
proof -
  assume d: "dedup_ok d"
  have "device_ok (snd (admit_seq q (device_state d dev)))"
    using d by (simp add: device_ok_state device_ok_admit_seq)
  with d show ?thesis
    by (auto simp: dedup_ok_def admit_def Let_def list_all_iff set_update_distinct
        distinct_update)
qed

text \<open>A refused request changes nothing: the record was there and is written back.\<close>

lemma admit_refused:
  assumes "dedup_ok d" and "q \<in> set (seen_order (device_state d dev))"
  shows "admit dev q d = (False, d)"
proof -
  obtain ds where m: "map_of (seen d) dev = Some ds"
    using assms(2) by (auto simp: device_state_def empty_device_seen_def split: option.splits)
  then have "device_state d dev = ds" by (simp add: device_state_def)
  then have "admit_seq q (device_state d dev) = (False, ds)"
    using dev.fifo_known assms device_ok_state by metis
  with m show ?thesis by (simp add: admit_def update_triv)
qed

definition known_readings :: "dedup \<Rightarrow> (string \<times> uint64) set" where
  "known_readings d = {k. snd k \<in> set (seen_order (device_state d (fst k)))}"

definition fits_devices :: "(string \<times> uint64) set \<Rightarrow> bool" where
  "fits_devices K \<longleftrightarrow>
     (\<forall>dev. finite {q. (dev, q) \<in> K} \<and> card {q. (dev, q) \<in> K} \<le> max_sequences_per_device)"

definition admit_key :: "string \<times> uint64 \<Rightarrow> dedup \<Rightarrow> bool \<times> dedup" where
  "admit_key k d = admit (fst k) (snd k) d"

lemma known_admit_other:
  "dev' \<noteq> dev \<Longrightarrow> (dev', q') \<in> known_readings (snd (admit dev q d)) \<longleftrightarrow> (dev', q') \<in> known_readings d"
  by (simp add: known_readings_def device_state_admit)

lemma known_admit_same:
  "(dev, q') \<in> known_readings (snd (admit dev q d)) \<longleftrightarrow>
     q' \<in> set (seen_order (snd (admit_seq q (device_state d dev))))"
  by (simp add: known_readings_def device_state_admit)

text \<open>The whole table is a dedup cache on (device, sequence) pairs.\<close>

interpretation tel: dedup_cache admit_key new_dedup known_readings fits_devices dedup_ok
proof
  show "known_readings new_dedup = {}" by (simp add: known_readings_def empty_device_seen_def)
  show "dedup_ok new_dedup" by simp
next
  fix d k assume "dedup_ok d"
  then show "dedup_ok (snd (admit_key k d))" by (simp add: admit_key_def dedup_ok_admit)
next
  fix d k assume "dedup_ok d" "k \<in> known_readings d"
  then show "admit_key k d = (False, d)"
    by (simp add: admit_key_def known_readings_def admit_refused)
next
  fix d k assume d: "dedup_ok d" "k \<notin> known_readings d"
  then have q: "snd k \<notin> set (seen_order (device_state d (fst k)))"
    by (simp add: known_readings_def)
  have ok: "device_ok (device_state d (fst k))" using d by (simp add: device_ok_state)
  show "fst (admit_key k d)"
    using dev.admit_fresh [OF ok q] by (simp add: admit_key_def fst_admit)
  show "k \<in> known_readings (snd (admit_key k d)) \<and>
      known_readings (snd (admit_key k d)) \<subseteq> insert k (known_readings d)"
    using dev.known_fresh [OF ok q]
    by (auto simp: admit_key_def known_readings_def device_state_admit split: if_splits)
  assume fits: "fits_devices (insert k (known_readings d))"
  have "{q. (fst k, q) \<in> insert k (known_readings d)}
      = insert (snd k) (set (seen_order (device_state d (fst k))))"
    by (cases k) (auto simp: known_readings_def)
  with fits have "card (insert (snd k) (set (seen_order (device_state d (fst k)))))
      \<le> max_sequences_per_device"
    unfolding fits_devices_def by metis
  then have eq: "set (seen_order (snd (admit_seq (snd k) (device_state d (fst k)))))
      = insert (snd k) (set (seen_order (device_state d (fst k))))"
    using dev.known_fits [OF ok q] by simp
  show "known_readings (snd (admit_key k d)) = insert k (known_readings d)"
  proof (rule set_eqI)
    fix x
    show "x \<in> known_readings (snd (admit_key k d)) \<longleftrightarrow> x \<in> insert k (known_readings d)"
      by (cases "fst x = fst k")
        (simp_all add: admit_key_def known_readings_def device_state_admit eq prod_eq_iff)
  qed
next
  fix A B assume A: "fits_devices A" and sub: "B \<subseteq> A"
  show "fits_devices B"
    unfolding fits_devices_def
  proof
    fix dev
    have "{q. (dev, q) \<in> B} \<subseteq> {q. (dev, q) \<in> A}" using sub by blast
    with A show "finite {q. (dev, q) \<in> B} \<and> card {q. (dev, q) \<in> B} \<le> max_sequences_per_device"
      unfolding fits_devices_def by (meson card_mono finite_subset order_trans)
  qed
qed

section \<open>One device of a stream\<close>

text \<open>The table works on each device separately: projecting a run on a device is a run of its record.\<close>

lemma device_state_cache_after:
  "device_state (cache_after admit_key key d es) dev =
     cache_after admit_seq (snd \<circ> key) (device_state d dev) (filter (\<lambda>e. fst (key e) = dev) es)"
  by (induction es arbitrary: d) (auto simp: admit_key_def device_state_admit)

lemma accepted_device:
  "filter (\<lambda>e. fst (key e) = dev) (accepted admit_key key d es) =
     accepted admit_seq (snd \<circ> key) (device_state d dev) (filter (\<lambda>e. fst (key e) = dev) es)"
  by (induction es arbitrary: d) (auto simp: admit_key_def device_state_admit fst_admit Let_def)

text \<open>A whole run of Admit calls from the empty table, and the calls that returned true.\<close>

definition admit_all :: "(string \<times> uint64) list \<Rightarrow> dedup" where
  "admit_all ks = cache_after admit_key id new_dedup ks"

definition admitted :: "(string \<times> uint64) list \<Rightarrow> (string \<times> uint64) list" where
  "admitted ks = accepted admit_key id new_dedup ks"

definition sequences_of :: "string \<Rightarrow> (string \<times> uint64) list \<Rightarrow> uint64 list" where
  "sequences_of dev ks = map snd (filter (\<lambda>k. fst k = dev) ks)"

lemma dedup_ok_admit_all [simp]: "dedup_ok (admit_all ks)"
  by (simp add: admit_all_def tel.wf_cache_after)

lemma order_admit_all:
  "seen_order (device_state (admit_all ks) dev) =
     last_n max_sequences_per_device (sequences_of dev (admitted ks))"
  using dev.order_cache_after [of empty_device_seen snd "filter (\<lambda>k. fst k = dev) ks"]
    accepted_device [of id dev new_dedup ks]
  by (simp add: admit_all_def admitted_def sequences_of_def device_state_cache_after
      dev.order_start)

lemma keys_admit: "fst ` set (seen (snd (admit dev q d))) = insert dev (fst ` set (seen d))"
  by (simp add: admit_def Let_def dom_update)

lemma keys_cache_after:
  "fst ` set (seen (cache_after admit_key key d es)) = fst ` set (seen d) \<union> fst ` key ` set es"
  by (induction es arbitrary: d) (auto simp: admit_key_def keys_admit)

lemma device_count_admit_all: "device_count (admit_all ks) = card (fst ` set ks)"
proof -
  have "fst ` set (seen (admit_all ks)) = fst ` set ks"
    by (simp add: admit_all_def keys_cache_after new_dedup_def)
  moreover have "distinct (map fst (seen (admit_all ks)))"
    using dedup_ok_admit_all [of ks] by (simp add: dedup_ok_def)
  ultimately show ?thesis
    by (metis device_count_def distinct_card length_map set_map)
qed

lemma entry_count_bounded:
  "dedup_ok d \<Longrightarrow> entry_count d \<le> max_sequences_per_device * device_count d"
proof -
  assume d: "dedup_ok d"
  have "sum_list (map (\<lambda>(_, ds). card (seen_set ds)) ps) \<le> max_sequences_per_device * length ps"
    if "list_all (\<lambda>p. device_ok (snd p)) ps" for ps :: "(string \<times> device_seen) list"
    using that by (induction ps) (auto simp: device_ok_def distinct_card)
  with d show ?thesis by (simp add: dedup_ok_def entry_count_def device_count_def)
qed

lemma entry_count_single:
  assumes "dedup_ok d" and "fst ` set (seen d) \<subseteq> {dev}"
  shows "entry_count d = length (seen_order (device_state d dev))"
proof (cases "seen d")
  case Nil
  then show ?thesis by (simp add: entry_count_def device_state_def empty_device_seen_def)
next
  case (Cons p ps)
  have "distinct (map fst (seen d))" using assms by (simp add: dedup_ok_def)
  with Cons assms(2) have "ps = []" by (cases ps) auto
  moreover obtain ds where "p = (dev, ds)" using Cons assms(2) by (cases p) auto
  moreover have "device_ok ds" using assms Cons \<open>p = (dev, ds)\<close> by (simp add: dedup_ok_def)
  ultimately show ?thesis
    using Cons by (simp add: entry_count_def device_state_def device_ok_def distinct_card)
qed

section \<open>Properties\<close>

text \<open>
  C8. The window of Admit: after any sequence of calls the record of a device holds exactly the
  last 4096 sequences admitted for it, oldest first, and a further call for the device is refused
  exactly when its sequence is one of these.
\<close>

theorem admit_window:
  "seen_order (device_state (admit_all ks) dev)
     = last_n max_sequences_per_device (sequences_of dev (admitted ks)) \<and>
   (fst (admit dev q (admit_all ks)) \<longleftrightarrow>
     q \<notin> set (last_n max_sequences_per_device (sequences_of dev (admitted ks))))"
  using dev.fst_admit_iff [OF device_ok_state [OF dedup_ok_admit_all]]
  by (simp add: fst_admit order_admit_all)

text \<open>
  Two admissions of one (device, sequence) pair are more than 4096 admissions of that device
  apart, and every pair that was offered was admitted at least once: a reading is refused only
  as a duplicate.
\<close>

theorem admitted_spaced_and_complete:
  "spaced max_sequences_per_device (sequences_of dev (admitted ks)) \<and>
   set (admitted ks) = set ks"
proof
  show "spaced max_sequences_per_device (sequences_of dev (admitted ks))"
    using dev.spaced_accepted_start [of snd "filter (\<lambda>k. fst k = dev) ks"]
      accepted_device [of id dev new_dedup ks]
    by (simp add: admitted_def sequences_of_def)
  show "set (admitted ks) = set ks"
    using tel.keys_covered [OF tel.wf_start, of id ks] tel.accepted_subset [of id new_dedup ks]
    by (simp add: admitted_def tel.known_start)
qed

text \<open>
  Bounded memory: whatever is offered, the table holds at most 4096 entries for each device
  that ever sent, and it tracks exactly these devices.
\<close>

theorem dedup_memory_bounded:
  "entry_count (admit_all ks) \<le> max_sequences_per_device * device_count (admit_all ks) \<and>
   device_count (admit_all ks) = card (fst ` set ks)"
  using entry_count_bounded [OF dedup_ok_admit_all, of ks] by (simp add: device_count_admit_all)

text \<open>
  The cap reached and held: offering distinct sequences of one device admits every one of them,
  and the table then holds exactly as many entries as were offered, up to 4096.
\<close>

theorem single_device_fills_to_cap:
  assumes "distinct qs"
  shows "admitted (map (Pair dev) qs) = map (Pair dev) qs \<and>
    entry_count (admit_all (map (Pair dev) qs)) = min max_sequences_per_device (length qs)"
proof
  have "distinct (map id (map (Pair dev) qs))"
    using assms by (simp add: distinct_map inj_on_def)
  then show all: "admitted (map (Pair dev) qs) = map (Pair dev) qs"
    unfolding admitted_def by (intro tel.accepted_distinct) (simp_all add: tel.known_start)
  have "fst ` set (seen (admit_all (map (Pair dev) qs))) \<subseteq> {dev}"
    by (auto simp: admit_all_def keys_cache_after new_dedup_def)
  from entry_count_single [OF dedup_ok_admit_all this]
  show "entry_count (admit_all (map (Pair dev) qs)) = min max_sequences_per_device (length qs)"
    by (simp add: order_admit_all all sequences_of_def comp_def)
qed

theorem single_device_fills_to_cap_witness:
  "entry_count (admit_all (map (Pair ''dev-soak'') [7, 3, 9])) = 3"
  using single_device_fills_to_cap [of "[7, 3, 9]" "''dev-soak''"]
  by (simp add: max_sequences_per_device_def)

text \<open>
  The cap is per device: Admit for one device changes neither the record nor any answer of
  another.
\<close>

theorem admit_isolated:
  assumes "dev' \<noteq> dev"
  shows "device_state (snd (admit dev q d)) dev' = device_state d dev' \<and>
    fst (admit dev' q' (snd (admit dev q d))) = fst (admit dev' q' d)"
  using assms by (simp add: device_state_admit fst_admit)

theorem admit_isolated_witness:
  "''quiet'' \<noteq> ''busy'' \<and>
   fst (admit ''quiet'' 1 (snd (admit ''busy'' 1 (admit_all [(''quiet'', 1)])))) = False"
  using admit_isolated [of "''quiet''" "''busy''" 1 "admit_all [(''quiet'', 1)]" 1]
    admit_window [of "[(''quiet'', 1)]" "''quiet''" 1]
  by (simp add: admit_all_def admit_key_def admit_def admit_seq_def new_dedup_def
      device_state_def empty_device_seen_def Let_def max_sequences_per_device_def)

end
