(* ===== verification/Spool.thy ===== *)
theory Spool
  imports Messages
begin

text \<open>
  internal/ingest/spool.go: the append-only, length-prefixed overflow file, with the bufio.Writer
  in front of it. Every method holds the mutex for its whole body, so each is one atomic function
  on the state. The operating system is part of the state: a script gives the outcome of the next
  system calls (a write that fails after some bytes, a seek or truncate that fails), an empty script
  means that they all succeed, and a read limit makes reading fail after that many bytes.
\<close>

section \<open>The file\<close>

record os_file =
  content :: bytes
  offset :: nat
  file_open :: bool
  script :: "(nat \<times> goerror) option list"
  read_limit :: "nat option"

definition err_closed :: goerror where
  "err_closed = Errno ''file already closed''"

definition next_fault :: "os_file \<Rightarrow> (nat \<times> goerror) option" where
  "next_fault f =
     (if \<not> file_open f then Some (0, err_closed)
      else case script f of [] \<Rightarrow> None | x # _ \<Rightarrow> x)"

definition used :: "os_file \<Rightarrow> os_file" where
  "used f = f\<lparr>script := tl (script f)\<rparr>"

text \<open>Writing at an offset overwrites what is there; a gap past the end reads as zeros.\<close>

definition write_at :: "nat \<Rightarrow> bytes \<Rightarrow> bytes \<Rightarrow> bytes" where
  "write_at off p c =
     take off (c @ replicate (off - length c) 0) @ p @ drop (off + length p) c"

definition file_write :: "bytes \<Rightarrow> os_file \<Rightarrow> (nat \<times> goerror option) \<times> os_file" where
  "file_write p f =
     (let n = (case next_fault f of None \<Rightarrow> length p | Some (k, _) \<Rightarrow> min k (length p));
          e = (case next_fault f of None \<Rightarrow> None | Some (_, e) \<Rightarrow> Some e)
      in ((n, e), (used f)\<lparr>content := write_at (offset f) (take n p) (content f),
                          offset := offset f + n\<rparr>))"

definition file_seek :: "nat \<Rightarrow> os_file \<Rightarrow> goerror option \<times> os_file" where
  "file_seek off f =
     (case next_fault f of
        None \<Rightarrow> (None, (used f)\<lparr>offset := off\<rparr>)
      | Some (_, e) \<Rightarrow> (Some e, used f))"

definition file_truncate :: "os_file \<Rightarrow> goerror option \<times> os_file" where
  "file_truncate f =
     (case next_fault f of
        None \<Rightarrow> (None, (used f)\<lparr>content := []\<rparr>)
      | Some (_, e) \<Rightarrow> (Some e, used f))"

definition file_stat :: "os_file \<Rightarrow> (goerror + nat) \<times> os_file" where
  "file_stat f =
     (case next_fault f of
        None \<Rightarrow> (Inr (length (content f)), used f)
      | Some (_, e) \<Rightarrow> (Inl e, used f))"

text \<open>What a reader that starts at the beginning gets before it sees EOF or a read error.\<close>

definition readable :: "os_file \<Rightarrow> bytes" where
  "readable f = (case read_limit f of None \<Rightarrow> content f | Some k \<Rightarrow> take k (content f))"

lemma file_write_ok:
  "snd (fst (file_write p f)) = None \<Longrightarrow> fst (fst (file_write p f)) = length p"
  by (auto simp: file_write_def Let_def split: option.splits)

section \<open>bufio.Writer\<close>

text \<open>The buffer of bufio.NewWriter: 4096 bytes, and an error that sticks once set.\<close>

record bufw =
  wbuf :: bytes
  werr :: "goerror option"

definition new_bufw :: bufw where
  "new_bufw = \<lparr>wbuf = [], werr = None\<rparr>"

definition buf_size :: nat where
  "buf_size = 4096"

definition bw_flush :: "bufw \<Rightarrow> os_file \<Rightarrow> goerror option \<times> bufw \<times> os_file" where
  "bw_flush b f =
     (case werr b of
        Some e \<Rightarrow> (Some e, b, f)
      | None \<Rightarrow>
          if wbuf b = [] then (None, b, f)
          else
            let r = file_write (wbuf b) f; n = fst (fst r)
            in case snd (fst r) of
                 Some e \<Rightarrow> (Some e, \<lparr>wbuf = drop n (wbuf b), werr = Some e\<rparr>, snd r)
               | None \<Rightarrow>
                   if n < length (wbuf b)
                   then (Some (Errno ''short write''),
                         \<lparr>wbuf = drop n (wbuf b), werr = Some (Errno ''short write'')\<rparr>, snd r)
                   else (None, \<lparr>wbuf = [], werr = None\<rparr>, snd r))"

text \<open>
  Writer.Write: while the data does not fit the free space, either write it straight through (empty
  buffer) or fill the buffer and flush it; the rest is copied into the buffer.
\<close>

function bw_write :: "bytes \<Rightarrow> bufw \<Rightarrow> os_file \<Rightarrow> goerror option \<times> bufw \<times> os_file" where
  "bw_write p b f =
     (case werr b of
        Some e \<Rightarrow> (Some e, b, f)
      | None \<Rightarrow>
          if length p \<le> buf_size - length (wbuf b) then (None, b\<lparr>wbuf := wbuf b @ p\<rparr>, f)
          else if wbuf b = [] then
            (case snd (fst (file_write p f)) of
               Some e \<Rightarrow> (Some e, b\<lparr>werr := Some e\<rparr>, snd (file_write p f))
             | None \<Rightarrow> bw_write (drop (fst (fst (file_write p f))) p) b (snd (file_write p f)))
          else
            (let n = buf_size - length (wbuf b); r = bw_flush (b\<lparr>wbuf := wbuf b @ take n p\<rparr>) f
             in case fst r of
                  Some e \<Rightarrow> (Some e, fst (snd r), snd (snd r))
                | None \<Rightarrow> bw_write (drop n p) (fst (snd r)) (snd (snd r))))"
  by pat_completeness auto
termination
proof (relation "measure (\<lambda>(p, b, f). length p + length (wbuf b))", goal_cases)
  case 1
  show ?case by simp
next
  case (2 p b f)
  then show ?case using file_write_ok [of p f] by (auto simp: buf_size_def)
next
  case (3 p b f n r)
  then have "wbuf (fst (snd r)) = []"
    by (auto simp: bw_flush_def Let_def split: option.splits if_splits)
  moreover have "length p - n < length p + length (wbuf b)"
  proof -
    have "0 < length (wbuf b)" using 3 by simp
    then show ?thesis by linarith
  qed
  ultimately show ?case using 3 by (simp add: case_prod_unfold)
qed

declare bw_write.simps [simp del]

section \<open>The spool\<close>

record spool =
  spool_file :: os_file
  spool_w :: bufw

text \<open>NewSpool: the outcome of OpenFile is given; the offset goes to the end of the file.\<close>

definition new_spool :: "goerror option \<Rightarrow> os_file \<Rightarrow> goerror + spool" where
  "new_spool open_err f =
     (case open_err of
        Some e \<Rightarrow> Inl e
      | None \<Rightarrow>
          (case file_seek (length (content f)) f of
             (Some e, _) \<Rightarrow> Inl e
           | (None, f') \<Rightarrow> Inr \<lparr>spool_file = f', spool_w = new_bufw\<rparr>))"

definition spool_write :: "(reading \<Rightarrow> goerror + bytes) \<Rightarrow> reading \<Rightarrow> spool \<Rightarrow> goerror option \<times> spool" where
  "spool_write marshal r s =
     (case marshal r of
        Inl e \<Rightarrow> (Some e, s)
      | Inr b \<Rightarrow>
          (case bw_write (put_uint32 (word_of_nat (length b))) (spool_w s) (spool_file s) of
             (Some e, w, f) \<Rightarrow> (Some e, \<lparr>spool_file = f, spool_w = w\<rparr>)
           | (None, w, f) \<Rightarrow>
               (case bw_write b w f of
                  (Some e, w', f') \<Rightarrow> (Some e, \<lparr>spool_file = f', spool_w = w'\<rparr>)
                | (None, w', f') \<Rightarrow>
                    (case bw_flush w' f' of
                       (e, w'', f'') \<Rightarrow> (e, \<lparr>spool_file = f'', spool_w = w''\<rparr>)))))"

text \<open>
  The reading loop of Drain: a 4-byte length, that many bytes, and the next record; a record that
  does not unmarshal is skipped; the loop ends when either read comes up short.
\<close>

function drain_loop :: "(bytes \<Rightarrow> goerror + reading) \<Rightarrow> bytes \<Rightarrow> reading list" where
  "drain_loop unmarshal bs =
     (if length bs < 4 then []
      else
        let n = unat (get_uint32 (take 4 bs)); body = drop 4 bs
        in if length body < n then []
           else (case unmarshal (take n body) of
                   Inl _ \<Rightarrow> drain_loop unmarshal (drop n body)
                 | Inr r \<Rightarrow> r # drain_loop unmarshal (drop n body)))"
  by pat_completeness auto
termination
  by (relation "measure (\<lambda>(u, bs). length bs)") auto

declare drain_loop.simps [simp del]

definition spool_drain :: "(bytes \<Rightarrow> goerror + reading) \<Rightarrow> spool \<Rightarrow> (goerror + reading list) \<times> spool" where
  "spool_drain unmarshal s =
     (case bw_flush (spool_w s) (spool_file s) of
        (Some e, w, f) \<Rightarrow> (Inl e, \<lparr>spool_file = f, spool_w = w\<rparr>)
      | (None, w, f) \<Rightarrow>
          (case file_seek 0 f of
             (Some e, f1) \<Rightarrow> (Inl e, \<lparr>spool_file = f1, spool_w = w\<rparr>)
           | (None, f1) \<Rightarrow>
               (let out = drain_loop unmarshal (readable f1);
                    f2 = f1\<lparr>offset := length (readable f1)\<rparr>
                in case file_truncate f2 of
                     (Some e, f3) \<Rightarrow> (Inl e, \<lparr>spool_file = f3, spool_w = w\<rparr>)
                   | (None, f3) \<Rightarrow>
                       (case file_seek 0 f3 of
                          (Some e, f4) \<Rightarrow> (Inl e, \<lparr>spool_file = f4, spool_w = w\<rparr>)
                        | (None, f4) \<Rightarrow> (Inr out, \<lparr>spool_file = f4, spool_w = new_bufw\<rparr>)))))"

definition spool_size_bytes :: "spool \<Rightarrow> (goerror + nat) \<times> spool" where
  "spool_size_bytes s =
     (case bw_flush (spool_w s) (spool_file s) of
        (Some e, w, f) \<Rightarrow> (Inl e, \<lparr>spool_file = f, spool_w = w\<rparr>)
      | (None, w, f) \<Rightarrow>
          (case file_stat f of (r, f') \<Rightarrow> (r, \<lparr>spool_file = f', spool_w = w\<rparr>)))"

definition spool_close :: "spool \<Rightarrow> goerror option \<times> spool" where
  "spool_close s =
     (let f = spool_file s
      in (map_option snd (next_fault f), s\<lparr>spool_file := (used f)\<lparr>file_open := False\<rparr>\<rparr>))"

section \<open>Lemmas on the file and the writer\<close>

definition at_end :: "os_file \<Rightarrow> bool" where
  "at_end f \<longleftrightarrow> offset f = length (content f)"

text \<open>Everything the writer may still have to give to the system succeeds.\<close>

definition no_faults :: "os_file \<Rightarrow> bool" where
  "no_faults f \<longleftrightarrow> file_open f \<and> script f = []"

lemma no_faults_simps:
  "no_faults f \<Longrightarrow> next_fault f = None" "no_faults f \<Longrightarrow> no_faults (used f)"
  "no_faults (f\<lparr>offset := n\<rparr>) = no_faults f" "no_faults (f\<lparr>content := c\<rparr>) = no_faults f"
  by (simp_all add: no_faults_def next_fault_def used_def)

lemma used_simps [simp]:
  "content (used f) = content f" "offset (used f) = offset f" "file_open (used f) = file_open f"
  "read_limit (used f) = read_limit f"
  by (simp_all add: used_def)

lemma file_write_at_end:
  assumes "at_end f"
  shows "content (snd (file_write p f)) = content f @ take (fst (fst (file_write p f))) p"
    and "at_end (snd (file_write p f))"
proof -
  let ?n = "fst (fst (file_write p f))"
  have n: "?n \<le> length p"
    by (auto simp: file_write_def Let_def split: option.splits)
  have w: "snd (file_write p f)
      = (used f)\<lparr>content := write_at (offset f) (take ?n p) (content f), offset := offset f + ?n\<rparr>"
    by (simp add: file_write_def Let_def)
  show c: "content (snd (file_write p f)) = content f @ take ?n p"
    using assms by (subst w) (simp add: at_end_def write_at_def)
  have "offset (snd (file_write p f)) = offset f + ?n" by (subst w) simp
  with c n assms show "at_end (snd (file_write p f))" by (simp add: at_end_def)
qed

lemma file_write_no_faults:
  "no_faults f \<Longrightarrow> snd (fst (file_write p f)) = None \<and> no_faults (snd (file_write p f))"
  by (simp add: file_write_def Let_def no_faults_simps)

lemma read_limit_file_write [simp]: "read_limit (snd (file_write p f)) = read_limit f"
  by (simp add: file_write_def Let_def)

text \<open>A successful flush appends the buffer to the file and empties it.\<close>

lemma bw_flush_None:
  assumes "bw_flush b f = (None, b', f')" and "at_end f"
  shows "b' = new_bufw \<and> at_end f' \<and> content f' = content f @ wbuf b \<and> werr b = None"
proof -
  have b: "werr b = None" using assms(1) by (auto simp: bw_flush_def split: option.splits)
  show ?thesis
  proof (cases "wbuf b = []")
    case True
    with assms b show ?thesis by (auto simp: bw_flush_def new_bufw_def)
  next
    case False
    with assms(1) b have r: "b' = new_bufw" "f' = snd (file_write (wbuf b) f)"
      "\<not> fst (fst (file_write (wbuf b) f)) < length (wbuf b)"
      by (auto simp: bw_flush_def Let_def new_bufw_def split: option.splits if_splits)
    with file_write_at_end [OF assms(2), of "wbuf b"] b show ?thesis by simp
  qed
qed

lemma bw_flush_no_faults:
  "no_faults f \<Longrightarrow> werr b = None \<Longrightarrow> fst (bw_flush b f) = None \<and> no_faults (snd (snd (bw_flush b f)))"
  using file_write_no_faults [of f "wbuf b"] file_write_ok [of "wbuf b" f]
  by (simp add: bw_flush_def Let_def)

lemma bw_flush_error: "bw_flush b f = (Some e, b', f') \<Longrightarrow> werr b' = Some e"
  by (auto simp: bw_flush_def Let_def split: option.splits if_splits)

lemma read_limit_bw_flush [simp]: "read_limit (snd (snd (bw_flush b f))) = read_limit f"
  by (auto simp: bw_flush_def Let_def split: option.splits)

text \<open>A successful write: what was buffered, and the data, are in the file or in the buffer, in order.\<close>

lemma bw_write_None:
  "bw_write p b f = (None, b', f') \<Longrightarrow> at_end f \<Longrightarrow>
     at_end f' \<and> content f' @ wbuf b' = content f @ wbuf b @ p \<and> werr b' = None"
proof (induction p b f arbitrary: b' f' rule: bw_write.induct)
  case (1 p b f)
  have b: "werr b = None"
    using 1(3) by (auto simp: bw_write.simps [of p b f] split: option.splits)
  consider (fits) "length p \<le> buf_size - length (wbuf b)"
    | (direct) "\<not> length p \<le> buf_size - length (wbuf b)" "wbuf b = []"
    | (fill) "\<not> length p \<le> buf_size - length (wbuf b)" "wbuf b \<noteq> []" by blast
  then show ?case
  proof cases
    case fits
    with 1(3,4) b show ?thesis by (auto simp: bw_write.simps [of p b f])
  next
    case direct
    let ?w = "file_write p f"
    have ok: "snd (fst ?w) = None"
      using 1(3) b direct by (auto simp: bw_write.simps [of p b f] split: option.splits)
    with 1(3) b direct have rec: "bw_write (drop (fst (fst ?w)) p) b (snd ?w) = (None, b', f')"
      by (simp add: bw_write.simps [of p b f])
    have "at_end f' \<and> content f' @ wbuf b' = content (snd ?w) @ wbuf b @ drop (fst (fst ?w)) p
        \<and> werr b' = None"
      using 1(1) [OF b direct ok rec] file_write_at_end [OF 1(4), of p] by blast
    with file_write_at_end [OF 1(4), of p] direct show ?thesis by simp
  next
    case fill
    let ?n = "buf_size - length (wbuf b)"
    let ?r = "bw_flush (b\<lparr>wbuf := wbuf b @ take ?n p\<rparr>) f"
    have ok: "fst ?r = None"
      using 1(3) b fill by (auto simp: bw_write.simps [of p b f] Let_def split: option.splits)
    with 1(3) b fill have rec: "bw_write (drop ?n p) (fst (snd ?r)) (snd (snd ?r)) = (None, b', f')"
      by (simp add: bw_write.simps [of p b f] Let_def)
    have fl: "fst (snd ?r) = new_bufw \<and> at_end (snd (snd ?r)) \<and>
        content (snd (snd ?r)) = content f @ wbuf b @ take ?n p"
    proof -
      have "?r = (None, fst (snd ?r), snd (snd ?r))" using ok by (simp add: prod_eq_iff)
      from bw_flush_None [OF this 1(4)] show ?thesis by simp
    qed
    have "at_end f' \<and> content f' @ wbuf b' = content (snd (snd ?r)) @ wbuf (fst (snd ?r)) @ drop ?n p
        \<and> werr b' = None"
      using 1(2) [OF b fill refl refl ok rec] fl by blast
    with fl show ?thesis by (simp add: new_bufw_def)
  qed
qed

lemma bw_write_error:
  "bw_write p b f = (Some e, b', f') \<Longrightarrow> werr b' = Some e"
proof (induction p b f arbitrary: b' f' rule: bw_write.induct)
  case (1 p b f)
  show ?case
  proof (cases "werr b")
    case (Some x)
    with 1(3) show ?thesis by (simp add: bw_write.simps [of p b f])
  next
    case None
    note eq = 1(3) [unfolded bw_write.simps [of p b f] None option.case]
    consider (fits) "length p \<le> buf_size - length (wbuf b)"
      | (direct) "\<not> length p \<le> buf_size - length (wbuf b)" "wbuf b = []"
      | (fill) "\<not> length p \<le> buf_size - length (wbuf b)" "wbuf b \<noteq> []" by blast
    then show ?thesis
    proof cases
      case fits
      with eq show ?thesis by simp
    next
      case direct
      with eq 1(1) [OF None direct] show ?thesis
        by (cases "snd (fst (file_write p f))") auto
    next
      case fill
      let ?r = "bw_flush (b\<lparr>wbuf := wbuf b @ take (buf_size - length (wbuf b)) p\<rparr>) f"
      show ?thesis
      proof (cases "fst ?r")
        case None': None
        with eq fill 1(2) [OF None fill refl refl None'] show ?thesis by (simp add: Let_def)
      next
        case (Some x)
        with eq fill have x: "x = e" "fst (snd ?r) = b'" by (simp_all add: Let_def)
        with Some have "?r = (Some e, b', snd (snd ?r))" by (simp add: prod_eq_iff)
        then show ?thesis by (rule bw_flush_error)
      qed
    qed
  qed
qed

lemma bw_write_no_faults:
  "no_faults f \<Longrightarrow> werr b = None \<Longrightarrow>
     fst (bw_write p b f) = None \<and> no_faults (snd (snd (bw_write p b f)))"
proof (induction p b f rule: bw_write.induct)
  case (1 p b f)
  consider (fits) "length p \<le> buf_size - length (wbuf b)"
    | (direct) "\<not> length p \<le> buf_size - length (wbuf b)" "wbuf b = []"
    | (fill) "\<not> length p \<le> buf_size - length (wbuf b)" "wbuf b \<noteq> []" by blast
  then show ?case
  proof cases
    case fits
    with 1(3,4) show ?thesis by (simp add: bw_write.simps [of p b f])
  next
    case direct
    with 1(1) [OF 1(4) direct] file_write_no_faults [OF 1(3), of p] 1(4) show ?thesis
      by (simp add: bw_write.simps [of p b f])
  next
    case fill
    let ?b1 = "b\<lparr>wbuf := wbuf b @ take (buf_size - length (wbuf b)) p\<rparr>"
    have fl: "fst (bw_flush ?b1 f) = None \<and> no_faults (snd (snd (bw_flush ?b1 f)))"
      using bw_flush_no_faults [OF 1(3)] 1(4) by simp
    have "werr (fst (snd (bw_flush ?b1 f))) = None"
      using fl by (auto simp: bw_flush_def Let_def split: option.splits if_splits)
    with 1(2) [OF 1(4) fill refl refl] fl 1(4) fill show ?thesis
      by (simp add: bw_write.simps [of p b f] Let_def)
  qed
qed

lemma read_limit_bw_write [simp]: "read_limit (snd (snd (bw_write p b f))) = read_limit f"
proof (induction p b f rule: bw_write.induct)
  case (1 p b f)
  then show ?case
    by (auto simp: bw_write.simps [of p b f] Let_def split: option.splits)
qed

section \<open>Frames\<close>

definition frame :: "bytes \<Rightarrow> bytes" where
  "frame b = put_uint32 (word_of_nat (length b)) @ b"

definition small :: "bytes \<Rightarrow> bool" where
  "small b \<longleftrightarrow> length b < 2 ^ 32"

lemma length_frame: "length (frame b) = 4 + length b"
  by (simp add: frame_def bytes_simps)

lemma frame_header: "small b \<Longrightarrow> unat (get_uint32 (take 4 (frame b @ bs))) = length b"
  using get_put_uint32 [of "word_of_nat (length b)" "[]"]
  by (simp add: frame_def bytes_simps small_def unat_of_nat)

lemma drain_loop_frame:
  assumes "small b"
  shows "drain_loop u (frame b @ bs) =
    (case u b of Inl _ \<Rightarrow> drain_loop u bs | Inr r \<Rightarrow> r # drain_loop u bs)"
proof -
  have d: "drop 4 (frame b @ bs) = b @ bs"
    by (simp add: frame_def put_uint32_def)
  moreover have "take (length b) (b @ bs) = b" "drop (length b) (b @ bs) = bs" by simp_all
  moreover have "\<not> length (frame b @ bs) < 4" by (simp add: length_frame)
  ultimately show ?thesis
    using frame_header [OF assms, of bs]
    by (subst drain_loop.simps) (cases "u b"; simp add: Let_def del: drop_append take_append)
qed

lemma drain_loop_short: "length bs < 4 \<Longrightarrow> drain_loop u bs = []"
  by (subst drain_loop.simps) simp

lemma drain_loop_nil [simp]: "drain_loop u [] = []"
  by (simp add: drain_loop_short)

text \<open>The records of a list of encodings, in order, those that do not unmarshal left out.\<close>

definition decode_all :: "(bytes \<Rightarrow> goerror + reading) \<Rightarrow> bytes list \<Rightarrow> reading list" where
  "decode_all u bs = concat (map (\<lambda>b. case u b of Inl _ \<Rightarrow> [] | Inr r \<Rightarrow> [r]) bs)"

lemma drain_loop_frames:
  "list_all small bs \<Longrightarrow>
     drain_loop u (concat (map frame bs) @ rest) = decode_all u bs @ drain_loop u rest"
  by (induction bs) (auto simp: decode_all_def drain_loop_frame split: sum.splits)

lemma drain_loop_torn:
  assumes "small b" and "k < length (frame b)"
  shows "drain_loop u (take k (frame b)) = []"
proof (cases "k < 4")
  case True
  then show ?thesis by (intro drain_loop_short) simp
next
  case False
  then have "take 4 (take k (frame b)) = take 4 (frame b)" by (simp add: min_def)
  then have "unat (get_uint32 (take 4 (take k (frame b)))) = length b"
    using frame_header [OF assms(1), of "[]"] by simp
  moreover have "length (drop 4 (take k (frame b))) < length b" "\<not> length (take k (frame b)) < 4"
    using assms(2) False by (simp_all add: length_frame)
  ultimately show ?thesis
    by (subst drain_loop.simps) (simp add: Let_def del: take_take)
qed

section \<open>Lemmas on the spool\<close>

text \<open>Between calls, as long as no write failed: empty writer, offset at the end of the file.\<close>

definition spool_clean :: "spool \<Rightarrow> bool" where
  "spool_clean s \<longleftrightarrow> spool_w s = new_bufw \<and> at_end (spool_file s)"

lemma new_bufw_simps [simp]: "wbuf new_bufw = []" "werr new_bufw = None"
  by (simp_all add: new_bufw_def)

lemma spool_write_None:
  assumes "spool_write m r s = (None, s')" and "spool_clean s"
  shows "\<exists>b. m r = Inr b \<and> spool_clean s' \<and>
    content (spool_file s') = content (spool_file s) @ frame b \<and>
    read_limit (spool_file s') = read_limit (spool_file s)"
proof -
  obtain b where b: "m r = Inr b" using assms(1) by (auto simp: spool_write_def split: sum.splits)
  let ?h = "put_uint32 (word_of_nat (length b))"
  obtain w1 f1 where 1: "bw_write ?h (spool_w s) (spool_file s) = (None, w1, f1)"
    using assms(1) b by (auto simp: spool_write_def split: prod.splits option.splits)
  obtain w2 f2 where 2: "bw_write b w1 f1 = (None, w2, f2)"
    using assms(1) b 1 by (auto simp: spool_write_def split: prod.splits option.splits)
  obtain w3 f3 where 3: "bw_flush w2 f2 = (None, w3, f3)" and s': "s' = \<lparr>spool_file = f3, spool_w = w3\<rparr>"
    using assms(1) b 1 2 by (auto simp: spool_write_def split: prod.splits option.splits)
  have "spool_w s = new_bufw" "at_end (spool_file s)" using assms(2) by (auto simp: spool_clean_def)
  with bw_write_None [OF 1] have a1: "at_end f1"
      "content f1 @ wbuf w1 = content (spool_file s) @ ?h" by auto
  with bw_write_None [OF 2] have a2: "at_end f2"
      "content f2 @ wbuf w2 = content (spool_file s) @ frame b" by (auto simp: frame_def)
  from bw_flush_None [OF 3 a2(1)] a2 have "w3 = new_bufw" "at_end f3"
      "content f3 = content (spool_file s) @ frame b" by auto
  moreover have "read_limit f3 = read_limit (spool_file s)"
    using read_limit_bw_write [of ?h "spool_w s" "spool_file s"] read_limit_bw_write [of b w1 f1]
      read_limit_bw_flush [of w2 f2] 1 2 3 by simp
  ultimately show ?thesis using b s' by (simp add: spool_clean_def)
qed

lemma spool_write_no_faults:
  assumes "no_faults (spool_file s)" and "spool_clean s" and "m r = Inr b"
  shows "fst (spool_write m r s) = None \<and> no_faults (spool_file (snd (spool_write m r s)))"
proof -
  let ?h = "put_uint32 (word_of_nat (length b))"
  have w: "werr (spool_w s) = None" using assms(2) by (simp add: spool_clean_def)
  obtain w1 f1 where 1: "bw_write ?h (spool_w s) (spool_file s) = (None, w1, f1)" and n1: "no_faults f1"
    using bw_write_no_faults [OF assms(1) w, of ?h] by (metis prod.collapse)
  have e1: "werr w1 = None"
    using bw_write_None [OF 1] assms(2) by (simp add: spool_clean_def)
  obtain w2 f2 where 2: "bw_write b w1 f1 = (None, w2, f2)" and n2: "no_faults f2"
    using bw_write_no_faults [OF n1 e1, of b] by (metis prod.collapse)
  have e2: "werr w2 = None"
    using bw_write_None [OF 2] bw_write_None [OF 1] assms(2) by (simp add: spool_clean_def)
  show ?thesis
    using bw_flush_no_faults [OF n2 e2] 1 2 assms(3)
    by (simp add: spool_write_def case_prod_unfold)
qed

text \<open>A failed write leaves its error in the writer, unless the reading did not marshal.\<close>

lemma spool_write_error:
  assumes "spool_write m r s = (Some e, s')" and "m r = Inr b"
  shows "werr (spool_w s') = Some e"
proof -
  let ?h = "put_uint32 (word_of_nat (length b))"
  obtain e1 w1 f1 where 1: "bw_write ?h (spool_w s) (spool_file s) = (e1, w1, f1)"
    by (metis prod.collapse)
  show ?thesis
  proof (cases e1)
    case (Some x)
    with 1 assms show ?thesis by (auto simp: spool_write_def dest: bw_write_error)
  next
    case None
    obtain e2 w2 f2 where 2: "bw_write b w1 f1 = (e2, w2, f2)" by (metis prod.collapse)
    show ?thesis
    proof (cases e2)
      case (Some x)
      with 1 2 None assms show ?thesis by (auto simp: spool_write_def dest: bw_write_error)
    next
      case None': None
      with 1 2 None assms show ?thesis
        by (auto simp: spool_write_def split: prod.splits dest: bw_flush_error)
    qed
  qed
qed

lemma bw_stuck: "werr b = Some e \<Longrightarrow> bw_write p b f = (Some e, b, f)"
  "werr b = Some e \<Longrightarrow> bw_flush b f = (Some e, b, f)"
  by (simp_all add: bw_write.simps bw_flush_def)

text \<open>What a drain that returns its records has done.\<close>

lemma spool_drain_Inr:
  assumes "spool_drain u s = (Inr out, s')" and "spool_clean s"
  shows "out = drain_loop u (readable (spool_file s)) \<and> content (spool_file s') = [] \<and>
    spool_clean s' \<and> read_limit (spool_file s') = read_limit (spool_file s)"
proof -
  have fl: "bw_flush (spool_w s) (spool_file s) = (None, spool_w s, spool_file s)"
    using assms(2) by (simp add: spool_clean_def bw_flush_def)
  have r: "readable ((used f)\<lparr>offset := n\<rparr>) = readable f" for f n
    by (cases "read_limit f") (simp_all add: readable_def)
  from assms(1) fl show ?thesis
    by (auto simp: spool_drain_def file_seek_def file_truncate_def Let_def r
        spool_clean_def at_end_def split: option.splits)
qed

lemma spool_drain_no_faults:
  assumes "no_faults (spool_file s)" and "spool_clean s"
  shows "\<exists>out. fst (spool_drain u s) = Inr out \<and> no_faults (spool_file (snd (spool_drain u s)))"
proof -
  have "bw_flush (spool_w s) (spool_file s) = (None, spool_w s, spool_file s)"
    using assms(2) by (simp add: spool_clean_def bw_flush_def)
  with assms(1) show ?thesis
    by (simp add: spool_drain_def file_seek_def file_truncate_def Let_def no_faults_simps)
qed

text \<open>A sequence of writes, with the error each returned.\<close>

fun spool_writes :: "(reading \<Rightarrow> goerror + bytes) \<Rightarrow> reading list \<Rightarrow> spool \<Rightarrow> goerror option list \<times> spool" where
  "spool_writes m [] s = ([], s)"
| "spool_writes m (r # rs) s =
     (let a = spool_write m r s; b = spool_writes m rs (snd a) in (fst a # fst b, snd b))"

text \<open>The encodings a marshaller gives, and that every one of them has a 32-bit length.\<close>

definition encodings :: "(reading \<Rightarrow> goerror + bytes) \<Rightarrow> reading list \<Rightarrow> bytes list" where
  "encodings m rs = map (\<lambda>r. case m r of Inl _ \<Rightarrow> [] | Inr b \<Rightarrow> b) rs"

definition marshals :: "(reading \<Rightarrow> goerror + bytes) \<Rightarrow> reading list \<Rightarrow> bool" where
  "marshals m rs \<longleftrightarrow> list_all (\<lambda>r. case m r of Inl _ \<Rightarrow> False | Inr b \<Rightarrow> small b) rs"

lemma spool_writes_None:
  assumes "spool_writes m rs s = (es, s')" and "list_all (\<lambda>e. e = None) es" and "spool_clean s"
  shows "list_all (\<lambda>r. \<exists>b. m r = Inr b) rs \<and> spool_clean s' \<and>
    content (spool_file s') = content (spool_file s) @ concat (map frame (encodings m rs)) \<and>
    read_limit (spool_file s') = read_limit (spool_file s)"
  using assms
proof (induction rs arbitrary: s es)
  case Nil
  then show ?case by (simp add: encodings_def)
next
  case (Cons r rs)
  obtain s1 where w: "spool_write m r s = (None, s1)"
    using Cons.prems(1,2) by (cases "spool_write m r s") (auto simp: Let_def)
  from spool_write_None [OF w Cons.prems(3)] obtain b where b: "m r = Inr b" "spool_clean s1"
    "content (spool_file s1) = content (spool_file s) @ frame b"
    "read_limit (spool_file s1) = read_limit (spool_file s)" by blast
  have "spool_writes m rs s1 = (tl es, s')" "list_all (\<lambda>e. e = None) (tl es)"
    using Cons.prems(1,2) w by (auto simp: Let_def)
  from Cons.IH [OF this b(2)] b show ?case by (simp add: encodings_def)
qed

lemma decode_encodings:
  assumes "codec_ok m u" and "list_all (\<lambda>r. \<exists>b. m r = Inr b) rs"
  shows "decode_all u (encodings m rs) = rs"
  using assms(2)
  by (induction rs) (auto simp: decode_all_def encodings_def codec_okD [OF assms(1)])

lemma spool_writes_no_faults:
  assumes "no_faults (spool_file s)" and "spool_clean s" and "marshals m rs"
  shows "list_all (\<lambda>e. e = None) (fst (spool_writes m rs s)) \<and>
    no_faults (spool_file (snd (spool_writes m rs s)))"
  using assms
proof (induction rs arbitrary: s)
  case (Cons r rs)
  obtain b where b: "m r = Inr b" and rs: "marshals m rs"
    using Cons.prems(3) by (auto simp: marshals_def split: sum.splits)
  from spool_write_no_faults [of s m r b, OF Cons.prems(1,2) b]
  obtain s1 where w: "spool_write m r s = (None, s1)" "no_faults (spool_file s1)"
    by (metis prod.collapse)
  with spool_write_None [OF w(1) Cons.prems(2)] Cons.IH [OF _ _ rs, of s1] show ?case
    by (auto simp: Let_def)
qed simp

lemma spool_returns:
  assumes "no_faults (spool_file s)" and "spool_clean s" and "marshals m rs"
  shows "list_all (\<lambda>e. e = None) (fst (spool_writes m rs s)) \<and>
    (\<exists>out. spool_drain u (snd (spool_writes m rs s)) =
       (Inr out, snd (spool_drain u (snd (spool_writes m rs s)))))"
proof -
  let ?s1 = "snd (spool_writes m rs s)"
  have w: "list_all (\<lambda>e. e = None) (fst (spool_writes m rs s))" "no_faults (spool_file ?s1)"
    using spool_writes_no_faults [OF assms] by blast+
  have "spool_writes m rs s = (fst (spool_writes m rs s), ?s1)" by simp
  from spool_writes_None [OF this w(1) assms(2)] have "spool_clean ?s1" by blast
  from spool_drain_no_faults [OF w(2) this, of u] obtain out
    where "fst (spool_drain u ?s1) = Inr out" by blast
  then have "spool_drain u ?s1 = (Inr out, snd (spool_drain u ?s1))" by (simp add: prod_eq_iff)
  with w(1) show ?thesis by blast
qed

lemma small_encodings: "marshals m rs \<Longrightarrow> list_all small (encodings m rs)"
  by (induction rs) (auto simp: marshals_def encodings_def split: sum.splits)

section \<open>Properties\<close>

text \<open>A small concrete codec and an empty healthy spool, for the witnesses.\<close>

definition demo_reading :: "uint64 \<Rightarrow> reading" where
  "demo_reading i = \<lparr>device_id = ''d1'', sequence = i, timestamp_ms = 0, reading_value = 0\<rparr>"

definition demo_table :: "(reading \<times> bytes) list" where
  "demo_table = [(demo_reading 1, [1, 2, 3]), (demo_reading 2, [4]),
     (demo_reading 3, [1, 2, 3, 4, 5, 6, 7, 8, 9, 10])]"

definition demo_file :: "bytes \<Rightarrow> (nat \<times> goerror) option list \<Rightarrow> os_file" where
  "demo_file c sc =
     \<lparr>content = c, offset = length c, file_open = True, script = sc, read_limit = None\<rparr>"

definition demo_spool :: "bytes \<Rightarrow> (nat \<times> goerror) option list \<Rightarrow> spool" where
  "demo_spool c sc = \<lparr>spool_file = demo_file c sc, spool_w = new_bufw\<rparr>"

lemma demo_codec: "codec_ok (table_marshal demo_table) (table_unmarshal demo_table)"
  by (rule codec_ok_table) (simp add: demo_table_def)

text \<open>
  C9. Nothing spooled is lost or reordered: whatever faults strike, if a sequence of writes all
  returned nil and the drain after them returned its records, these are the records the file held
  before, followed by exactly the readings written, in order, and the file is empty again.
\<close>

theorem spool_fifo:
  assumes "codec_ok m u" and "marshals m rs"
    and "spool_clean s" and "read_limit (spool_file s) = None"
    and "content (spool_file s) = concat (map frame bs)" and "list_all small bs"
    and "list_all (\<lambda>e. e = None) (fst (spool_writes m rs s))"
    and "spool_drain u (snd (spool_writes m rs s)) = (Inr out, s2)"
  shows "out = decode_all u bs @ rs \<and> content (spool_file s2) = [] \<and> spool_clean s2"
proof -
  let ?s1 = "snd (spool_writes m rs s)"
  have w: "list_all (\<lambda>r. \<exists>b. m r = Inr b) rs" "spool_clean ?s1"
    "content (spool_file ?s1) = concat (map frame (bs @ encodings m rs))"
    "read_limit (spool_file ?s1) = None"
    using spool_writes_None [of m rs s "fst (spool_writes m rs s)" ?s1] assms by auto
  from spool_drain_Inr [OF assms(8) w(2)]
  have out: "out = drain_loop u (content (spool_file ?s1))"
    and rest: "content (spool_file s2) = []" "spool_clean s2"
    using w(4) by (auto simp: readable_def)
  have "list_all small (bs @ encodings m rs)" using assms(2,6) by (simp add: small_encodings)
  from drain_loop_frames [OF this, of u "[]"] have "out = decode_all u (bs @ encodings m rs)"
    using out w(3) by simp
  also have "\<dots> = decode_all u bs @ rs"
    using decode_encodings [OF assms(1) w(1)] by (simp add: decode_all_def)
  finally show ?thesis using rest by simp
qed

theorem spool_fifo_witness:
  "fst (spool_drain (table_unmarshal demo_table) (snd (spool_writes (table_marshal demo_table)
     [demo_reading 2, demo_reading 1] (demo_spool (frame [1, 2, 3]) []))))
   = Inr [demo_reading 1, demo_reading 2, demo_reading 1]"
proof -
  let ?m = "table_marshal demo_table" and ?u = "table_unmarshal demo_table"
  let ?rs = "[demo_reading 2, demo_reading 1]" and ?s = "demo_spool (frame [1, 2, 3]) []"
  have m: "marshals ?m ?rs"
    by (simp add: marshals_def table_marshal_def demo_table_def demo_reading_def small_def)
  have c: "spool_clean ?s" by code_simp
  have n: "no_faults (spool_file ?s)" by code_simp
  obtain out where w: "list_all (\<lambda>e. e = None) (fst (spool_writes ?m ?rs ?s))"
    and out: "spool_drain ?u (snd (spool_writes ?m ?rs ?s))
      = (Inr out, snd (spool_drain ?u (snd (spool_writes ?m ?rs ?s))))"
    using spool_returns [OF n c m] by blast
  have d: "decode_all ?u [[1, 2, 3]] = [demo_reading 1]" by code_simp
  have f: "read_limit (spool_file ?s) = None"
      "content (spool_file ?s) = concat (map frame [[1, 2, 3]])" "list_all small [[1, 2, 3 :: byte]]"
    by (simp_all add: demo_spool_def demo_file_def small_def)
  have "out = [demo_reading 1, demo_reading 2, demo_reading 1]"
    using spool_fifo [OF demo_codec m c f w out] d by simp
  then show ?thesis by (subst out) simp
qed

text \<open>
  C37. When the system raises no fault, every write returns nil and the drain returns: nothing in the
  spool loops or fails of its own.
\<close>

theorem spool_total:
  assumes "no_faults (spool_file s)" and "spool_clean s" and "marshals m rs"
  shows "list_all (\<lambda>e. e = None) (fst (spool_writes m rs s)) \<and>
    (\<exists>out s2. spool_drain u (snd (spool_writes m rs s)) = (Inr out, s2))"
  using spool_returns [OF assms, of u] by blast

theorem spool_total_witness:
  "\<exists>out s2. spool_drain (table_unmarshal demo_table) (snd (spool_writes (table_marshal demo_table)
     [demo_reading 1] (demo_spool [] []))) = (Inr out, s2)"
proof -
  have m: "marshals (table_marshal demo_table) [demo_reading 1]"
    by (simp add: marshals_def table_marshal_def demo_table_def demo_reading_def small_def)
  have c: "spool_clean (demo_spool [] [])" by code_simp
  have n: "no_faults (spool_file (demo_spool [] []))" by code_simp
  show ?thesis using spool_total [OF n c m] by blast
qed

text \<open>
  C35. One failed disk write disables the spool for good: bufio.Writer keeps the error, so every later
  write, drain and size request of the same Spool returns that error and changes nothing, even if
  the disk accepts writes again; what the file holds cannot be drained any more.
\<close>

theorem spool_poisoned:
  assumes "spool_write m r s = (Some e, s')" and "m r = Inr b" and "m r2 = Inr b2"
  shows "spool_write m r2 s' = (Some e, s') \<and> spool_drain u s' = (Inl e, s') \<and>
    spool_size_bytes s' = (Inl e, s')"
  using spool_write_error [OF assms(1,2)] assms(3)
  by (simp add: spool_write_def spool_drain_def spool_size_bytes_def bw_stuck)

definition err_nospace :: goerror where
  "err_nospace = Errno ''no space left on device''"

theorem spool_poisoned_witness:
  "\<exists>s'. spool_write (table_marshal demo_table) (demo_reading 1)
          (demo_spool (frame [4]) [Some (5, err_nospace)]) = (Some err_nospace, s') \<and>
    spool_drain (table_unmarshal demo_table) s' = (Inl err_nospace, s') \<and>
    script (spool_file s') = []"
proof -
  let ?m = "table_marshal demo_table"
  let ?s = "demo_spool (frame [4]) [Some (5, err_nospace)]"
  have w: "spool_write ?m (demo_reading 1) ?s = (Some err_nospace, snd (spool_write ?m (demo_reading 1) ?s))"
    by code_simp
  have b: "?m (demo_reading 1) = Inr [1, 2, 3]" by code_simp
  have "script (spool_file (snd (spool_write ?m (demo_reading 1) ?s))) = []" by code_simp
  with spool_poisoned [OF w b b, of "table_unmarshal demo_table"] w show ?thesis by blast
qed

text \<open>
  A short trailing write is harmless to what stands before it: if the file ends in a proper prefix
  of a record, a drain returns exactly the complete records before it.
\<close>

theorem drain_ignores_torn_tail:
  assumes "list_all small bs" and "small b" and "k < length (frame b)"
    and "spool_clean s" and "read_limit (spool_file s) = None"
    and "content (spool_file s) = concat (map frame bs) @ take k (frame b)"
    and "spool_drain u s = (Inr out, s2)"
  shows "out = decode_all u bs \<and> content (spool_file s2) = []"
  using spool_drain_Inr [OF assms(7,4)] drain_loop_frames [OF assms(1), of u "take k (frame b)"]
    drain_loop_torn [OF assms(2,3), of u] assms(5,6)
  by (simp add: readable_def)

theorem drain_ignores_torn_tail_witness:
  "fst (spool_drain (table_unmarshal demo_table)
     (demo_spool (frame [1, 2, 3] @ take 5 (frame [1, 2, 3])) [])) = Inr [demo_reading 1]"
proof -
  let ?u = "table_unmarshal demo_table"
  let ?s = "demo_spool (frame [1, 2, 3] @ take 5 (frame [1, 2, 3])) []"
  have c: "spool_clean ?s" by code_simp
  have n: "no_faults (spool_file ?s)" by code_simp
  obtain out s2 where out: "spool_drain ?u ?s = (Inr out, s2)"
    using spool_total [OF n c, of _ "[]" ?u] by (auto simp: marshals_def)
  have h: "list_all small [[1, 2, 3 :: byte]]" "small [1, 2, 3 :: byte]"
      "5 < length (frame [1, 2, 3])" "read_limit (spool_file ?s) = None"
      "content (spool_file ?s) = concat (map frame [[1, 2, 3]]) @ take 5 (frame [1, 2, 3])"
    by (simp_all add: small_def length_frame demo_spool_def demo_file_def)
  have d: "decode_all ?u [[1, 2, 3]] = [demo_reading 1]" by code_simp
  from drain_ignores_torn_tail [OF h(1,2,3) c h(4,5) out] out d show ?thesis by simp
qed

text \<open>
  C36. A torn tail is not harmless to what is written after it: NewSpool appends behind it without
  cutting it off, so when the process restarts over a file that ends in a record cut after its
  length field, readings written next are read as the missing bytes of that record. As long as
  they do not fill it, every write returns nil, the next drain returns no reading at all, and the
  file is truncated: they are lost without any error.
\<close>

theorem torn_tail_swallows:
  assumes "small b" and "4 \<le> k"
    and "new_spool None f = Inr s" and "content f = take k (frame b)" and "read_limit f = None"
    and "list_all (\<lambda>e. e = None) (fst (spool_writes m rs s))"
    and "k + length (concat (map frame (encodings m rs))) < length (frame b)"
    and "spool_drain u (snd (spool_writes m rs s)) = (Inr out, s2)"
  shows "out = [] \<and> content (spool_file s2) = []"
proof -
  let ?new = "concat (map frame (encodings m rs))"
  let ?s1 = "snd (spool_writes m rs s)"
  have s: "spool_clean s" "content (spool_file s) = take k (frame b)"
    "read_limit (spool_file s) = None"
    using assms(3,4,5)
    by (auto simp: new_spool_def file_seek_def spool_clean_def at_end_def split: option.splits)
  have w: "spool_clean ?s1" "content (spool_file ?s1) = take k (frame b) @ ?new"
    "read_limit (spool_file ?s1) = None"
    using spool_writes_None [of m rs s "fst (spool_writes m rs s)" ?s1] s assms(6) by auto
  have hdr: "take 4 (take k (frame b) @ ?new) = take 4 (frame b)"
    using assms(2,7) by (simp add: length_frame min_def)
  have len: "length (take k (frame b) @ ?new) < length (frame b)"
    "\<not> length (take k (frame b) @ ?new) < 4"
    using assms(2,7) by (auto simp: length_frame)
  have "unat (get_uint32 (take 4 (take k (frame b) @ ?new))) = length b"
    using frame_header [OF assms(1), of "[]"] by (subst hdr) simp
  with len have "drain_loop u (take k (frame b) @ ?new) = []"
    by (subst drain_loop.simps) (auto simp: Let_def length_frame simp del: take_append drop_append)
  with spool_drain_Inr [OF assms(8) w(1)] w(2,3) show ?thesis by (simp add: readable_def)
qed

theorem torn_tail_swallows_witness:
  "\<exists>s. new_spool None (demo_file (take 4 (frame [1, 2, 3, 4, 5, 6, 7, 8, 9, 10])) []) = Inr s \<and>
    fst (spool_drain (table_unmarshal demo_table)
      (snd (spool_writes (table_marshal demo_table) [demo_reading 2] s))) = Inr []"
proof -
  let ?b = "[1, 2, 3, 4, 5, 6, 7, 8, 9, 10] :: bytes"
  let ?m = "table_marshal demo_table" and ?u = "table_unmarshal demo_table"
  let ?f = "demo_file (take 4 (frame ?b)) []"
  let ?s = "\<lparr>spool_file = ?f, spool_w = new_bufw\<rparr>"
  have s: "new_spool None ?f = Inr ?s" by code_simp
  have c: "spool_clean ?s" and n: "no_faults (spool_file ?s)" by code_simp+
  have m: "marshals ?m [demo_reading 2]"
    by (simp add: marshals_def table_marshal_def demo_table_def demo_reading_def small_def)
  obtain out where w: "list_all (\<lambda>e. e = None) (fst (spool_writes ?m [demo_reading 2] ?s))"
    and out: "spool_drain ?u (snd (spool_writes ?m [demo_reading 2] ?s))
      = (Inr out, snd (spool_drain ?u (snd (spool_writes ?m [demo_reading 2] ?s))))"
    using spool_returns [OF n c m] by blast
  have k: "4 + length (concat (map frame (encodings ?m [demo_reading 2]))) < length (frame ?b)"
    by code_simp
  have "small ?b" "content ?f = take 4 (frame ?b)" "read_limit ?f = None"
    by (simp_all add: small_def demo_file_def)
  from torn_tail_swallows [OF this(1) _ s this(2,3) w k out] have "out = []" by simp
  with out s show ?thesis by (metis fst_conv)
qed

text \<open>
  A read error is taken for the end of the file: if reading fails inside the first record, the
  drain returns no reading and no error, and then truncates the file with everything in it.
\<close>

theorem read_error_discards:
  assumes "spool_clean s" and "small b" and "k < length (frame b)"
    and "read_limit (spool_file s) = Some k" and "content (spool_file s) = frame b @ rest"
    and "spool_drain u s = (Inr out, s2)"
  shows "out = [] \<and> content (spool_file s2) = []"
  using spool_drain_Inr [OF assms(6,1)] drain_loop_torn [OF assms(2,3), of u] assms(3,4,5)
  by (simp add: readable_def)

theorem read_error_discards_witness:
  "\<exists>s2. spool_drain (table_unmarshal demo_table)
     \<lparr>spool_file = (demo_file (frame [1, 2, 3] @ frame [4]) [])\<lparr>read_limit := Some 2\<rparr>,
       spool_w = new_bufw\<rparr> = (Inr [], s2) \<and> content (spool_file s2) = []"
proof -
  let ?s = "\<lparr>spool_file = (demo_file (frame [1, 2, 3] @ frame [4]) [])\<lparr>read_limit := Some 2\<rparr>,
       spool_w = new_bufw\<rparr>"
  have c: "spool_clean ?s" and n: "no_faults (spool_file ?s)" by code_simp+
  obtain out s2 where out: "spool_drain (table_unmarshal demo_table) ?s = (Inr out, s2)"
    using spool_total [OF n c, of _ "[]" "table_unmarshal demo_table"] by (auto simp: marshals_def)
  have "small [1, 2, 3 :: byte]" "2 < length (frame [1, 2, 3])"
      "read_limit (spool_file ?s) = Some 2" "content (spool_file ?s) = frame [1, 2, 3] @ frame [4]"
    by (simp_all add: small_def length_frame demo_file_def)
  from read_error_discards [OF c this out] out show ?thesis by simp
qed

end
