(* ===== verification/Telemetry_Pipeline.thy ===== *)
theory Telemetry_Pipeline
  imports Telemetry_Dedup Spool
begin

text \<open>
  internal/ingest/pipeline.go and ReferenceDedup of internal/ingest/reference.go: the ingest path
  (dedup, produce, spill to disk), the drainer, and the independent deduplication both are compared
  with. Ingest and drainOnce are modelled twice: as functions on the state, for one call at a time,
  and as a step relation in which Ingest calls and drain goroutines interleave freely at their calls
  to the producer and to the spool.
\<close>

section \<open>Sequential model\<close>

text \<open>
  The Producer interface: a call returns an error or nil and changes the state behind it. The
  200 ms deadline of the context is one of the reasons for an error.
\<close>

type_synonym 'k producer = "reading \<Rightarrow> 'k \<Rightarrow> goerror option \<times> 'k"

record 'k pipeline =
  pl_dedup :: dedup
  pl_spool :: spool
  pl_producer :: 'k

definition new_pipeline :: "dedup \<Rightarrow> spool \<Rightarrow> 'k \<Rightarrow> 'k pipeline" where
  "new_pipeline d s k = \<lparr>pl_dedup = d, pl_spool = s, pl_producer = k\<rparr>"

definition ingest ::
  "(reading \<Rightarrow> goerror + bytes) \<Rightarrow> 'k producer \<Rightarrow> reading \<Rightarrow> 'k pipeline \<Rightarrow> goerror option \<times> 'k pipeline"
where
  "ingest marshal produce r p =
     (case admit (device_id r) (sequence r) (pl_dedup p) of
        (False, d) \<Rightarrow> (None, p\<lparr>pl_dedup := d\<rparr>)
      | (True, d) \<Rightarrow>
          (case produce r (pl_producer p) of
             (None, k) \<Rightarrow> (None, p\<lparr>pl_dedup := d, pl_producer := k\<rparr>)
           | (Some err, k) \<Rightarrow>
               (case spool_write marshal r (pl_spool p) of
                  (spool_err, s) \<Rightarrow>
                    (spool_err, p\<lparr>pl_dedup := d, pl_producer := k, pl_spool := s\<rparr>))))"

text \<open>drainOnce with its goroutines run one after the other; a failed re-spool is only logged.\<close>

fun retry_all ::
  "(reading \<Rightarrow> goerror + bytes) \<Rightarrow> 'k producer \<Rightarrow> reading list \<Rightarrow> 'k pipeline \<Rightarrow> 'k pipeline"
where
  "retry_all marshal produce [] p = p"
| "retry_all marshal produce (r # rs) p =
     (case produce r (pl_producer p) of
        (None, k) \<Rightarrow> retry_all marshal produce rs (p\<lparr>pl_producer := k\<rparr>)
      | (Some err, k) \<Rightarrow>
          retry_all marshal produce rs
            (p\<lparr>pl_producer := k, pl_spool := snd (spool_write marshal r (pl_spool p))\<rparr>))"

definition drain_once ::
  "(reading \<Rightarrow> goerror + bytes) \<Rightarrow> (bytes \<Rightarrow> goerror + reading) \<Rightarrow> 'k producer \<Rightarrow> 'k pipeline \<Rightarrow> 'k pipeline"
where
  "drain_once marshal unmarshal produce p =
     (case spool_drain unmarshal (pl_spool p) of
        (Inl e, s) \<Rightarrow> p\<lparr>pl_spool := s\<rparr>
      | (Inr records, s) \<Rightarrow> retry_all marshal produce records (p\<lparr>pl_spool := s\<rparr>))"

text \<open>RunDrainer: one drain for every tick until the context is cancelled.\<close>

datatype drainer_event = Tick | Cancelled

fun run_drainer ::
  "(reading \<Rightarrow> goerror + bytes) \<Rightarrow> (bytes \<Rightarrow> goerror + reading) \<Rightarrow> 'k producer \<Rightarrow>
   drainer_event list \<Rightarrow> 'k pipeline \<Rightarrow> 'k pipeline"
where
  "run_drainer marshal unmarshal produce [] p = p"
| "run_drainer marshal unmarshal produce (Cancelled # es) p = p"
| "run_drainer marshal unmarshal produce (Tick # es) p =
     run_drainer marshal unmarshal produce es (drain_once marshal unmarshal produce p)"

section \<open>ReferenceDedup\<close>

definition reading_key :: "reading \<Rightarrow> string \<times> uint64" where
  "reading_key r = (device_id r, sequence r)"

fun reference_loop :: "(string \<times> uint64) set \<Rightarrow> reading list \<Rightarrow> reading list \<Rightarrow> reading list" where
  "reference_loop seen_keys out [] = out"
| "reference_loop seen_keys out (r # rs) =
     (if reading_key r \<in> seen_keys then reference_loop seen_keys out rs
      else reference_loop (insert (reading_key r) seen_keys) (out @ [r]) rs)"

definition reference_dedup :: "reading list \<Rightarrow> reading list" where
  "reference_dedup delivered = reference_loop {} [] delivered"

lemma reference_loop_first_occ:
  "reference_loop seen_keys out rs = out @ first_occ reading_key seen_keys rs"
  by (induction rs arbitrary: seen_keys out) auto

lemma reference_dedup_first_occ: "reference_dedup rs = first_occ reading_key {} rs"
  by (simp add: reference_dedup_def reference_loop_first_occ)

section \<open>The contracts of the parts\<close>

text \<open>
  A queue the pipeline may spill to: a write that succeeds appends, a drain returns and removes
  everything. The spool keeps this contract while the operating system raises no fault.
\<close>

locale overflow_queue =
  fixes store :: "'m \<Rightarrow> 's \<Rightarrow> goerror option \<times> 's"
    and drain :: "'s \<Rightarrow> (goerror + 'm list) \<times> 's"
    and stored :: "'s \<Rightarrow> 'm list"
    and ok :: "'s \<Rightarrow> bool"
    and storable :: "'m \<Rightarrow> bool"
  assumes store_appends: "ok s \<Longrightarrow> storable r \<Longrightarrow>
      fst (store r s) = None \<and> ok (snd (store r s)) \<and> stored (snd (store r s)) = stored s @ [r]"
    and drain_returns: "ok s \<Longrightarrow>
      fst (drain s) = Inr (stored s) \<and> ok (snd (drain s)) \<and> stored (snd (drain s)) = []"

definition stored_readings :: "(bytes \<Rightarrow> goerror + reading) \<Rightarrow> spool \<Rightarrow> reading list" where
  "stored_readings u s = drain_loop u (content (spool_file s))"

definition spool_healthy ::
  "(reading \<Rightarrow> goerror + bytes) \<Rightarrow> (bytes \<Rightarrow> goerror + reading) \<Rightarrow> spool \<Rightarrow> bool"
where
  "spool_healthy m u s \<longleftrightarrow> codec_ok m u \<and> no_faults (spool_file s) \<and> spool_clean s \<and>
     read_limit (spool_file s) = None \<and>
     (\<exists>bs. list_all small bs \<and> content (spool_file s) = concat (map frame bs))"

definition storable_reading :: "(reading \<Rightarrow> goerror + bytes) \<Rightarrow> reading \<Rightarrow> bool" where
  "storable_reading m r \<longleftrightarrow> marshals m [r]"

lemma spool_healthy_empty:
  "codec_ok m u \<Longrightarrow> no_faults (spool_file s) \<Longrightarrow> spool_clean s \<Longrightarrow>
     read_limit (spool_file s) = None \<Longrightarrow> content (spool_file s) = [] \<Longrightarrow> spool_healthy m u s"
  by (auto simp: spool_healthy_def intro: exI [of _ "[]"])

interpretation sp: overflow_queue "spool_write m" "spool_drain u" "stored_readings u"
  "spool_healthy m u" "storable_reading m" for m u
proof
  fix s r assume h: "spool_healthy m u s" and "storable_reading m r"
  then obtain b where b: "m r = Inr b" "small b"
    by (auto simp: storable_reading_def marshals_def split: sum.splits)
  from h obtain bs where bs: "list_all small bs" "content (spool_file s) = concat (map frame bs)"
    and s: "codec_ok m u" "no_faults (spool_file s)" "spool_clean s" "read_limit (spool_file s) = None"
    by (auto simp: spool_healthy_def)
  from spool_write_no_faults [of s m r b, OF s(2,3) b(1)]
  have n: "fst (spool_write m r s) = None" "no_faults (spool_file (snd (spool_write m r s)))" by auto
  then have "spool_write m r s = (None, snd (spool_write m r s))" by (simp add: prod_eq_iff)
  from spool_write_None [OF this s(3)] b(1)
  have w: "spool_clean (snd (spool_write m r s))"
    "content (spool_file (snd (spool_write m r s))) = concat (map frame (bs @ [b]))"
    "read_limit (spool_file (snd (spool_write m r s))) = None"
    using bs(2) s(4) by auto
  have "list_all small (bs @ [b])" using bs(1) b(2) by simp
  with n w s(1) have "spool_healthy m u (snd (spool_write m r s))"
    unfolding spool_healthy_def by blast
  moreover have "stored_readings u (snd (spool_write m r s)) = stored_readings u s @ [r]"
    using drain_loop_frames [OF \<open>list_all small (bs @ [b])\<close>, of u "[]"]
      drain_loop_frames [OF bs(1), of u "[]"] w(2) bs(2) codec_okD [OF s(1) b(1)]
    by (simp add: stored_readings_def decode_all_def)
  ultimately show "fst (spool_write m r s) = None \<and> spool_healthy m u (snd (spool_write m r s)) \<and>
      stored_readings u (snd (spool_write m r s)) = stored_readings u s @ [r]"
    using n by blast
next
  fix s assume h: "spool_healthy m u s"
  then have s: "codec_ok m u" "no_faults (spool_file s)" "spool_clean s" "read_limit (spool_file s) = None"
    by (auto simp: spool_healthy_def)
  from spool_drain_no_faults [OF s(2,3), of u] obtain out
    where d: "fst (spool_drain u s) = Inr out" "no_faults (spool_file (snd (spool_drain u s)))" by blast
  then have "spool_drain u s = (Inr out, snd (spool_drain u s))" by (simp add: prod_eq_iff)
  from spool_drain_Inr [OF this s(3)] d s
  show "fst (spool_drain u s) = Inr (stored_readings u s) \<and> spool_healthy m u (snd (spool_drain u s)) \<and>
      stored_readings u (snd (spool_drain u s)) = []"
    by (simp add: spool_healthy_empty stored_readings_def readable_def)
qed

text \<open>
  What is relied on of a producer: a call that returns nil has put the reading on the topic; a call
  that returns an error may or may not have (a timeout leaves that open), and no call removes
  anything. An exact producer never lands a reading it reports as failed.
\<close>

definition producer_ok :: "'k producer \<Rightarrow> ('k \<Rightarrow> reading list) \<Rightarrow> bool" where
  "producer_ok produce landed \<longleftrightarrow>
     (\<forall>r k. case produce r k of
        (None, k') \<Rightarrow> mset (landed k') = add_mset r (mset (landed k))
      | (Some e, k') \<Rightarrow> mset (landed k') = mset (landed k) \<or>
                        mset (landed k') = add_mset r (mset (landed k)))"

definition producer_exact :: "'k producer \<Rightarrow> ('k \<Rightarrow> reading list) \<Rightarrow> bool" where
  "producer_exact produce landed \<longleftrightarrow>
     (\<forall>r k. case produce r k of
        (None, k') \<Rightarrow> mset (landed k') = add_mset r (mset (landed k))
      | (Some e, k') \<Rightarrow> mset (landed k') = mset (landed k))"

lemma producer_exactD:
  assumes "producer_exact produce landed" and "produce r k = (e, k')"
  shows "e = None \<Longrightarrow> mset (landed k') = add_mset r (mset (landed k))"
    and "e = Some x \<Longrightarrow> mset (landed k') = mset (landed k)"
  using assms by (force simp: producer_exact_def split: prod.splits option.splits)+

lemma producer_okD:
  assumes "producer_ok produce landed" and "produce r k = (e, k')"
  shows "e = None \<Longrightarrow> mset (landed k') = add_mset r (mset (landed k))"
    and "mset (landed k) \<subseteq># mset (landed k')"
  using assms by (force simp: producer_ok_def split: prod.splits option.splits)+

lemma producer_exact_ok: "producer_exact produce landed \<Longrightarrow> producer_ok produce landed"
  by (fastforce simp: producer_exact_def producer_ok_def split: prod.splits option.splits)

text \<open>A spool opened on an empty file.\<close>

lemma new_spool_empty:
  assumes "codec_ok m u" and "no_faults f" and "read_limit f = None" and "content f = []"
  shows "\<exists>s. new_spool None f = Inr s \<and> spool_healthy m u s \<and> stored_readings u s = []"
  using assms
  by (auto simp: new_spool_def file_seek_def no_faults_simps stored_readings_def spool_clean_def at_end_def
      intro!: spool_healthy_empty)

section \<open>Runs of the sequential pipeline\<close>

datatype pipeline_op = Ingest reading | Drain

fun run_op ::
  "(reading \<Rightarrow> goerror + bytes) \<Rightarrow> (bytes \<Rightarrow> goerror + reading) \<Rightarrow> 'k producer \<Rightarrow>
   pipeline_op \<Rightarrow> 'k pipeline \<Rightarrow> 'k pipeline"
where
  "run_op m u produce (Ingest r) p = snd (ingest m produce r p)"
| "run_op m u produce Drain p = drain_once m u produce p"

definition run_ops ::
  "(reading \<Rightarrow> goerror + bytes) \<Rightarrow> (bytes \<Rightarrow> goerror + reading) \<Rightarrow> 'k producer \<Rightarrow>
   pipeline_op list \<Rightarrow> 'k pipeline \<Rightarrow> 'k pipeline"
where
  "run_ops m u produce ops p = fold (run_op m u produce) ops p"

fun offered :: "pipeline_op list \<Rightarrow> reading list" where
  "offered [] = []"
| "offered (Ingest r # ops) = r # offered ops"
| "offered (Drain # ops) = offered ops"

text \<open>The readings the gateway holds: on the topic or in the spool.\<close>

definition held :: "(bytes \<Rightarrow> goerror + reading) \<Rightarrow> ('k \<Rightarrow> reading list) \<Rightarrow> 'k pipeline \<Rightarrow> reading multiset" where
  "held u landed p = mset (landed (pl_producer p)) + mset (stored_readings u (pl_spool p))"

text \<open>No device sends more than 4096 distinct sequences.\<close>

definition within_window :: "reading list \<Rightarrow> bool" where
  "within_window rs \<longleftrightarrow>
     list_all (\<lambda>r. length (remdups (map sequence (filter (\<lambda>x. device_id x = device_id r) rs)))
                 \<le> max_sequences_per_device) rs"

lemma fits_within_window:
  assumes "within_window rs"
  shows "fits_devices (reading_key ` set rs)"
  unfolding fits_devices_def
proof
  fix dev
  let ?qs = "map sequence (filter (\<lambda>x. device_id x = dev) rs)"
  have eq: "{q. (dev, q) \<in> reading_key ` set rs} = set ?qs"
    by (auto simp: reading_key_def)
  have "card (set ?qs) \<le> max_sequences_per_device"
  proof (cases "filter (\<lambda>x. device_id x = dev) rs")
    case (Cons r xs)
    then have "r \<in> set (filter (\<lambda>x. device_id x = dev) rs)" by simp
    then have "r \<in> set rs" "device_id r = dev" by simp_all
    with assms show ?thesis by (auto simp: within_window_def list_all_iff length_remdups_card_conv)
  qed simp
  then show "finite {q. (dev, q) \<in> reading_key ` set rs} \<and>
      card {q. (dev, q) \<in> reading_key ` set rs} \<le> max_sequences_per_device"
    by (simp add: eq)
qed

lemma admit_reading: "admit (device_id r) (sequence r) d = admit_key (reading_key r) d"
  by (simp add: admit_key_def reading_key_def)

text \<open>
  The spool is healthy and everything in it unmarshals to readings that can be spooled again.
\<close>

definition pipeline_ok ::
  "(reading \<Rightarrow> goerror + bytes) \<Rightarrow> (bytes \<Rightarrow> goerror + reading) \<Rightarrow> 'k pipeline \<Rightarrow> bool"
where
  "pipeline_ok m u p \<longleftrightarrow> spool_healthy m u (pl_spool p) \<and>
     list_all (storable_reading m) (stored_readings u (pl_spool p))"

lemma store_ok:
  assumes "pipeline_ok m u p" and "storable_reading m r" and "spool_write m r (pl_spool p) = (e, s)"
  shows "e = None \<and> pipeline_ok m u (p\<lparr>pl_producer := k, pl_spool := s\<rparr>) \<and>
    pipeline_ok m u (p\<lparr>pl_dedup := d, pl_producer := k, pl_spool := s\<rparr>) \<and>
    stored_readings u s = stored_readings u (pl_spool p) @ [r]"
  using sp.store_appends [of m u "pl_spool p" r] assms by (simp add: pipeline_ok_def)

lemma retry_all_exact:
  assumes "producer_exact produce landed"
  shows "pipeline_ok m u p \<Longrightarrow> list_all (storable_reading m) rs \<Longrightarrow>
    pipeline_ok m u (retry_all m produce rs p) \<and>
    pl_dedup (retry_all m produce rs p) = pl_dedup p \<and>
    held u landed (retry_all m produce rs p) = held u landed p + mset rs"
proof (induction rs arbitrary: p)
  case (Cons r rs)
  obtain e k where k: "produce r (pl_producer p) = (e, k)" by (metis prod.collapse)
  obtain e' s where w: "spool_write m r (pl_spool p) = (e', s)" by (metis prod.collapse)
  have st: "storable_reading m r" "list_all (storable_reading m) rs" using Cons.prems(2) by auto
  show ?case
  proof (cases e)
    case None
    have "pipeline_ok m u (p\<lparr>pl_producer := k\<rparr>)" using Cons.prems(1) by (simp add: pipeline_ok_def)
    from Cons.IH [OF this st(2)] None k producer_exactD [OF assms k]
    show ?thesis by (simp add: held_def)
  next
    case (Some x)
    from store_ok [OF Cons.prems(1) st(1) w, of k]
    have "pipeline_ok m u (p\<lparr>pl_producer := k, pl_spool := s\<rparr>)"
      "stored_readings u s = stored_readings u (pl_spool p) @ [r]" by blast+
    from Cons.IH [OF this(1) st(2)] this(2) Some k w producer_exactD [OF assms k]
    show ?thesis by (simp add: held_def)
  qed
qed simp

text \<open>What drainOnce does with a healthy spool: take everything out, then retry it.\<close>

lemma drain_once_retry:
  assumes "pipeline_ok m u p"
  shows "\<exists>s. drain_once m u produce p
      = retry_all m produce (stored_readings u (pl_spool p)) (p\<lparr>pl_spool := s\<rparr>) \<and>
    pipeline_ok m u (p\<lparr>pl_spool := s\<rparr>) \<and> stored_readings u s = []"
proof -
  let ?s = "snd (spool_drain u (pl_spool p))"
  from sp.drain_returns [of m u "pl_spool p"] assms
  have d: "spool_drain u (pl_spool p) = (Inr (stored_readings u (pl_spool p)), ?s)"
    "spool_healthy m u ?s" "stored_readings u ?s = []"
    by (auto simp: prod_eq_iff pipeline_ok_def)
  have "drain_once m u produce p
      = retry_all m produce (stored_readings u (pl_spool p)) (p\<lparr>pl_spool := ?s\<rparr>)"
    by (subst drain_once_def, subst d(1)) simp
  with d show ?thesis by (auto simp: pipeline_ok_def)
qed

lemma drain_once_exact:
  assumes "producer_exact produce landed" and "pipeline_ok m u p"
  shows "pipeline_ok m u (drain_once m u produce p) \<and>
    pl_dedup (drain_once m u produce p) = pl_dedup p \<and>
    held u landed (drain_once m u produce p) = held u landed p"
proof -
  obtain s where s: "drain_once m u produce p
      = retry_all m produce (stored_readings u (pl_spool p)) (p\<lparr>pl_spool := s\<rparr>)"
    "pipeline_ok m u (p\<lparr>pl_spool := s\<rparr>)" "stored_readings u s = []"
    using drain_once_retry [OF assms(2)] by blast
  with retry_all_exact [OF assms(1) s(2), of "stored_readings u (pl_spool p)"] assms(2)
  show ?thesis by (simp add: pipeline_ok_def held_def)
qed

text \<open>With a producer that takes everything the spool stays empty after the drain.\<close>

lemma drain_once_empties:
  assumes "\<forall>r k. fst (produce r k) = None" and "pipeline_ok m u p"
  shows "stored_readings u (pl_spool (drain_once m u produce p)) = []"
proof -
  obtain s where s: "drain_once m u produce p
      = retry_all m produce (stored_readings u (pl_spool p)) (p\<lparr>pl_spool := s\<rparr>)"
    "stored_readings u s = []"
    using drain_once_retry [OF assms(2)] by blast
  have "pl_spool (retry_all m produce rs q) = pl_spool q" for rs q
  proof (induction rs arbitrary: q)
    case (Cons r rs)
    have "fst (produce r (pl_producer q)) = None" using assms(1) by blast
    with Cons show ?case by (cases "produce r (pl_producer q)") simp
  qed simp
  with s show ?thesis by simp
qed

lemma ingest_exact:
  assumes "producer_exact produce landed" and "pipeline_ok m u p" and "storable_reading m r"
  shows "pipeline_ok m u (snd (ingest m produce r p)) \<and>
    pl_dedup (snd (ingest m produce r p)) = snd (admit_key (reading_key r) (pl_dedup p)) \<and>
    held u landed (snd (ingest m produce r p)) = held u landed p +
      (if fst (admit_key (reading_key r) (pl_dedup p)) then {#r#} else {#})"
proof -
  obtain b d where a: "admit_key (reading_key r) (pl_dedup p) = (b, d)" by (metis prod.collapse)
  obtain e k where k: "produce r (pl_producer p) = (e, k)" by (metis prod.collapse)
  obtain e' s where w: "spool_write m r (pl_spool p) = (e', s)" by (metis prod.collapse)
  note st = store_ok [OF assms(2,3) w, of k d]
  have ok: "pipeline_ok m u (p\<lparr>pl_dedup := d\<rparr>)" "pipeline_ok m u (p\<lparr>pl_dedup := d, pl_producer := k\<rparr>)"
    using assms(2) by (simp_all add: pipeline_ok_def)
  show ?thesis
    using a k w st ok producer_exactD [OF assms(1) k]
    by (cases b; cases e) (auto simp: ingest_def admit_reading held_def)
qed

lemma ingest_ok_returns:
  assumes "pipeline_ok m u p" and "storable_reading m r"
  shows "fst (ingest m produce r p) = None"
proof -
  obtain e' s where w: "spool_write m r (pl_spool p) = (e', s)" by (metis prod.collapse)
  show ?thesis
    using store_ok [OF assms w] w by (simp add: ingest_def split: prod.split option.split bool.split)
qed

lemma run_ops_exact:
  assumes "producer_exact produce landed"
  shows "pipeline_ok m u p \<Longrightarrow> list_all (storable_reading m) (offered ops) \<Longrightarrow>
    pipeline_ok m u (run_ops m u produce ops p) \<and>
    held u landed (run_ops m u produce ops p) =
      held u landed p + mset (accepted admit_key reading_key (pl_dedup p) (offered ops))"
proof (induction ops arbitrary: p)
  case Nil
  then show ?case by (simp add: run_ops_def)
next
  case (Cons op ops)
  show ?case
  proof (cases op)
    case (Ingest r)
    with Cons.prems have st: "storable_reading m r" "list_all (storable_reading m) (offered ops)" by auto
    from ingest_exact [OF assms Cons.prems(1) st(1)]
      Cons.IH [OF _ st(2), of "snd (ingest m produce r p)"] Ingest
    show ?thesis by (auto simp: run_ops_def Let_def)
  next
    case Drain
    with drain_once_exact [OF assms Cons.prems(1)] Cons.IH [of "drain_once m u produce p"] Cons.prems
    show ?thesis by (simp add: run_ops_def)
  qed
qed

section \<open>A producer for concrete instances\<close>

text \<open>
  The in-memory producer of the unit tests: the first calls fail, as many as the counter says, and
  later calls append to the log.
\<close>

definition fake_produce :: "(nat \<times> reading list) producer" where
  "fake_produce r k =
     (if 0 < fst k then (Some (Errno ''simulated producer failure''), (fst k - 1, snd k))
      else (None, (0, snd k @ [r])))"

lemma fake_produce_exact: "producer_exact fake_produce snd"
  by (simp add: producer_exact_def fake_produce_def)

definition demo_pipeline :: "nat \<Rightarrow> (nat \<times> reading list) pipeline" where
  "demo_pipeline n = new_pipeline new_dedup (demo_spool [] []) (n, [])"

lemma demo_pipeline_ok:
  "pipeline_ok (table_marshal demo_table) (table_unmarshal demo_table) (demo_pipeline n)"
proof -
  have "no_faults (spool_file (demo_spool [] []))" "spool_clean (demo_spool [] [])" by code_simp+
  then show ?thesis
    by (simp add: pipeline_ok_def demo_pipeline_def new_pipeline_def demo_codec spool_healthy_empty
        stored_readings_def demo_spool_def demo_file_def)
qed

lemma demo_storable:
  "storable_reading (table_marshal demo_table) (demo_reading 1)"
  "storable_reading (table_marshal demo_table) (demo_reading 2)"
  by (simp_all add: storable_reading_def marshals_def table_marshal_def demo_table_def
      demo_reading_def small_def)

section \<open>Properties of the sequential pipeline\<close>

text \<open>
  C7. Conservation: from a fresh table and a healthy spool, after any sequence of Ingest and drainOnce
  calls over a producer that is exact but may refuse at any time, the topic and the spool together
  hold what they held at the start and exactly one copy of each reading the independent reference
  deduplication keeps, as long as no device sends more than 4096 distinct sequences.
\<close>

theorem run_ops_conserve:
  assumes "producer_exact produce landed" and "pipeline_ok m u (new_pipeline new_dedup s k)"
    and "list_all (storable_reading m) (offered ops)" and "within_window (offered ops)"
  shows "held u landed (run_ops m u produce ops (new_pipeline new_dedup s k)) =
    mset (landed k) + mset (stored_readings u s) + mset (reference_dedup (offered ops))"
proof -
  have "accepted admit_key reading_key new_dedup (offered ops) = reference_dedup (offered ops)"
    using tel.accepted_start [OF fits_within_window [OF assms(4)]]
    by (simp add: reference_dedup_first_occ)
  with run_ops_exact [OF assms(1,2,3)] show ?thesis
    by (simp add: held_def new_pipeline_def)
qed

theorem run_ops_conserve_witness:
  "held (table_unmarshal demo_table) snd
     (run_ops (table_marshal demo_table) (table_unmarshal demo_table) fake_produce
       [Ingest (demo_reading 1), Ingest (demo_reading 2), Drain, Ingest (demo_reading 1)]
       (demo_pipeline 3))
   = {#demo_reading 1, demo_reading 2#}"
proof -
  let ?ops = "[Ingest (demo_reading 1), Ingest (demo_reading 2), Drain, Ingest (demo_reading 1)]"
  have ok: "pipeline_ok (table_marshal demo_table) (table_unmarshal demo_table)
      (new_pipeline new_dedup (demo_spool [] []) (3 :: nat, [] :: reading list))"
    using demo_pipeline_ok [of 3] by (simp add: demo_pipeline_def)
  have st: "list_all (storable_reading (table_marshal demo_table)) (offered ?ops)"
    by (simp add: demo_storable)
  have w: "within_window (offered ?ops)"
    by (simp add: within_window_def demo_reading_def max_sequences_per_device_def)
  from run_ops_conserve [OF fake_produce_exact ok st w] show ?thesis
    by (simp add: demo_pipeline_def stored_readings_def demo_spool_def demo_file_def
        reference_dedup_def reading_key_def demo_reading_def)
qed

text \<open>
  Recovery: once the producer accepts every call, a single drainOnce leaves the spool empty and
  everything the gateway held is on the topic, each reading once more than before for each copy
  that was spooled.
\<close>

theorem drain_once_recovers:
  assumes "producer_exact produce landed" and "\<forall>r k. fst (produce r k) = None"
    and "pipeline_ok m u p"
  shows "stored_readings u (pl_spool (drain_once m u produce p)) = [] \<and>
    mset (landed (pl_producer (drain_once m u produce p))) = held u landed p"
  using drain_once_empties [OF assms(2,3)] drain_once_exact [OF assms(1,3)] by (simp add: held_def)

definition log_produce :: "(nat \<times> reading list) producer" where
  "log_produce r k = (None, (fst k, snd k @ [r]))"

theorem drain_once_recovers_witness:
  "mset (snd (pl_producer (drain_once (table_marshal demo_table) (table_unmarshal demo_table) log_produce
     (run_ops (table_marshal demo_table) (table_unmarshal demo_table) fake_produce
       [Ingest (demo_reading 1)] (demo_pipeline 3)))))
   = {#demo_reading 1#}"
proof -
  let ?m = "table_marshal demo_table" and ?u = "table_unmarshal demo_table"
  let ?p = "run_ops ?m ?u fake_produce [Ingest (demo_reading 1)] (demo_pipeline 3)"
  have ok: "pipeline_ok ?m ?u ?p"
    using run_ops_exact [OF fake_produce_exact demo_pipeline_ok [of 3], of "[Ingest (demo_reading 1)]"]
    by (simp add: demo_storable)
  have h: "held ?u snd ?p = {#demo_reading 1#}"
    using run_ops_exact [OF fake_produce_exact demo_pipeline_ok [of 3], of "[Ingest (demo_reading 1)]"]
      tel.accepted_distinct [of new_dedup reading_key "[demo_reading 1]"]
    by (simp add: demo_storable demo_pipeline_def new_pipeline_def tel.known_start held_def
        stored_readings_def demo_spool_def demo_file_def)
  have ex: "producer_exact log_produce snd" "\<forall>r k. fst (log_produce r k) = None"
    by (simp_all add: producer_exact_def log_produce_def)
  from drain_once_recovers [OF ex ok] h show ?thesis by simp
qed

text \<open>
  C29. Nothing is dropped silently: whatever the producer answers and whatever disk fault strikes, if
  Ingest returns nil then the reading was refused as one already admitted, or the producer took it,
  or its encoding now stands at the end of the spool file.
\<close>

theorem ingest_nil_accounts:
  assumes "dedup_ok (pl_dedup p)" and "spool_clean (pl_spool p)" and "ingest m produce r p = (None, p')"
  shows "reading_key r \<in> known_readings (pl_dedup p) \<and> p' = p
    \<or> (\<exists>k. produce r (pl_producer p) = (None, k) \<and> pl_producer p' = k)
    \<or> (\<exists>b. m r = Inr b \<and> content (spool_file (pl_spool p')) =
          content (spool_file (pl_spool p)) @ frame b)"
proof (cases "reading_key r \<in> known_readings (pl_dedup p)")
  case True
  with tel.admit_known [OF assms(1) True] assms(3) show ?thesis
    by (simp add: ingest_def admit_reading)
next
  case False
  obtain d where a: "admit_key (reading_key r) (pl_dedup p) = (True, d)"
    using tel.admit_fresh [OF assms(1) False] by (cases "admit_key (reading_key r) (pl_dedup p)") auto
  obtain e k where k: "produce r (pl_producer p) = (e, k)" by (metis prod.collapse)
  obtain e' s where w: "spool_write m r (pl_spool p) = (e', s)" by (metis prod.collapse)
  show ?thesis
  proof (cases e)
    case None
    with assms(3) a k show ?thesis by (auto simp: ingest_def admit_reading)
  next
    case (Some x)
    with assms(3) a k w have "e' = None" "pl_spool p' = s" by (auto simp: ingest_def admit_reading)
    with spool_write_None [OF _ assms(2), of m r s] w show ?thesis by auto
  qed
qed

theorem ingest_nil_accounts_witness:
  "\<exists>p'. ingest (table_marshal demo_table) fake_produce (demo_reading 1) (demo_pipeline 1) = (None, p') \<and>
    content (spool_file (pl_spool p')) = frame [1, 2, 3]"
proof -
  let ?p = "demo_pipeline 1" and ?m = "table_marshal demo_table"
  have d: "dedup_ok (pl_dedup ?p)" by (simp add: demo_pipeline_def new_pipeline_def)
  have c: "spool_clean (pl_spool ?p)" by code_simp
  have i: "ingest ?m fake_produce (demo_reading 1) ?p
      = (None, snd (ingest ?m fake_produce (demo_reading 1) ?p))"
    using ingest_ok_returns [OF demo_pipeline_ok demo_storable(1)] by (simp add: prod_eq_iff)
  have "reading_key (demo_reading 1) \<notin> known_readings (pl_dedup ?p)"
    using tel.known_start by (simp add: demo_pipeline_def new_pipeline_def)
  moreover have "fst (fake_produce (demo_reading 1) (pl_producer ?p)) \<noteq> None"
    by (simp add: fake_produce_def demo_pipeline_def new_pipeline_def)
  moreover have "?m (demo_reading 1) = Inr [1, 2, 3]" by code_simp
  moreover have "content (spool_file (pl_spool ?p)) = []" by code_simp
  ultimately show ?thesis
    using ingest_nil_accounts [OF d c i] i by (metis append_Nil fst_conv sum.inject(2))
qed

text \<open>
  C30. An error from Ingest is final: once Ingest has returned an error for a reading, offering the
  same reading again, with any producer and any encoding, is refused by the dedup table with nil and
  changes nothing, so the reading is in neither the topic nor the spool.
\<close>

theorem ingest_error_blocks_retry:
  assumes "dedup_ok (pl_dedup p)" and "ingest m produce r p = (Some e, p')"
  shows "ingest m' produce' r p' = (None, p')"
proof -
  obtain b d where a: "admit_key (reading_key r) (pl_dedup p) = (b, d)" by (metis prod.collapse)
  have b: "b = True" "pl_dedup p' = d"
    using assms(2) a by (auto simp: ingest_def admit_reading split: prod.splits option.splits bool.splits)
  have "fst (admit_key (reading_key r) d) = False \<and> snd (admit_key (reading_key r) d) = d"
    using tel.admit_known [OF tel.wf_admit tel.known_after_admit, OF assms(1) assms(1)] a
    by (metis fst_conv snd_conv)
  with b(2) show ?thesis
    by (simp add: ingest_def admit_reading prod_eq_iff split: prod.split)
qed

theorem ingest_error_blocks_retry_witness:
  "\<exists>p'. ingest (table_marshal demo_table) fake_produce (demo_reading 1)
      (new_pipeline new_dedup (demo_spool [] [Some (0, err_nospace)]) (1, [])) = (Some err_nospace, p') \<and>
    ingest (table_marshal demo_table) fake_produce (demo_reading 1) p' = (None, p') \<and>
    pl_producer p' = (0, []) \<and> content (spool_file (pl_spool p')) = []"
proof -
  let ?p = "new_pipeline new_dedup (demo_spool [] [Some (0, err_nospace)]) (1 :: nat, [] :: reading list)"
  let ?m = "table_marshal demo_table"
  have d: "dedup_ok (pl_dedup ?p)" by (simp add: new_pipeline_def)
  have "fst (ingest ?m fake_produce (demo_reading 1) ?p) = Some err_nospace" by code_simp
  then have i: "ingest ?m fake_produce (demo_reading 1) ?p
      = (Some err_nospace, snd (ingest ?m fake_produce (demo_reading 1) ?p))"
    by (simp add: prod_eq_iff)
  have "pl_producer (snd (ingest ?m fake_produce (demo_reading 1) ?p)) = (0, [])" by code_simp
  moreover have "content (spool_file (pl_spool (snd (ingest ?m fake_produce (demo_reading 1) ?p)))) = []"
    by code_simp
  ultimately show ?thesis using i ingest_error_blocks_retry [OF d i] by blast
qed

end
