(* ===== verification/Kafka_Client.thy ===== *)
theory Kafka_Client
  imports Telemetry_Pipeline Edge_Interface Go_Format "HOL-Library.Sublist"
begin

text \<open>
  internal/kafkaclient: the producers in front of kafka.Writer, the outage-injecting producer, the
  functions that read a whole topic back (ConsumeAvailable and its two siblings, which differ in the
  message type and in two sizes), the offset bounds, and the continuous stream readers. kafka-go and
  the broker behind it are parameters: a writer is a function on a state, and what a broker answers
  to the calls of one reading pass is a record of outcomes.
\<close>

section \<open>Producers\<close>

text \<open>kafka.Writer.WriteMessages on key and value pairs.\<close>

type_synonym 'w kafka_writer = "(bytes \<times> bytes) list \<Rightarrow> 'w \<Rightarrow> goerror option \<times> 'w"

definition kafka_produce ::
  "(reading \<Rightarrow> goerror + bytes) \<Rightarrow> 'w kafka_writer \<Rightarrow> reading \<Rightarrow> 'w \<Rightarrow> goerror option \<times> 'w"
where
  "kafka_produce marshal wr r k =
     (case marshal r of
        Inl e \<Rightarrow> (Some e, k)
      | Inr v \<Rightarrow> wr [(str_bytes (device_id r), v)] k)"

definition storefront_produce ::
  "(storefront_event \<Rightarrow> goerror + bytes) \<Rightarrow> 'w kafka_writer \<Rightarrow> (storefront_event, 'w) sender"
where
  "storefront_produce marshal wr e k =
     (case marshal e of
        Inl err \<Rightarrow> (Some err, k)
      | Inr v \<Rightarrow> wr [(str_bytes (profile_id e), v)] k)"

definition delivery_produce ::
  "(delivery_webhook \<Rightarrow> goerror + bytes) \<Rightarrow> 'w kafka_writer \<Rightarrow> (delivery_webhook, 'w) sender"
where
  "delivery_produce marshal wr w k =
     (case marshal w of
        Inl err \<Rightarrow> (Some err, k)
      | Inr v \<Rightarrow> wr [(str_bytes (message_id w), v)] k)"

text \<open>ProduceBatch marshals every webhook before it writes any.\<close>

fun batch_messages ::
  "(delivery_webhook \<Rightarrow> goerror + bytes) \<Rightarrow> delivery_webhook list \<Rightarrow> goerror + (bytes \<times> bytes) list"
where
  "batch_messages marshal [] = Inr []"
| "batch_messages marshal (w # ws) =
     (case marshal w of
        Inl e \<Rightarrow> Inl e
      | Inr v \<Rightarrow>
          (case batch_messages marshal ws of
             Inl e \<Rightarrow> Inl e
           | Inr msgs \<Rightarrow> Inr ((str_bytes (message_id w), v) # msgs)))"

definition produce_batch ::
  "(delivery_webhook \<Rightarrow> goerror + bytes) \<Rightarrow> 'w kafka_writer \<Rightarrow> delivery_webhook list \<Rightarrow> 'w \<Rightarrow>
   goerror option \<times> 'w"
where
  "produce_batch marshal wr ws k =
     (case batch_messages marshal ws of Inl e \<Rightarrow> (Some e, k) | Inr msgs \<Rightarrow> wr msgs k)"

text \<open>OutageInjectingProducer; times are readings of the clock in nanoseconds.\<close>

definition err_broker_unreachable :: goerror where
  "err_broker_unreachable = Errno ''simulated broker outage: producer refusing writes''"

definition outage_produce ::
  "int \<Rightarrow> int \<Rightarrow> (reading \<Rightarrow> 'w \<Rightarrow> goerror option \<times> 'w) \<Rightarrow> reading \<Rightarrow> 'w \<Rightarrow> goerror option \<times> 'w"
where
  "outage_produce now outage_until inner r k =
     (if now < outage_until then (Some err_broker_unreachable, k) else inner r k)"

section \<open>Reading a topic back\<close>

text \<open>
  What the broker answers about one partition: the batch is given as the outcomes of the Read calls
  on it, for a fetch size and a buffer length; after the last outcome Read returns io.EOF.
\<close>

record partition_view =
  pv_dial_leader :: "goerror option"
  pv_offsets :: "goerror + int \<times> int"
  pv_seek :: "int \<Rightarrow> goerror option"
  pv_batch :: "nat \<Rightarrow> nat \<Rightarrow> (bytes \<times> goerror option) list"

record broker_view =
  bv_dial :: "goerror option"
  bv_partitions :: "goerror + int list"
  bv_leader :: "int \<Rightarrow> partition_view"

text \<open>The loop over batch.Read.\<close>

fun read_batch :: "(bytes \<Rightarrow> goerror + 'm) \<Rightarrow> int \<Rightarrow> (bytes \<times> goerror option) list \<Rightarrow> 'm list \<Rightarrow> 'm list" where
  "read_batch unmarshal want [] out = out"
| "read_batch unmarshal want ((b, err) # reads) out =
     (let out1 = (if b = [] then out
                  else case unmarshal b of Inr m \<Rightarrow> out @ [m] | Inl e \<Rightarrow> out)
      in if err \<noteq> None then out1
         else if want \<le> int (length out1) then out1
         else read_batch unmarshal want reads out1)"

definition fetch_partition ::
  "nat \<Rightarrow> nat \<Rightarrow> (bytes \<Rightarrow> goerror + 'm) \<Rightarrow> partition_view \<Rightarrow> goerror + 'm list"
where
  "fetch_partition max_bytes buf_len unmarshal pv =
     (case pv_dial_leader pv of
        Some e \<Rightarrow> Inl (Wrapped ''dial leader'' e)
      | None \<Rightarrow>
          (case pv_offsets pv of
             Inl e \<Rightarrow> Inl (Wrapped ''read offsets'' e)
           | Inr (lo, hi) \<Rightarrow>
               (if hi \<le> lo then Inr []
                else
                  (case pv_seek pv lo of
                     Some e \<Rightarrow> Inl (Wrapped ''seek'' e)
                   | None \<Rightarrow> Inr (read_batch unmarshal (hi - lo) (pv_batch pv max_bytes buf_len) [])))))"

definition read_partition :: "(bytes \<Rightarrow> goerror + reading) \<Rightarrow> partition_view \<Rightarrow> goerror + reading list" where
  "read_partition = fetch_partition (50 * 2 ^ 20) (2 ^ 20)"

definition read_storefront_partition ::
  "(bytes \<Rightarrow> goerror + storefront_event) \<Rightarrow> partition_view \<Rightarrow> goerror + storefront_event list"
where
  "read_storefront_partition = fetch_partition (100 * 2 ^ 20) (4 * 2 ^ 20)"

definition read_delivery_partition ::
  "(bytes \<Rightarrow> goerror + delivery_webhook) \<Rightarrow> partition_view \<Rightarrow> goerror + delivery_webhook list"
where
  "read_delivery_partition = fetch_partition (100 * 2 ^ 20) (4 * 2 ^ 20)"

fun consume_partitions ::
  "(partition_view \<Rightarrow> goerror + 'm list) \<Rightarrow> (int \<Rightarrow> partition_view) \<Rightarrow> int list \<Rightarrow> 'm list \<Rightarrow>
   goerror + 'm list"
where
  "consume_partitions rp leader [] out = Inr out"
| "consume_partitions rp leader (p # ps) out =
     (case rp (leader p) of
        Inl e \<Rightarrow> Inl (Wrapped (''partition '' @ fmt_d p) e)
      | Inr ms \<Rightarrow> consume_partitions rp leader ps (out @ ms))"

definition consume_topic ::
  "(partition_view \<Rightarrow> goerror + 'm list) \<Rightarrow> broker_view \<Rightarrow> goerror + 'm list"
where
  "consume_topic rp bv =
     (case bv_dial bv of
        Some e \<Rightarrow> Inl (Wrapped ''dial'' e)
      | None \<Rightarrow>
          (case bv_partitions bv of
             Inl e \<Rightarrow> Inl (Wrapped ''read partitions'' e)
           | Inr ps \<Rightarrow> consume_partitions rp (bv_leader bv) ps []))"

definition consume_available :: "(bytes \<Rightarrow> goerror + reading) \<Rightarrow> broker_view \<Rightarrow> goerror + reading list" where
  "consume_available unmarshal = consume_topic (read_partition unmarshal)"

definition consume_available_storefront ::
  "(bytes \<Rightarrow> goerror + storefront_event) \<Rightarrow> broker_view \<Rightarrow> goerror + storefront_event list"
where
  "consume_available_storefront unmarshal = consume_topic (read_storefront_partition unmarshal)"

definition consume_available_delivery ::
  "(bytes \<Rightarrow> goerror + delivery_webhook) \<Rightarrow> broker_view \<Rightarrow> goerror + delivery_webhook list"
where
  "consume_available_delivery unmarshal = consume_topic (read_delivery_partition unmarshal)"

text \<open>PartitionOffsets and DeliveryPartitionOffsets, which are the same code.\<close>

fun offsets_loop ::
  "(int \<Rightarrow> partition_view) \<Rightarrow> int list \<Rightarrow> (int \<times> int \<times> int) list \<Rightarrow> goerror + (int \<times> int \<times> int) list"
where
  "offsets_loop leader [] out = Inr out"
| "offsets_loop leader (p # ps) out =
     (case pv_dial_leader (leader p) of
        Some e \<Rightarrow> Inl (Wrapped (''dial leader '' @ fmt_d p) e)
      | None \<Rightarrow>
          (case pv_offsets (leader p) of
             Inl e \<Rightarrow> Inl (Wrapped (''read offsets '' @ fmt_d p) e)
           | Inr fl \<Rightarrow> offsets_loop leader ps (AList.update p fl out)))"

definition partition_offsets :: "broker_view \<Rightarrow> goerror + (int \<times> int \<times> int) list" where
  "partition_offsets bv =
     (case bv_dial bv of
        Some e \<Rightarrow> Inl (Wrapped ''dial'' e)
      | None \<Rightarrow>
          (case bv_partitions bv of
             Inl e \<Rightarrow> Inl (Wrapped ''read partitions'' e)
           | Inr ps \<Rightarrow> offsets_loop (bv_leader bv) ps []))"

section \<open>Stream readers\<close>

text \<open>
  Messages starts one goroutine for each partition reader; what ReadMessage will return to it is a
  list of outcomes. A step of the stream is one iteration of one goroutine; a cancelled context may
  end a goroutine at any point. Deliveries are tagged with the index of their reader.
\<close>

record 'm stream =
  st_readers :: "(goerror + bytes) list list"
  st_out :: "(nat \<times> 'm) list"

definition new_stream :: "(goerror + bytes) list list \<Rightarrow> 'm stream" where
  "new_stream rs = \<lparr>st_readers = rs, st_out = []\<rparr>"

inductive stream_step :: "(bytes \<Rightarrow> goerror + 'm) \<Rightarrow> 'm stream \<Rightarrow> 'm stream \<Rightarrow> bool"
  for unmarshal
where
  sent: "i < length (st_readers s) \<Longrightarrow> st_readers s ! i = Inr v # rs \<Longrightarrow> unmarshal v = Inr m \<Longrightarrow>
    stream_step unmarshal s (s\<lparr>st_readers := (st_readers s)[i := rs], st_out := st_out s @ [(i, m)]\<rparr>)"
| skipped: "i < length (st_readers s) \<Longrightarrow> st_readers s ! i = Inr v # rs \<Longrightarrow> unmarshal v = Inl e \<Longrightarrow>
    stream_step unmarshal s (s\<lparr>st_readers := (st_readers s)[i := rs]\<rparr>)"
| ended: "i < length (st_readers s) \<Longrightarrow> st_readers s ! i = Inl e # rs \<Longrightarrow>
    stream_step unmarshal s (s\<lparr>st_readers := (st_readers s)[i := []]\<rparr>)"
| cancelled: "i < length (st_readers s) \<Longrightarrow>
    stream_step unmarshal s (s\<lparr>st_readers := (st_readers s)[i := []]\<rparr>)"

inductive stream_reach :: "(bytes \<Rightarrow> goerror + 'm) \<Rightarrow> 'm stream \<Rightarrow> 'm stream \<Rightarrow> bool"
  for unmarshal s0
where
  start: "stream_reach unmarshal s0 s0"
| step: "stream_reach unmarshal s0 s \<Longrightarrow> stream_step unmarshal s s' \<Longrightarrow> stream_reach unmarshal s0 s'"

text \<open>What one goroutine forwards when nothing stops it.\<close>

fun reader_output :: "(bytes \<Rightarrow> goerror + 'm) \<Rightarrow> (goerror + bytes) list \<Rightarrow> 'm list" where
  "reader_output unmarshal [] = []"
| "reader_output unmarshal (Inl e # rs) = []"
| "reader_output unmarshal (Inr v # rs) =
     (case unmarshal v of Inr m \<Rightarrow> m # reader_output unmarshal rs | Inl e \<Rightarrow> reader_output unmarshal rs)"

text \<open>Close closes every reader and reports the first error.\<close>

fun close_readers :: "goerror option list \<Rightarrow> goerror option \<Rightarrow> goerror option" where
  "close_readers [] first_err = first_err"
| "close_readers (err # errs) first_err =
     close_readers errs (if err \<noteq> None \<and> first_err = None then err else first_err)"

fun current_offsets :: "nat \<Rightarrow> int list \<Rightarrow> (nat \<times> int) list" where
  "current_offsets i [] = []"
| "current_offsets i (o1 # os) = (i, o1) # current_offsets (Suc i) os"

text \<open>The delivery reader's copies of the two.\<close>

fun close_delivery_readers :: "goerror option list \<Rightarrow> goerror option \<Rightarrow> goerror option" where
  "close_delivery_readers [] first_err = first_err"
| "close_delivery_readers (err # errs) first_err =
     close_delivery_readers errs (if err \<noteq> None \<and> first_err = None then err else first_err)"

fun delivery_current_offsets :: "nat \<Rightarrow> int list \<Rightarrow> (nat \<times> int) list" where
  "delivery_current_offsets i [] = []"
| "delivery_current_offsets i (o1 # os) = (i, o1) # delivery_current_offsets (Suc i) os"

section \<open>EnsureTopic\<close>

text \<open>The calls of EnsureTopic and what each returns; the controller is a host and a port.\<close>

record cluster_view =
  cv_dial :: "string \<Rightarrow> goerror option"
  cv_controller :: "goerror + string \<times> int"
  cv_create :: "string \<Rightarrow> string \<Rightarrow> int \<Rightarrow> int \<Rightarrow> goerror option"

definition ensure_topic :: "cluster_view \<Rightarrow> string \<Rightarrow> string \<Rightarrow> int \<Rightarrow> goerror option" where
  "ensure_topic cv broker topic partitions =
     (case cv_dial cv broker of
        Some e \<Rightarrow> Some e
      | None \<Rightarrow>
          (case cv_controller cv of
             Inl e \<Rightarrow> Some e
           | Inr (host, port) \<Rightarrow>
               (let addr = host @ '':'' @ fmt_d port
                in case cv_dial cv addr of
                     Some e \<Rightarrow> Some e
                   | None \<Rightarrow> cv_create cv addr topic partitions 1)))"


section \<open>Lemmas\<close>

text \<open>Close returns the error of the first reader that has one; every reader is asked for its offset.\<close>

lemma close_readers_first:
  "close_readers errs e = (if e = None then (case List.find (\<lambda>x. x \<noteq> None) errs of None \<Rightarrow> None | Some x \<Rightarrow> x) else e)"
  by (induction errs arbitrary: e) auto

lemma close_delivery_readers_same: "close_delivery_readers errs e = close_readers errs e"
  by (induction errs arbitrary: e) auto

lemma current_offsets_zip: "current_offsets i os = zip [i..<i + length os] os"
  by (induction os arbitrary: i) (simp_all add: upt_rec)

lemma delivery_current_offsets_same: "delivery_current_offsets i os = current_offsets i os"
  by (induction os arbitrary: i) auto

text \<open>A run of reads that deliver the encodings of some messages, none of them empty.\<close>

definition delivers :: "(bytes \<Rightarrow> goerror + 'm) \<Rightarrow> bytes list \<Rightarrow> 'm list \<Rightarrow> bool" where
  "delivers unmarshal vs ms \<longleftrightarrow> map unmarshal vs = map Inr ms \<and> [] \<notin> set vs"

lemma delivers_Cons:
  "delivers u (v # vs) ms \<longleftrightarrow> v \<noteq> [] \<and> (\<exists>m ms'. ms = m # ms' \<and> u v = Inr m \<and> delivers u vs ms')"
  by (auto simp: delivers_def Cons_eq_map_conv)

lemma delivers_Nil [simp]: "delivers u [] ms \<longleftrightarrow> ms = []"
  by (auto simp: delivers_def)

lemma read_batch_delivers:
  "delivers u vs ms \<Longrightarrow> int (length out) + int (length ms) \<le> want \<Longrightarrow> int (length out) < want \<Longrightarrow>
   read_batch u want (map (\<lambda>v. (v, None)) vs @ rest) out =
     (if int (length out) + int (length ms) = want then out @ ms
      else read_batch u want rest (out @ ms))"
proof (induction vs arbitrary: out ms)
  case (Cons v vs)
  then obtain m ms' where m: "v \<noteq> []" "ms = m # ms'" "u v = Inr m" "delivers u vs ms'"
    by (auto simp: delivers_Cons)
  show ?case
  proof (cases "want \<le> int (length (out @ [m]))")
    case True
    then have w: "want \<le> int (length out) + 1" by simp
    have "int (length out) + (1 + int (length ms')) \<le> want" using Cons.prems(2) m(2) by simp
    with w have "length ms' = 0" "int (length out) + 1 = want" by linarith+
    then have "ms' = []" "int (length out) + 1 = want" by simp_all
    with m True show ?thesis by simp
  next
    case False
    with Cons.IH [OF m(4), of "out @ [m]"] Cons.prems m show ?thesis by simp
  qed
qed simp

lemma fetch_partition_run:
  assumes "pv_dial_leader pv = None" and "pv_offsets pv = Inr (lo, hi)" and "lo < hi"
    and "pv_seek pv lo = None"
  shows "fetch_partition mb bl u pv = Inr (read_batch u (hi - lo) (pv_batch pv mb bl) [])"
  using assms by (simp add: fetch_partition_def)

text \<open>
  A partition that serves a list of messages: the offsets count them, and the batch delivers them
  first, whatever it delivers afterwards.
\<close>

definition serves :: "nat \<Rightarrow> nat \<Rightarrow> (bytes \<Rightarrow> goerror + 'm) \<Rightarrow> partition_view \<Rightarrow> 'm list \<Rightarrow> bool" where
  "serves mb bl u pv ms \<longleftrightarrow> pv_dial_leader pv = None \<and>
     (\<exists>lo hi. pv_offsets pv = Inr (lo, hi) \<and> nat (hi - lo) = length ms \<and> pv_seek pv lo = None) \<and>
     (\<exists>vs rest. pv_batch pv mb bl = map (\<lambda>v. (v, None)) vs @ rest \<and> delivers u vs ms)"

lemma fetch_partition_serves:
  assumes "serves mb bl u pv ms"
  shows "fetch_partition mb bl u pv = Inr ms"
proof -
  from assms obtain lo hi vs rest where
    p: "pv_dial_leader pv = None" "pv_offsets pv = Inr (lo, hi)" "nat (hi - lo) = length ms"
      "pv_seek pv lo = None" "pv_batch pv mb bl = map (\<lambda>v. (v, None)) vs @ rest" "delivers u vs ms"
    unfolding serves_def by blast
  show ?thesis
  proof (cases "hi \<le> lo")
    case True
    with p show ?thesis by (simp add: fetch_partition_def)
  next
    case False
    then have n: "int (length ms) = hi - lo" using p(3) by linarith
    from False have "lo < hi" by simp
    from fetch_partition_run [OF p(1,2) this p(4), of mb bl u] p(5)
      read_batch_delivers [OF p(6), of "[]" "hi - lo" rest] n False
    show ?thesis by simp
  qed
qed

lemma consume_partitions_serves:
  assumes "\<And>p. p \<in> set ps \<Longrightarrow> rp (leader p) = Inr (msgs p)"
  shows "consume_partitions rp leader ps out = Inr (out @ concat (map msgs ps))"
  using assms by (induction ps arbitrary: out) auto

lemma consume_served:
  assumes "bv_dial bv = None" and "bv_partitions bv = Inr ps"
    and "\<And>p. p \<in> set ps \<Longrightarrow> serves (50 * 2 ^ 20) (2 ^ 20) u (bv_leader bv p) (msgs p)"
  shows "consume_available u bv = Inr (concat (map msgs ps))"
proof -
  have "read_partition u (bv_leader bv p) = Inr (msgs p)" if "p \<in> set ps" for p
    using fetch_partition_serves [OF assms(3) [OF that]] by (simp add: read_partition_def)
  then show ?thesis
    using assms(1,2) consume_partitions_serves [of ps "read_partition u" "bv_leader bv" msgs "[]"]
    by (simp add: consume_available_def consume_topic_def)
qed

text \<open>The first partition that fails decides the error of the whole pass.\<close>

lemma consume_partitions_error:
  "(\<And>p. p \<in> set ps \<Longrightarrow> \<exists>ms. rp (leader p) = Inr ms) \<Longrightarrow> rp (leader q) = Inl e \<Longrightarrow>
   consume_partitions rp leader (ps @ q # qs) out = Inl (Wrapped (''partition '' @ fmt_d q) e)"
proof (induction ps arbitrary: out)
  case (Cons p ps)
  from Cons.prems(1) obtain ms where "rp (leader p) = Inr ms" by auto
  with Cons show ?case by auto
qed simp

text \<open>ProduceBatch writes all or nothing.\<close>

lemma batch_messages_Inr:
  "batch_messages m ws = Inr msgs \<Longrightarrow>
   map fst msgs = map (\<lambda>w. str_bytes (message_id w)) ws \<and> map m ws = map (\<lambda>kv. Inr (snd kv)) msgs"
  by (induction ws arbitrary: msgs) (auto split: sum.splits)

lemma batch_messages_Inl: "(\<exists>e. batch_messages m ws = Inl e) \<longleftrightarrow> (\<exists>w \<in> set ws. \<exists>e. m w = Inl e)"
  by (induction ws) (auto split: sum.splits)

lemma reader_output_step:
  "unmarshal v = Inr m \<Longrightarrow> reader_output unmarshal (Inr v # rs) = m # reader_output unmarshal rs"
  "unmarshal v = Inl e \<Longrightarrow> reader_output unmarshal (Inr v # rs) = reader_output unmarshal rs"
  by simp_all

text \<open>What a stream has delivered from one reader, and what that reader may still deliver.\<close>

definition delivered_from :: "nat \<Rightarrow> 'm stream \<Rightarrow> 'm list" where
  "delivered_from i s = map snd (filter (\<lambda>p. fst p = i) (st_out s))"

lemma stream_step_prefix:
  "stream_step u s s' \<Longrightarrow> length (st_readers s') = length (st_readers s) \<and>
   prefix (delivered_from i s' @ reader_output u (st_readers s' ! i))
     (delivered_from i s @ reader_output u (st_readers s ! i))"
proof (induction rule: stream_step.induct)
  case (sent j s v rs m)
  then show ?case by (cases "i = j") (simp_all add: delivered_from_def)
next
  case (skipped j s v rs e)
  then show ?case by (cases "i = j") (simp_all add: delivered_from_def)
next
  case (ended j s e rs)
  then show ?case by (cases "i = j") (simp_all add: delivered_from_def)
next
  case (cancelled j s)
  then show ?case by (cases "i = j") (simp_all add: delivered_from_def)
qed

lemma stream_reach_prefix:
  "stream_reach u s0 s \<Longrightarrow>
   prefix (delivered_from i s @ reader_output u (st_readers s ! i))
     (delivered_from i s0 @ reader_output u (st_readers s0 ! i))"
proof (induction rule: stream_reach.induct)
  case (step s s')
  from stream_step_prefix [OF step.hyps(2), of i] step.IH show ?case
    by (blast intro: prefix_order.trans)
qed simp


section \<open>The producer keeps the contract the ingest pipeline relies on\<close>

text \<open>
  What is relied on of a writer: nil means the messages are in the log, an error leaves open whether
  they are, and the log only grows. An exact writer logs nothing it reports as failed.
\<close>

definition writer_exact :: "'w kafka_writer \<Rightarrow> ('w \<Rightarrow> (bytes \<times> bytes) list) \<Rightarrow> bool" where
  "writer_exact wr log_of \<longleftrightarrow>
     (\<forall>msgs k. case wr msgs k of
        (None, k') \<Rightarrow> log_of k' = log_of k @ msgs
      | (Some e, k') \<Rightarrow> log_of k' = log_of k)"

definition writer_ok :: "'w kafka_writer \<Rightarrow> ('w \<Rightarrow> (bytes \<times> bytes) list) \<Rightarrow> bool" where
  "writer_ok wr log_of \<longleftrightarrow>
     (\<forall>msgs k. case wr msgs k of
        (None, k') \<Rightarrow> log_of k' = log_of k @ msgs
      | (Some e, k') \<Rightarrow> log_of k' = log_of k \<or> log_of k' = log_of k @ msgs)"

lemma writer_okD:
  assumes "writer_ok wr log_of" and "wr msgs k = (e, k')"
  shows "e = None \<Longrightarrow> log_of k' = log_of k @ msgs"
    and "log_of k' = log_of k \<or> log_of k' = log_of k @ msgs"
  using assms(1) [unfolded writer_ok_def, THEN spec, of msgs, THEN spec, of k] assms(2)
  by (auto split: option.splits)

text \<open>The readings a consumer decodes from a log.\<close>

definition decoded_log :: "(bytes \<Rightarrow> goerror + 'm) \<Rightarrow> (bytes \<times> bytes) list \<Rightarrow> 'm list" where
  "decoded_log unmarshal l = concat (map (\<lambda>(_, v). case unmarshal v of Inr m \<Rightarrow> [m] | Inl e \<Rightarrow> []) l)"

lemma decoded_log_append [simp]: "decoded_log u (l @ l') = decoded_log u l @ decoded_log u l'"
  by (simp add: decoded_log_def)

lemma decoded_log_single: "u v = Inr m \<Longrightarrow> decoded_log u [(k, v)] = [m]"
  by (simp add: decoded_log_def)

text \<open>
  The Kafka producer meets the contract of the ingest pipeline: over a writer that logs what it
  acknowledges, a nil from Produce means a consumer decodes the reading from the topic, and an error
  leaves at most that one reading behind.
\<close>

theorem kafka_produce_contract:
  assumes "codec_ok m u" and "writer_ok wr log_of"
  shows "producer_ok (kafka_produce m wr) (\<lambda>k. decoded_log u (log_of k))"
  unfolding producer_ok_def
proof (intro allI)
  fix r k
  show "case kafka_produce m wr r k of
      (None, k') \<Rightarrow> mset (decoded_log u (log_of k')) = add_mset r (mset (decoded_log u (log_of k)))
    | (Some e, k') \<Rightarrow> mset (decoded_log u (log_of k')) = mset (decoded_log u (log_of k)) \<or>
        mset (decoded_log u (log_of k')) = add_mset r (mset (decoded_log u (log_of k)))"
  proof (cases "m r")
    case (Inl e)
    then show ?thesis by (simp add: kafka_produce_def)
  next
    case (Inr v)
    let ?w = "wr [(str_bytes (device_id r), v)] k"
    obtain e k' where w: "?w = (e, k')" by (cases ?w) auto
    from writer_okD [OF assms(2) w] w Inr codec_okD [OF assms(1) Inr] show ?thesis
      by (cases e) (auto simp: kafka_produce_def decoded_log_single)
  qed
qed

text \<open>A writer for concrete instances: a log, and a number of calls that fail first.\<close>

definition log_writer :: "(nat \<times> (bytes \<times> bytes) list) kafka_writer" where
  "log_writer msgs k =
     (if 0 < fst k then (Some (Errno ''write timeout''), (fst k - 1, snd k))
      else (None, (0, snd k @ msgs)))"

lemma log_writer_exact: "writer_exact log_writer snd"
  by (simp add: writer_exact_def log_writer_def)

lemma writer_exact_ok: "writer_exact wr l \<Longrightarrow> writer_ok wr l"
  by (fastforce simp: writer_exact_def writer_ok_def split: prod.splits option.splits)

theorem kafka_produce_contract_witness:
  "producer_ok (kafka_produce (table_marshal demo_table) log_writer)
     (\<lambda>k. decoded_log (table_unmarshal demo_table) (snd k))"
  by (rule kafka_produce_contract [OF demo_codec writer_exact_ok [OF log_writer_exact]])

section \<open>The outage benchmark's claim\<close>

lemma outage_produce_exact:
  assumes "producer_exact inner landed"
  shows "producer_exact (outage_produce now until inner) landed"
  using assms by (auto simp: producer_exact_def outage_produce_def split: prod.splits option.splits)

text \<open>Ingest and drainOnce calls at given times, over the producer that refuses until the outage ends.\<close>

definition timed_ops ::
  "(reading \<Rightarrow> goerror + bytes) \<Rightarrow> (bytes \<Rightarrow> goerror + reading) \<Rightarrow> 'k producer \<Rightarrow> int \<Rightarrow>
   (int \<times> pipeline_op) list \<Rightarrow> 'k pipeline \<Rightarrow> 'k pipeline"
where
  "timed_ops m u inner until ops p =
     fold (\<lambda>(t, op) p. run_op m u (outage_produce t until inner) op p) ops p"

lemma timed_ops_exact:
  assumes "producer_exact inner landed"
  shows "pipeline_ok m u p \<Longrightarrow> list_all (storable_reading m) (offered (map snd ops)) \<Longrightarrow>
    pipeline_ok m u (timed_ops m u inner until ops p) \<and>
    held u landed (timed_ops m u inner until ops p) =
      held u landed p + mset (accepted admit_key reading_key (pl_dedup p) (offered (map snd ops)))"
proof (induction ops arbitrary: p)
  case Nil
  then show ?case by (simp add: timed_ops_def)
next
  case (Cons top ops)
  obtain t op where top: "top = (t, op)" by (cases top)
  note ex = outage_produce_exact [OF assms, of t until]
  show ?case
  proof (cases op)
    case (Ingest r)
    with Cons.prems top have st: "storable_reading m r" "list_all (storable_reading m) (offered (map snd ops))"
      by auto
    from ingest_exact [OF ex Cons.prems(1) st(1)]
      Cons.IH [OF _ st(2), of "snd (ingest m (outage_produce t until inner) r p)"] Ingest top
    show ?thesis by (auto simp: timed_ops_def Let_def)
  next
    case Drain
    with drain_once_exact [OF ex Cons.prems(1)]
      Cons.IH [of "drain_once m u (outage_produce t until inner) p"] Cons.prems top
    show ?thesis by (simp add: timed_ops_def)
  qed
qed

text \<open>
  No reading is lost across a broker outage: starting fresh with an empty healthy spool, run any
  Ingest and drainOnce calls at any times before, during and after the outage; then one drainOnce
  after the outage, with an inner producer that takes everything, leaves on the topic exactly what
  was there and one copy of every reading the reference deduplication keeps.
\<close>

theorem outage_loses_nothing:
  assumes "producer_exact inner landed" and "\<forall>r k. fst (inner r k) = None"
    and "pipeline_ok m u (new_pipeline new_dedup s k)" and "stored_readings u s = []"
    and "list_all (storable_reading m) (offered (map snd ops))"
    and "within_window (offered (map snd ops))" and "until \<le> t"
  shows "mset (landed (pl_producer (drain_once m u (outage_produce t until inner)
      (timed_ops m u inner until ops (new_pipeline new_dedup s k))))) =
    mset (landed k) + mset (reference_dedup (offered (map snd ops)))"
proof -
  let ?p = "timed_ops m u inner until ops (new_pipeline new_dedup s k)"
  have p: "pipeline_ok m u ?p" "held u landed ?p = mset (landed k) + mset (reference_dedup (offered (map snd ops)))"
    using timed_ops_exact [OF assms(1,3,5), of until] assms(4) tel.accepted_start [OF fits_within_window [OF assms(6)]]
    by (simp_all add: held_def new_pipeline_def reference_dedup_first_occ)
  have "outage_produce t until inner = inner" using assms(7) by (intro ext) (simp add: outage_produce_def)
  with drain_once_exact [OF assms(1) p(1)] drain_once_empties [OF assms(2) p(1)] p(2) show ?thesis
    by (simp add: held_def)
qed

theorem outage_loses_nothing_witness:
  "mset (snd (pl_producer (drain_once (table_marshal demo_table) (table_unmarshal demo_table)
      (outage_produce 60 50 log_produce)
      (timed_ops (table_marshal demo_table) (table_unmarshal demo_table) log_produce 50
        [(1, Ingest (demo_reading 1)), (2, Drain), (3, Ingest (demo_reading 1)), (55, Ingest (demo_reading 2))]
        (demo_pipeline 0))))) = {#demo_reading 1, demo_reading 2#}"
proof -
  let ?ops = "[(1, Ingest (demo_reading 1)), (2, Drain), (3, Ingest (demo_reading 1)),
    (55 :: int, Ingest (demo_reading 2))]"
  have ex: "producer_exact log_produce snd" "\<forall>r k. fst (log_produce r k) = None"
    by (simp_all add: producer_exact_def log_produce_def)
  have ok: "pipeline_ok (table_marshal demo_table) (table_unmarshal demo_table)
      (new_pipeline new_dedup (demo_spool [] []) (0 :: nat, [] :: reading list))"
    using demo_pipeline_ok [of 0] by (simp add: demo_pipeline_def)
  have e: "stored_readings (table_unmarshal demo_table) (demo_spool [] []) = []"
    by (simp add: stored_readings_def demo_spool_def demo_file_def)
  have st: "list_all (storable_reading (table_marshal demo_table)) (offered (map snd ?ops))"
    by (simp add: demo_storable)
  have w: "within_window (offered (map snd ?ops))"
    by (simp add: within_window_def demo_reading_def max_sequences_per_device_def)
  have t: "(50 :: int) \<le> 60" by simp
  from outage_loses_nothing [OF ex ok e st w t] show ?thesis
    by (simp add: demo_pipeline_def reference_dedup_def reading_key_def demo_reading_def)
qed

section \<open>Properties of reading a topic back\<close>

text \<open>
  ConsumeAvailable returns the topic: when the broker serves for each partition the messages its
  offset bounds count, within the fetch and buffer sizes the code asks for, the result is all of
  them, partition by partition, whatever arrives after the watermark was read.
\<close>

theorem consume_available_complete:
  assumes "bv_dial bv = None" and "bv_partitions bv = Inr ps"
    and "\<And>p. p \<in> set ps \<Longrightarrow> serves (50 * 2 ^ 20) (2 ^ 20) u (bv_leader bv p) (msgs p)"
  shows "consume_available u bv = Inr (concat (map msgs ps))"
  using assms by (rule consume_served)

text \<open>A partition view from a list of outcomes, which does not depend on the sizes.\<close>

definition demo_view :: "int \<Rightarrow> int \<Rightarrow> (bytes \<times> goerror option) list \<Rightarrow> partition_view" where
  "demo_view lo hi reads =
     \<lparr>pv_dial_leader = None, pv_offsets = Inr (lo, hi), pv_seek = (\<lambda>_. None), pv_batch = (\<lambda>_ _. reads)\<rparr>"

definition demo_broker :: "partition_view list \<Rightarrow> broker_view" where
  "demo_broker pvs = \<lparr>bv_dial = None, bv_partitions = Inr (map int [0..<length pvs]),
     bv_leader = (\<lambda>p. pvs ! nat p)\<rparr>"

theorem consume_available_complete_witness:
  "consume_available (table_unmarshal demo_table)
     (demo_broker [demo_view 7 9 [([1, 2, 3], None), ([4], None), ([1, 2, 3], None)],
                   demo_view 0 0 []])
   = Inr [demo_reading 1, demo_reading 2]"
proof -
  let ?u = "table_unmarshal demo_table"
  let ?bv = "demo_broker [demo_view 7 9 [([1, 2, 3], None), ([4], None), ([1, 2, 3], None)], demo_view 0 0 []]"
  let ?msgs = "\<lambda>p :: int. if p = 0 then [demo_reading 1, demo_reading 2] else []"
  have "?u [1, 2, 3] = Inr (demo_reading 1)" "?u [4] = Inr (demo_reading 2)" by code_simp+
  then have d: "delivers ?u [[1, 2, 3], [4]] [demo_reading 1, demo_reading 2]"
    by (simp add: delivers_def)
  have s0: "serves mb bl ?u (demo_view 7 9 [([1, 2, 3], None), ([4], None), ([1, 2, 3], None)])
      [demo_reading 1, demo_reading 2]" for mb bl
    using d unfolding serves_def demo_view_def
    by (auto intro!: exI [of _ "[[1, 2, 3], [4]]"])
  have s1: "serves mb bl ?u (demo_view 0 0 []) []" for mb bl
    unfolding serves_def demo_view_def by (auto intro!: exI [of _ "[]"])
  have ps: "bv_dial ?bv = None" "bv_partitions ?bv = Inr [0, 1]"
    by (simp_all add: demo_broker_def numeral_2_eq_2)
  have "serves (50 * 2 ^ 20) (2 ^ 20) ?u (bv_leader ?bv p) (?msgs p)" if "p \<in> set [0, 1]" for p
    using that s0 s1 by (auto simp: demo_broker_def simp del: power_numeral mult_numeral_left)
  from consume_available_complete [OF ps this] show ?thesis by simp
qed

text \<open>
  C32. A read error is taken for the end: when the batch fails before the watermark, ConsumeAvailable
  returns only the messages read so far and no error, so a short result is not told apart from a
  short topic.
\<close>

theorem consume_available_truncates:
  assumes "bv_dial bv = None" and "bv_partitions bv = Inr [p]" and "pv_dial_leader (bv_leader bv p) = None"
    and "pv_offsets (bv_leader bv p) = Inr (lo, hi)" and "pv_seek (bv_leader bv p) lo = None"
    and "delivers u vs ms" and "int (length ms) < hi - lo"
    and "pv_batch (bv_leader bv p) (50 * 2 ^ 20) (2 ^ 20) = map (\<lambda>v. (v, None)) vs @ ([], Some e) # rest"
  shows "consume_available u bv = Inr ms"
proof -
  have "lo < hi" using assms(7) by linarith
  from fetch_partition_run [OF assms(3,4) this assms(5), of "50 * 2 ^ 20" "2 ^ 20" u]
    read_batch_delivers [OF assms(6), of "[]" "hi - lo" "([], Some e) # rest"] assms(7,8)
  have "read_partition u (bv_leader bv p) = Inr ms" by (simp add: read_partition_def)
  with assms(1,2) show ?thesis by (simp add: consume_available_def consume_topic_def)
qed

theorem consume_available_truncates_witness:
  "consume_available (table_unmarshal demo_table)
     (demo_broker [demo_view 0 3 [([1, 2, 3], None), ([], Some (Errno ''short buffer''))]])
   = Inr [demo_reading 1]"
proof -
  let ?u = "table_unmarshal demo_table"
  have "?u [1, 2, 3] = Inr (demo_reading 1)" by code_simp
  then have d: "delivers ?u [[1, 2, 3]] [demo_reading 1]" by (simp add: delivers_def)
  show ?thesis
    by (rule consume_available_truncates [where p = 0 and lo = 0 and hi = 3 and e = "Errno ''short buffer''"
          and vs = "[[1, 2, 3]]" and rest = "[]", OF _ _ _ _ _ d])
      (simp_all add: demo_broker_def demo_view_def)
qed

definition demo_cluster :: cluster_view where
  "demo_cluster = \<lparr>cv_dial = (\<lambda>_. None), cv_controller = Inr (''kafka'', 9093), cv_create = (\<lambda>_ _ _ _. None)\<rparr>"

text \<open>
  C33. A stream keeps each partition's order: whatever the interleaving of the partition goroutines
  and whenever the context is cancelled, the messages delivered from one partition are an initial
  segment of the decodable messages of that partition, in the partition's order.
\<close>

theorem stream_keeps_partition_order:
  assumes "stream_reach u (new_stream rs) s"
  shows "prefix (map snd (filter (\<lambda>p. fst p = i) (st_out s))) (reader_output u (rs ! i))"
  using stream_reach_prefix [OF assms, of i]
  by (auto simp: delivered_from_def new_stream_def dest: append_prefixD)

theorem stream_keeps_partition_order_witness:
  "prefix (map snd (filter (\<lambda>p. fst p = 1) [(1, demo_reading 2)]))
     (reader_output (table_unmarshal demo_table) ([[Inr [1, 2, 3]], [Inr [4], Inr [1, 2, 3]]] ! 1))"
proof -
  let ?s = "new_stream [[Inr [1, 2, 3]], [Inr [4], Inr [1, 2, 3]]] :: reading stream"
  have u: "table_unmarshal demo_table [4] = Inr (demo_reading 2)" by code_simp
  have "stream_step (table_unmarshal demo_table) ?s
      (?s\<lparr>st_readers := (st_readers ?s)[1 := [Inr [1, 2, 3]]], st_out := st_out ?s @ [(1, demo_reading 2)]\<rparr>)"
    by (rule stream_step.sent [where v = "[4]"]) (simp_all add: new_stream_def u)
  from stream_keeps_partition_order [OF stream_reach.step [OF stream_reach.start this], of 1]
  show ?thesis by (simp add: new_stream_def)
qed

end
