(* ===== verification/Interleaving.thy ===== *)
theory Interleaving
  imports Prelude
begin

text \<open>
  The order in which concurrent workers, each going through a list of its own, perform their actions:
  any merge of the lists. Used for the sender goroutines of the benchmarks and for the partitions of
  a topic.
\<close>

inductive merge_of :: "'a list list \<Rightarrow> 'a list \<Rightarrow> bool" where
  finished: "\<forall>xs \<in> set xss. xs = [] \<Longrightarrow> merge_of xss []"
| turn: "i < length xss \<Longrightarrow> xss ! i = x # xs \<Longrightarrow> merge_of (xss[i := xs]) ys \<Longrightarrow> merge_of xss (x # ys)"

inductive_cases merge_of_NilE: "merge_of xss []"
inductive_cases merge_of_ConsE: "merge_of xss (y # ys)"

lemma concat_update_mset:
  "i < length xss \<Longrightarrow> xss ! i = x # xs \<Longrightarrow> mset (concat xss) = add_mset x (mset (concat (xss[i := xs])))"
proof (induction xss arbitrary: i)
  case (Cons zs xss)
  then show ?case by (cases i) simp_all
qed simp

text \<open>Nothing is lost, made up or repeated.\<close>

lemma merge_of_mset: "merge_of xss ys \<Longrightarrow> mset ys = mset (concat xss)"
proof (induction rule: merge_of.induct)
  case (finished xss)
  then show ?case by (simp add: concat_eq_Nil_conv)
next
  case (turn i xss x xs ys)
  with concat_update_mset [of i xss x xs] show ?case by simp
qed

lemma merge_of_length: "merge_of xss ys \<Longrightarrow> length ys = sum_list (map length xss)"
  by (metis length_concat merge_of_mset size_mset)

text \<open>Each worker's actions are in its order: what only one of them does is not reordered.\<close>

lemma merge_of_filter:
  "merge_of xss ys \<Longrightarrow> i < length xss \<Longrightarrow> (\<And>j. j < length xss \<Longrightarrow> j \<noteq> i \<Longrightarrow> filter P (xss ! j) = []) \<Longrightarrow>
     filter P ys = filter P (xss ! i)"
proof (induction rule: merge_of.induct)
  case (turn k xss x xs ys)
  have others: "filter P (xss[k := xs] ! j) = []" if "j < length (xss[k := xs])" "j \<noteq> i" for j
    using turn.prems(2) [of j] that turn.hyps(2) by (cases "j = k") (auto split: if_splits)
  have IH: "filter P ys = filter P (xss[k := xs] ! i)"
    using turn.prems(1) others by (intro turn.IH) simp_all
  show ?case
  proof (cases "k = i")
    case True
    with IH turn.hyps(1,2) show ?thesis by simp
  next
    case False
    with turn.prems(2) [of k] turn.hyps have "\<not> P x" by (auto split: if_splits)
    with False IH show ?thesis by simp
  qed
qed (auto dest!: nth_mem)

text \<open>What nobody does is not done.\<close>

lemma merge_of_filter_none:
  assumes "merge_of xss ys" and "\<And>xs. xs \<in> set xss \<Longrightarrow> filter P xs = []"
  shows "filter P ys = []"
  using merge_of_mset [OF assms(1)] assms(2)
  by (metis (no_types, lifting) UN_iff filter_empty_conv set_concat set_mset_mset)

text \<open>
  Turns of workers that number their own actions: each turn names its worker, and the worker's counter
  gives the action its number, so that no two actions have the same worker and number.
\<close>

fun numbered :: "(nat \<Rightarrow> nat) \<Rightarrow> (nat \<times> 'a) list \<Rightarrow> (nat \<times> nat \<times> 'a) list" where
  "numbered c [] = []"
| "numbered c ((w, x) # ts) = (w, c w, x) # numbered (c(w := c w + 1)) ts"

lemma numbered_Cons: "numbered c (t # ts) = (fst t, c (fst t), snd t) # numbered (c(fst t := c (fst t) + 1)) ts"
  by (cases t) simp

lemma length_numbered [simp]: "length (numbered c ts) = length ts"
  by (induction ts arbitrary: c) (simp_all add: numbered_Cons del: numbered.simps(2))

lemma numbered_ge: "(v, i, x) \<in> set (numbered c ts) \<Longrightarrow> c v \<le> i"
proof (induction ts arbitrary: c)
  case (Cons t ts)
  then show ?case by (fastforce simp: numbered_Cons simp del: numbered.simps(2) split: if_splits)
qed simp

lemma distinct_map_numbered:
  assumes "\<And>w i x v j y. f (w, i, x) = f (v, j, y) \<Longrightarrow> w = v \<and> i = j"
  shows "distinct (map f (numbered c ts))"
proof (induction ts arbitrary: c)
  case (Cons t ts)
  obtain w x where t: "t = (w, x)" by (cases t)
  have "f (w, c w, x) \<notin> f ` set (numbered (c(w := c w + 1)) ts)"
    using numbered_ge [of w "c w" _ "c(w := c w + 1)" ts] assms [of w "c w" x] by fastforce
  with Cons show ?case by (simp add: t)
qed simp

text \<open>One after the other is one of the orders.\<close>

lemma merge_of_concat: "merge_of xss (concat xss)"
proof (induction "length (concat xss)" arbitrary: xss)
  case 0
  then have e: "concat xss = []" by (metis length_0_conv)
  then have "\<forall>xs \<in> set xss. xs = []" by (simp add: concat_eq_Nil_conv)
  then show ?case unfolding e by (rule merge_of.finished)
next
  case (Suc n)
  have ex: "\<exists>i x xs. i < length xss \<and> xss ! i = x # xs \<and> concat xss = x # concat (xss[i := xs])"
    if "concat xss \<noteq> []" for xss :: "'a list list"
    using that
  proof (induction xss)
    case (Cons zs xss)
    show ?case
    proof (cases zs)
      case Nil
      with Cons obtain i x xs where "i < length xss" "xss ! i = x # xs" "concat xss = x # concat (xss[i := xs])"
        by auto
      with Nil show ?thesis by (intro exI [of _ "Suc i"] exI [of _ x] exI [of _ xs]) simp
    next
      case (Cons x xs)
      then show ?thesis by (intro exI [of _ 0] exI [of _ x] exI [of _ xs]) simp
    qed
  qed simp
  from Suc.hyps(2) have "concat xss \<noteq> []" by (metis length_0_conv nat.distinct(1))
  from ex [OF this] obtain i x xs where
    d: "i < length xss" "xss ! i = x # xs" "concat xss = x # concat (xss[i := xs])" by blast
  with Suc.hyps(2) have "n = length (concat (xss[i := xs]))" by simp
  from merge_of.turn [OF d(1,2) Suc.hyps(1) [OF this]] show ?case by (simp add: d(3))
qed

end
