(* ===== verification/Topic.thy ===== *)
theory Topic
  imports Kafka_Client Event_Edge Interleaving
begin

text \<open>
  From the edge through a topic to a stream reader: the constructors of the producers and readers with
  the configuration they give kafka-go, what kafka-go documents of a writer with such a configuration,
  and the order in which a consumer sees what the edge produced.
\<close>

section \<open>Configurations\<close>

datatype balancer = Round_Robin | Hash

datatype required_acks = Require_None | Require_One | Require_All

text \<open>Ordered by how many replicas have the message when a write is acknowledged.\<close>

fun acks_rank :: "required_acks \<Rightarrow> nat" where
  "acks_rank Require_None = 0"
| "acks_rank Require_One = 1"
| "acks_rank Require_All = 2"

instantiation required_acks :: linorder
begin

definition less_eq_required_acks :: "required_acks \<Rightarrow> required_acks \<Rightarrow> bool" where
  "less_eq_required_acks a b \<longleftrightarrow> acks_rank a \<le> acks_rank b"

definition less_required_acks :: "required_acks \<Rightarrow> required_acks \<Rightarrow> bool" where
  "less_required_acks a b \<longleftrightarrow> acks_rank a < acks_rank b"

instance
proof
  fix a b :: required_acks
  show "a \<le> b \<Longrightarrow> b \<le> a \<Longrightarrow> a = b"
    by (cases a; cases b) (simp_all add: less_eq_required_acks_def)
qed (auto simp: less_eq_required_acks_def less_required_acks_def)

end

text \<open>kafka.Writer; a zero batch size stands for the library's default. Timeouts are in milliseconds.\<close>

record writer_config =
  wc_addr :: string
  wc_topic :: string
  wc_balancer :: balancer
  wc_batch_timeout :: nat
  wc_batch_size :: nat
  wc_write_timeout :: nat
  wc_acks :: required_acks
  wc_async :: bool

definition new_producer :: "string \<Rightarrow> string \<Rightarrow> writer_config" where
  "new_producer broker topic =
     \<lparr>wc_addr = broker, wc_topic = topic, wc_balancer = Hash, wc_batch_timeout = 10, wc_batch_size = 0,
      wc_write_timeout = 2000, wc_acks = Require_One, wc_async = False\<rparr>"

definition new_storefront_producer :: "string \<Rightarrow> string \<Rightarrow> writer_config" where
  "new_storefront_producer broker topic =
     \<lparr>wc_addr = broker, wc_topic = topic, wc_balancer = Hash, wc_batch_timeout = 10, wc_batch_size = 500,
      wc_write_timeout = 5000, wc_acks = Require_One, wc_async = False\<rparr>"

definition new_delivery_producer :: "string \<Rightarrow> string \<Rightarrow> writer_config" where
  "new_delivery_producer broker topic =
     \<lparr>wc_addr = broker, wc_topic = topic, wc_balancer = Hash, wc_batch_timeout = 10, wc_batch_size = 500,
      wc_write_timeout = 5000, wc_acks = Require_One, wc_async = False\<rparr>"

definition new_delivery_batch_producer :: "string \<Rightarrow> string \<Rightarrow> nat \<Rightarrow> writer_config" where
  "new_delivery_batch_producer broker topic batch_size =
     \<lparr>wc_addr = broker, wc_topic = topic, wc_balancer = Hash, wc_batch_timeout = 20, wc_batch_size = batch_size,
      wc_write_timeout = 10000, wc_acks = Require_One, wc_async = False\<rparr>"

text \<open>kafka.Reader, at the first offset.\<close>

record reader_config =
  rc_brokers :: "string list"
  rc_topic :: string
  rc_partition :: nat
  rc_min_bytes :: nat
  rc_max_bytes :: nat
  rc_from_first :: bool

text \<open>NewStorefrontStreamReader; NewDeliveryStreamReader is the same code.\<close>

definition new_stream_readers :: "string \<Rightarrow> string \<Rightarrow> nat \<Rightarrow> reader_config list" where
  "new_stream_readers broker topic partition_count =
     map (\<lambda>i. \<lparr>rc_brokers = [broker], rc_topic = topic, rc_partition = i, rc_min_bytes = 1,
               rc_max_bytes = push_bit 20 10, rc_from_first = True\<rparr>) [0..<partition_count]"

definition new_delivery_stream_readers :: "string \<Rightarrow> string \<Rightarrow> nat \<Rightarrow> reader_config list" where
  "new_delivery_stream_readers broker topic partition_count =
     map (\<lambda>i. \<lparr>rc_brokers = [broker], rc_topic = topic, rc_partition = i, rc_min_bytes = 1,
               rc_max_bytes = push_bit 20 10, rc_from_first = True\<rparr>) [0..<partition_count]"

section \<open>The library's contract\<close>

text \<open>
  What is documented of a synchronous writer that hashes keys and waits for an acknowledgement: nil means that
  each message was appended, in the order of the call, to the partition its key belongs to.
\<close>

definition keyed_writer ::
  "(bytes \<Rightarrow> nat) \<Rightarrow> 'w kafka_writer \<Rightarrow> ('w \<Rightarrow> nat \<Rightarrow> (bytes \<times> bytes) list) \<Rightarrow> bool"
where
  "keyed_writer part wr logs \<longleftrightarrow>
     (\<forall>msgs k k' i. wr msgs k = (None, k') \<longrightarrow> logs k' i = logs k i @ filter (\<lambda>(key, _). part key = i) msgs)"

definition writers_ok ::
  "(bytes \<Rightarrow> nat) \<Rightarrow> (writer_config \<Rightarrow> 'w kafka_writer) \<Rightarrow> ('w \<Rightarrow> nat \<Rightarrow> (bytes \<times> bytes) list) \<Rightarrow> bool"
where
  "writers_ok part wr logs \<longleftrightarrow>
     (\<forall>cfg. wc_balancer cfg = Hash \<and> Require_One \<le> wc_acks cfg \<and> \<not> wc_async cfg \<longrightarrow>
        keyed_writer part (wr cfg) logs)"

text \<open>A topic of n partitions, its broker up: every write is acknowledged.\<close>

definition topic_ready ::
  "(bytes \<Rightarrow> nat) \<Rightarrow> (writer_config \<Rightarrow> 'w kafka_writer) \<Rightarrow> ('w \<Rightarrow> nat \<Rightarrow> (bytes \<times> bytes) list) \<Rightarrow> nat \<Rightarrow> bool"
where
  "topic_ready part wr logs n \<longleftrightarrow>
     writers_ok part wr logs \<and> (\<forall>cfg msgs k. fst (wr cfg msgs k) = None) \<and> (\<forall>key. part key < n)"

text \<open>A reader from the first offset is given the values of its partition; a stream has read a topic out when it has delivered them all.\<close>

definition readers_over ::
  "reader_config list \<Rightarrow> (nat \<Rightarrow> (bytes \<times> bytes) list) \<Rightarrow> (goerror + bytes) list list"
where
  "readers_over cfgs logs = map (\<lambda>c. if rc_from_first c then map (Inr \<circ> snd) (logs (rc_partition c)) else []) cfgs"

definition read_out :: "(bytes \<Rightarrow> goerror + 'm) \<Rightarrow> (goerror + bytes) list list \<Rightarrow> 'm stream \<Rightarrow> bool" where
  "read_out u rs s \<longleftrightarrow> stream_reach u (new_stream rs) s \<and>
     (\<forall>i < length rs. delivered_from i s = reader_output u (rs ! i))"

section \<open>Lemmas\<close>

text \<open>The three producers marshal and write one message with its key.\<close>

definition keyed_produce ::
  "('m \<Rightarrow> string) \<Rightarrow> ('m \<Rightarrow> goerror + bytes) \<Rightarrow> 'w kafka_writer \<Rightarrow> ('m, 'w) sender"
where
  "keyed_produce key m wr e k =
     (case m e of Inl err \<Rightarrow> (Some err, k) | Inr v \<Rightarrow> wr [(str_bytes (key e), v)] k)"

lemma keyed_producers:
  "kafka_produce = keyed_produce device_id"
  "storefront_produce = keyed_produce profile_id"
  "delivery_produce = keyed_produce message_id"
  by (simp_all add: fun_eq_iff keyed_produce_def kafka_produce_def storefront_produce_def delivery_produce_def)

lemma ready_writers:
  assumes "topic_ready part wr logs n"
  shows "keyed_writer part (wr (new_storefront_producer broker topic)) logs"
    and "keyed_writer part (wr (new_delivery_producer broker topic)) logs"
    and "fst (wr cfg msgs k) = None"
  using assms by (simp_all add: topic_ready_def writers_ok_def new_storefront_producer_def new_delivery_producer_def less_eq_required_acks_def)

lemma produce_nil: "m e = Inr v \<Longrightarrow> (\<And>msgs k. fst (wr msgs k) = None) \<Longrightarrow> fst (keyed_produce key m wr e k) = None"
  by (simp add: keyed_produce_def)

text \<open>The log of a partition decodes to the messages of its keys, in the order they were produced.\<close>

lemma produced_log:
  assumes "codec_ok m u" and "keyed_writer part wr logs" and "\<And>msgs k. fst (wr msgs k) = None"
  shows "\<forall>e \<in> set es. \<exists>v. m e = Inr v \<Longrightarrow>
    decoded_log u (logs (fold (\<lambda>e k. snd (keyed_produce key m wr e k)) es k) i) =
      decoded_log u (logs k i) @ filter (\<lambda>e. part (str_bytes (key e)) = i) es"
proof (induction es arbitrary: k)
  case (Cons e es)
  then obtain v where v: "m e = Inr v" by auto
  obtain k' where w: "wr [(str_bytes (key e), v)] k = (None, k')"
    using assms(3) [of "[(str_bytes (key e), v)]" k] by (metis prod.collapse)
  have "logs k' i = logs k i @ filter (\<lambda>(key, _). part key = i) [(str_bytes (key e), v)]"
    using assms(2) w unfolding keyed_writer_def by blast
  moreover have "snd (keyed_produce key m wr e k) = k'" by (simp add: keyed_produce_def v w)
  moreover have "u v = Inr e" by (rule codec_okD [OF assms(1) v])
  ultimately show ?case
    using Cons by (simp add: decoded_log_def)
qed simp

text \<open>An edge that sees no id twice forwards everything, however much it is.\<close>

lemma event_stream_distinct:
  assumes "distinct (map event_id es)"
  shows "ep_producer (event_ingest_all produce es (new_event_pipeline new_event_dedup k)) =
    fold (\<lambda>e k. snd (produce e k)) es k"
  using ev.stream_fresh [of "new_event_pipeline new_event_dedup k" es produce] assms
  by (simp add: event_ingest_all_def new_event_pipeline_def new_event_dedup_def event_dedup_ok_def)

lemma reader_output_values: "reader_output u (map (Inr \<circ> snd) l) = decoded_log u l"
  by (induction l) (auto simp: decoded_log_def split: sum.splits)

text \<open>What the goroutines deliver, without the tags, is an order of the partitions' messages.\<close>

lemma tagged_merge:
  "\<forall>p \<in> set out. fst p < length xss \<Longrightarrow> (\<forall>i < length xss. map snd (filter (\<lambda>p. fst p = i) out) = xss ! i) \<Longrightarrow>
     merge_of xss (map snd out)"
proof (induction out arbitrary: xss)
  case Nil
  then have "\<forall>xs \<in> set xss. xs = []" by (auto simp: in_set_conv_nth)
  then show ?case by (simp add: merge_of.finished)
next
  case (Cons p out)
  obtain i x where p: "p = (i, x)" by (cases p)
  then have i: "i < length xss" using Cons.prems(1) by simp
  have "x # map snd (filter (\<lambda>p. fst p = i) out) = xss ! i" using Cons.prems(2) i p by auto
  then obtain xs where xs: "xss ! i = x # xs" "map snd (filter (\<lambda>p. fst p = i) out) = xs" by metis
  have "merge_of (xss[i := xs]) (map snd out)"
    using Cons.prems xs p by (intro Cons.IH) (auto simp: nth_list_update)
  with merge_of.turn [OF i xs(1)] show ?case by (simp add: p)
qed

lemma stream_tags: "stream_reach u s0 s \<Longrightarrow> \<forall>p \<in> set (st_out s0). fst p < length (st_readers s0) \<Longrightarrow>
    length (st_readers s) = length (st_readers s0) \<and> (\<forall>p \<in> set (st_out s). fst p < length (st_readers s0))"
proof (induction rule: stream_reach.induct)
  case (step s s')
  from step.hyps(2) step.IH [OF step.prems] show ?case by (cases rule: stream_step.cases) auto
qed simp

lemma read_out_merges:
  assumes "read_out u rs s"
  shows "merge_of (map (reader_output u) rs) (map snd (st_out s))"
proof (rule tagged_merge)
  show "\<forall>p \<in> set (st_out s). fst p < length (map (reader_output u) rs)"
    using stream_tags [of u "new_stream rs" s] assms by (simp add: read_out_def new_stream_def)
  show "\<forall>i < length (map (reader_output u) rs). map snd (filter (\<lambda>p. fst p = i) (st_out s)) = map (reader_output u) rs ! i"
    using assms by (simp add: read_out_def delivered_from_def)
qed

section \<open>The whole way\<close>

text \<open>The logs of the partitions when messages were produced in the order given.\<close>

definition topic_logs :: "('m \<Rightarrow> nat) \<Rightarrow> nat \<Rightarrow> 'm list \<Rightarrow> 'm list list" where
  "topic_logs part n sent = map (\<lambda>i. filter (\<lambda>e. part e = i) sent) [0..<n]"

lemma mset_topic_logs:
  assumes "\<forall>e \<in> set sent. part e < n"
  shows "mset (concat (topic_logs part n sent)) = mset sent"
proof -
  have s: "mset (concat (map f [0..<n])) = (\<Sum>i<n. mset (f i))" for f :: "nat \<Rightarrow> 'a list"
    by (induction n) (simp_all add: lessThan_Suc add.commute)
  have "(\<Sum>i<n. mset (filter (\<lambda>e. part e = i) sent)) = mset sent"
    using assms
  proof (induction sent)
    case (Cons e es)
    have "mset (filter (\<lambda>x. part x = i) (e # es)) =
        (if part e = i then {#e#} else {#}) + mset (filter (\<lambda>x. part x = i) es)" for i
      by simp
    with Cons show ?case by (simp only: sum.distrib) (simp add: sum.delta)
  qed simp
  then show ?thesis unfolding topic_logs_def s .
qed

lemma read_out_topic:
  assumes codec: "codec_ok m u" and writer: "keyed_writer part wr logs" and nil: "\<And>msgs k. fst (wr msgs k) = None"
    and marshals: "\<forall>e \<in> set es. \<exists>v. m e = Inr v" and empty: "\<forall>i. logs k i = []"
    and cfgs: "cfgs = new_stream_readers broker topic n"
    and read: "read_out u (readers_over cfgs (logs (fold (\<lambda>e k. snd (keyed_produce key m wr e k)) es k))) s"
  shows "merge_of (topic_logs (\<lambda>e. part (str_bytes (key e))) n es) (map snd (st_out s))"
proof -
  let ?rs = "readers_over cfgs (logs (fold (\<lambda>e k. snd (keyed_produce key m wr e k)) es k))"
  have "map (reader_output u) ?rs = topic_logs (\<lambda>e. part (str_bytes (key e))) n es"
    using produced_log [OF codec writer nil marshals, where k = k] empty
    by (simp add: readers_over_def cfgs new_stream_readers_def topic_logs_def reader_output_values [unfolded comp_def]
        comp_def decoded_log_def)
  with read_out_merges [OF read] show ?thesis by simp
qed

text \<open>What the storefront edge was offered and the stream that has read its topic out.\<close>

definition through_topic ::
  "(storefront_event \<Rightarrow> goerror + bytes) \<Rightarrow> (bytes \<Rightarrow> goerror + storefront_event) \<Rightarrow> (bytes \<Rightarrow> nat) \<Rightarrow>
   (writer_config \<Rightarrow> 'w kafka_writer) \<Rightarrow> ('w \<Rightarrow> nat \<Rightarrow> (bytes \<times> bytes) list) \<Rightarrow> string \<Rightarrow> string \<Rightarrow> nat \<Rightarrow> 'w \<Rightarrow>
   storefront_event list \<Rightarrow> storefront_event stream \<Rightarrow> bool"
where
  "through_topic m u part wr logs broker topic n k sent s \<longleftrightarrow>
     codec_ok m u \<and> (\<forall>e \<in> set sent. \<exists>v. m e = Inr v) \<and> topic_ready part wr logs n \<and> (\<forall>i. logs k i = []) \<and>
     read_out u
       (readers_over (new_stream_readers broker topic n)
         (logs (ep_producer (event_ingest_all (storefront_produce m (wr (new_storefront_producer broker topic))) sent
            (new_event_pipeline new_event_dedup k))))) s"

lemma through_topic_merges:
  assumes "through_topic m u part wr logs broker topic n k sent s" and "distinct (map event_id sent)"
  shows "merge_of (topic_logs (\<lambda>e. part (str_bytes (profile_id e))) n sent) (map snd (st_out s))"
    and "part key < n"
proof -
  note t = assms(1) [unfolded through_topic_def event_stream_distinct [OF assms(2)] keyed_producers]
  then have ready: "topic_ready part wr logs n" by blast
  from t read_out_topic [OF _ ready_writers(1) [OF ready] ready_writers(3) [OF ready] _ _ refl, of m u sent k]
  show "merge_of (topic_logs (\<lambda>e. part (str_bytes (profile_id e))) n sent) (map snd (st_out s))" by blast
  show "part key < n" using ready by (simp add: topic_ready_def)
qed

section \<open>A topic of one partition\<close>

text \<open>For concrete instances: a writer that appends to one log.\<close>

definition append_writer :: "writer_config \<Rightarrow> (bytes \<times> bytes) list kafka_writer" where
  "append_writer cfg msgs log = (None, log @ msgs)"

definition one_partition :: "(bytes \<times> bytes) list \<Rightarrow> nat \<Rightarrow> (bytes \<times> bytes) list" where
  "one_partition log i = (if i = 0 then log else [])"

lemma append_ready: "topic_ready (\<lambda>_. 0) append_writer one_partition 1"
  by (auto simp: topic_ready_def writers_ok_def keyed_writer_def append_writer_def one_partition_def)

end
