(* ===== verification/Dedup_Bench.thy ===== *)
theory Dedup_Bench
  imports Corpora Topic
begin

text \<open>
  cmd/eventgen and cmd/deliverygen, the benchmarks of the two edges without a spool: a corpus with
  duplicates goes through the edge to a topic, the topic is read back, and the sorted ids that landed are
  compared with the sorted ids of the reference deduplication. A run is the whole of main: None is
  a panic of the generator, Inl a fatal error, Inr the numbers of the report with the exit status.
\<close>

section \<open>Sending and comparing\<close>

definition id_set :: "storefront_event list \<Rightarrow> string list" where
  "id_set es = sort (map event_id es)"

definition webhook_id_set :: "delivery_webhook list \<Rightarrow> string list" where
  "webhook_id_set ws = sort (map webhook_id ws)"

definition equal_id_sets :: "string list \<Rightarrow> string list \<Rightarrow> bool" where
  "equal_id_sets a b \<longleftrightarrow> length a = length b \<and> list_all (\<lambda>i. a ! i = b ! i) [0..<length a]"

text \<open>The loop over the delivered stream with its three counters: accepted, rejected, errors.\<close>

record send_counts =
  sc_accepted :: nat
  sc_rejected :: nat
  sc_errors :: nat

definition count_result :: "bool \<times> goerror option \<Rightarrow> send_counts \<Rightarrow> send_counts" where
  "count_result res c =
     (case res of
        (ok, Some e) \<Rightarrow> c\<lparr>sc_errors := sc_errors c + 1\<rparr>
      | (ok, None) \<Rightarrow> if ok then c\<lparr>sc_accepted := sc_accepted c + 1\<rparr> else c\<lparr>sc_rejected := sc_rejected c + 1\<rparr>)"

fun send_events ::
  "(storefront_event, 'p) sender \<Rightarrow> storefront_event list \<Rightarrow> 'p event_pipeline \<Rightarrow> send_counts \<Rightarrow>
   send_counts \<times> 'p event_pipeline"
where
  "send_events produce [] p c = (c, p)"
| "send_events produce (e # es) p c =
     (let (res, p') = event_ingest produce e p in send_events produce es p' (count_result res c))"

fun send_webhooks ::
  "(delivery_webhook, 'p) sender \<Rightarrow> delivery_webhook list \<Rightarrow> 'p webhook_pipeline \<Rightarrow> send_counts \<Rightarrow>
   send_counts \<times> 'p webhook_pipeline"
where
  "send_webhooks produce [] p c = (c, p)"
| "send_webhooks produce (w # ws) p c =
     (let (res, p') = webhook_ingest produce w p in send_webhooks produce ws p' (count_result res c))"

definition no_counts :: send_counts where
  "no_counts = \<lparr>sc_accepted = 0, sc_rejected = 0, sc_errors = 0\<rparr>"

section \<open>The two commands\<close>

record gen_report =
  gr_unique :: nat
  gr_delivered :: nat
  gr_sent :: send_counts
  gr_got :: nat
  gr_want :: nat
  gr_exit :: nat

definition eventgen_run ::
  "'r rand \<Rightarrow> sim_floats \<Rightarrow> (int \<Rightarrow> 'r) \<Rightarrow> (storefront_event \<Rightarrow> goerror + bytes) \<Rightarrow> (bytes \<Rightarrow> goerror + storefront_event) \<Rightarrow>
   (writer_config \<Rightarrow> 'w kafka_writer) \<Rightarrow> ('w \<Rightarrow> broker_view) \<Rightarrow> string \<Rightarrow> string \<Rightarrow> nat \<Rightarrow> int \<Rightarrow> int \<Rightarrow> (nat \<Rightarrow> nat) \<Rightarrow> 'w \<Rightarrow>
   (goerror + gen_report) option"
where
  "eventgen_run rd fl seed m u wr view broker topic profiles avg now dups k =
     do {
       corpus \<leftarrow> build_storefront rd fl profiles avg 30 now (seed 42);
       let unique = flatten_profiles corpus;
       delivered \<leftarrow> with_duplicates rd unique (dups (length unique)) (seed 43);
       let produce = storefront_produce m (wr (new_storefront_producer broker topic));
       let (counts, p) = send_events produce delivered (new_event_pipeline new_event_dedup k) no_counts;
       Some (case consume_available_storefront u (view (ep_producer p)) of
           Inl e \<Rightarrow> Inl (Wrapped ''read back from kafka'' e)
         | Inr landed \<Rightarrow>
             (let got = id_set landed; want = id_set (event_reference_dedup delivered)
              in Inr \<lparr>gr_unique = length unique, gr_delivered = length delivered, gr_sent = counts,
                      gr_got = length got, gr_want = length want,
                      gr_exit = (if equal_id_sets got want then 0 else 1)\<rparr>))
     }"

text \<open>
  deliverygen also counts the channels, and creates its topic first, of which an error is only printed.
\<close>

definition count_channels :: "delivery_webhook list \<Rightarrow> (string \<times> nat) list" where
  "count_channels ws =
     fold (\<lambda>w cs. AList.update (channel w) (case map_of cs (channel w) of None \<Rightarrow> 1 | Some c \<Rightarrow> c + 1) cs) ws []"

definition channel_lines :: "delivery_webhook list \<Rightarrow> (string \<times> nat) list" where
  "channel_lines ws =
     map (\<lambda>ch. (fst ch, case map_of (count_channels ws) (fst ch) of None \<Rightarrow> 0 | Some c \<Rightarrow> c)) channels"

text \<open>deliverygen's own copy of the comparison.\<close>

definition equal_webhook_id_sets :: "string list \<Rightarrow> string list \<Rightarrow> bool" where
  "equal_webhook_id_sets a b \<longleftrightarrow> length a = length b \<and> list_all (\<lambda>i. a ! i = b ! i) [0..<length a]"

lemma equal_webhook_id_sets_same [simp]: "equal_webhook_id_sets = equal_id_sets"
  by (simp add: fun_eq_iff equal_webhook_id_sets_def equal_id_sets_def)

record delivery_report = gen_report +
  dr_channels :: "(string \<times> nat) list"
  dr_note :: "goerror option"

definition deliverygen_run ::
  "'r rand \<Rightarrow> sim_floats \<Rightarrow> (int \<Rightarrow> 'r) \<Rightarrow> (delivery_webhook \<Rightarrow> goerror + bytes) \<Rightarrow> (bytes \<Rightarrow> goerror + delivery_webhook) \<Rightarrow>
   (writer_config \<Rightarrow> 'w kafka_writer) \<Rightarrow> ('w \<Rightarrow> broker_view) \<Rightarrow> cluster_view \<Rightarrow> string \<Rightarrow> string \<Rightarrow> nat \<Rightarrow> int \<Rightarrow> int \<Rightarrow>
   (nat \<Rightarrow> nat) \<Rightarrow> 'w \<Rightarrow> (goerror + delivery_report) option"
where
  "deliverygen_run rd fl seed m u wr view cv broker topic messages minutes now dups k =
     do {
       corpus \<leftarrow> build_webhooks rd fl messages minutes now (seed 42);
       delivered \<leftarrow> with_retries rd corpus (dups (length corpus)) (seed 43);
       let note = ensure_topic cv broker topic 6;
       let produce = delivery_produce m (wr (new_delivery_producer broker topic));
       let (counts, p) = send_webhooks produce delivered (new_webhook_pipeline new_webhook_dedup k) no_counts;
       Some (case consume_available_delivery u (view (wp_producer p)) of
           Inl e \<Rightarrow> Inl (Wrapped ''read back from kafka'' e)
         | Inr landed \<Rightarrow>
             (let got = webhook_id_set landed; want = webhook_id_set (webhook_reference_dedup delivered)
              in Inr \<lparr>gr_unique = length corpus, gr_delivered = length delivered, gr_sent = counts,
                      gr_got = length got, gr_want = length want,
                      gr_exit = (if equal_webhook_id_sets got want then 0 else 1),
                      dr_channels = channel_lines corpus, dr_note = note\<rparr>))
     }"

section \<open>Lemmas\<close>

lemma equal_id_sets_iff: "equal_id_sets a b \<longleftrightarrow> a = b"
  unfolding equal_id_sets_def list_eq_iff_nth_eq [of a b] list_all_iff by auto

lemma equal_ids:
  assumes "mset landed = mset old + mset want"
  shows "equal_id_sets (sort (map key landed)) (sort (map key want)) \<longleftrightarrow> old = []"
proof (cases "old = []")
  case True
  then have "mset (map key landed) = mset (map key want)" using assms by simp
  then have "sort (map key landed) = sort (map key want)" by (intro properties_for_sort) simp_all
  with True show ?thesis by (simp add: equal_id_sets_iff)
next
  case False
  moreover have "length landed = length old + length want" using assms by (metis mset_append mset_eq_length length_append)
  ultimately show ?thesis by (simp add: equal_id_sets_def)
qed

text \<open>Resends of a corpus with distinct ids are deduplicated to the corpus, in some order.\<close>

lemma first_occ_resend:
  assumes "distinct (map key xs)" and "set ys = set xs"
  shows "mset (first_occ key {} ys) = mset xs"
proof -
  have "mset (first_occ key {} ys) = mset (first_occ key {} xs)"
  proof (rule mset_first_occ_perm)
    fix x y assume "x \<in> set ys" "y \<in> set ys" "key x = key y"
    with assms show "x = y" by (auto simp: distinct_map dest: inj_onD)
  qed (rule assms(2))
  also have "first_occ key {} xs = xs" using assms(1) by (simp add: first_occ_id)
  finally show ?thesis .
qed

text \<open>The counters of a stream over a producer that reports no error.\<close>

context forwarding_edge
begin

lemma accepted_length: "length (accepted admit key s es) \<le> length es"
  by (induction es arbitrary: s) (auto simp: Let_def le_SucI)

lemma counts_nil:
  "(\<And>e k. e \<in> set es \<Longrightarrow> fst (snd_fn e k) = None) \<Longrightarrow>
   fold count_result (results (ingest snd_fn) es p) c =
     \<lparr>sc_accepted = sc_accepted c + length (accepted admit key (cache_of p) es),
      sc_rejected = sc_rejected c + (length es - length (accepted admit key (cache_of p) es)),
      sc_errors = sc_errors c\<rparr>"
proof (induction es arbitrary: p c)
  case (Cons e es)
  show ?case
  proof (cases "fst (admit (key e) (cache_of p))")
    case True
    with Cons forwarded [OF True, of snd_fn] show ?thesis by (simp add: count_result_def Let_def)
  next
    case False
    with Cons refused [OF False, of snd_fn] accepted_length [of "snd (admit (key e) (cache_of p))" es]
    show ?thesis by (simp add: count_result_def Let_def Suc_diff_le)
  qed
qed simp

end

lemma send_events_results: "send_events produce es p c =
    (fold count_result (results (event_ingest produce) es p) c, event_ingest_all produce es p)"
  by (induction es arbitrary: p c) (simp_all add: event_ingest_all_def split_beta Let_def)

lemma send_webhooks_results: "send_webhooks produce ws p c =
    (fold count_result (results (webhook_ingest produce) ws p) c, webhook_ingest_all produce ws p)"
  by (induction ws arbitrary: p c) (simp_all add: webhook_ingest_all_def split_beta Let_def)

text \<open>
  A broker that serves a topic of n partitions with the given logs to a reading pass with these sizes, and
  what such a pass then returns after messages were produced on top of old ones.
\<close>

definition topic_served ::
  "nat \<Rightarrow> nat \<Rightarrow> (bytes \<Rightarrow> goerror + 'm) \<Rightarrow> nat \<Rightarrow> broker_view \<Rightarrow> (nat \<Rightarrow> (bytes \<times> bytes) list) \<Rightarrow> bool"
where
  "topic_served mb bl u n bv log \<longleftrightarrow> bv_dial bv = None \<and> bv_partitions bv = Inr (map int [0..<n]) \<and>
     (\<forall>i < n. serves mb bl u (bv_leader bv (int i)) (decoded_log u (log i)))"

definition topic_messages :: "(bytes \<Rightarrow> goerror + 'm) \<Rightarrow> nat \<Rightarrow> (nat \<Rightarrow> (bytes \<times> bytes) list) \<Rightarrow> 'm list" where
  "topic_messages u n log = concat (map (\<lambda>i. decoded_log u (log i)) [0..<n])"

lemma consume_served_topic:
  assumes "topic_served mb bl u n bv log"
  shows "consume_topic (fetch_partition mb bl u) bv = Inr (topic_messages u n log)"
proof -
  have "fetch_partition mb bl u (bv_leader bv p) = Inr (decoded_log u (log (nat p)))" if "p \<in> set (map int [0..<n])" for p
    using assms that by (intro fetch_partition_serves) (auto simp: topic_served_def)
  from consume_partitions_serves [of "map int [0..<n]" "fetch_partition mb bl u" "bv_leader bv", OF this, of "[]"]
  show ?thesis using assms by (simp add: consume_topic_def topic_served_def topic_messages_def comp_def)
qed

lemma mset_concat_append:
  "mset (concat (map (\<lambda>i. f i @ g i) is)) = mset (concat (map f is)) + mset (concat (map g is))"
  by (induction "is") (simp_all add: ac_simps)

lemma produced_messages:
  assumes "codec_ok m u" and "keyed_writer part wr logs" and "\<And>msgs k. fst (wr msgs k) = None"
    and "\<forall>e \<in> set es. \<exists>v. m e = Inr v" and "\<And>key. part key < n"
  shows "mset (topic_messages u n (logs (fold (\<lambda>e k. snd (keyed_produce key m wr e k)) es k))) =
    mset (topic_messages u n (logs k)) + mset es"
  using mset_topic_logs [of es "\<lambda>e. part (str_bytes (key e))" n] assms(5)
  by (simp add: topic_messages_def topic_logs_def produced_log [OF assms(1-4)] mset_concat_append)

text \<open>
  An edge over a topic, offered a corpus with resends: what the reference keeps of it is the corpus, lands once
  more each, and the counters tell the two apart.
\<close>

context forwarding_edge
begin

lemma corpus_lands:
  assumes start: "cache_of p = start" and corpus: "distinct (map key xs)" "length xs = len" "len \<le> cap"
    and ds: "set ds = set xs \<and> length ds = length xs + dups"
    and ready: "codec_ok m u" "topic_ready part wr logs n" "keyed_writer part (wr cfg) logs"
    and marshals: "\<forall>e \<in> set xs. \<exists>v. m e = Inr v"
    and k': "k' = producer_of (fold (\<lambda>e p. snd (ingest (keyed_produce mkey m (wr cfg)) e p)) ds p)"
  shows "mset (first_occ key {} ds) = mset xs \<and>
    mset (topic_messages u n (logs k')) =
      mset (topic_messages u n (logs (producer_of p))) + mset (first_occ key {} ds) \<and>
    fold count_result (results (ingest (keyed_produce mkey m (wr cfg))) ds p) no_counts =
      \<lparr>sc_accepted = len, sc_rejected = dups, sc_errors = 0\<rparr>"
proof (intro conjI)
  have n: "part k < n" for k using ready(2) by (simp add: topic_ready_def)
  note w = ready_writers(3) [OF ready(2)]
  have fits: "card (key ` set ds) \<le> cap"
    using corpus(2,3) ds by (metis card_length length_map le_trans set_map)
  show ref: "mset (first_occ key {} ds) = mset xs" using ds by (intro first_occ_resend [OF corpus(1)]) simp
  then have "\<forall>e \<in> set (first_occ key {} ds). \<exists>v. m e = Inr v" using marshals by (metis set_mset_mset)
  from produced_messages [OF ready(1,3) w this n, where key = mkey and k = "producer_of p"]
  show "mset (topic_messages u n (logs k')) =
      mset (topic_messages u n (logs (producer_of p))) + mset (first_occ key {} ds)"
    using stream_reference [OF start fits, of "keyed_produce mkey m (wr cfg)"] by (simp add: k')
  have nil: "fst (keyed_produce mkey m (wr cfg) e k) = None" if "e \<in> set ds" for e k
    using that marshals produce_nil [OF _ w, of m e] ds by auto
  have "fold count_result (results (ingest (keyed_produce mkey m (wr cfg))) ds p) no_counts =
      \<lparr>sc_accepted = sc_accepted no_counts + length (accepted admit key (cache_of p) ds),
       sc_rejected = sc_rejected no_counts + (length ds - length (accepted admit key (cache_of p) ds)),
       sc_errors = sc_errors no_counts\<rparr>"
    by (rule counts_nil) (rule nil)
  then show "fold count_result (results (ingest (keyed_produce mkey m (wr cfg))) ds p) no_counts =
      \<lparr>sc_accepted = len, sc_rejected = dups, sc_errors = 0\<rparr>"
    using mset_eq_length [OF ref] accepted_start [of key ds] fits ds corpus(2)
    by (simp add: start no_counts_def)
qed

end

text \<open>What the comparison finds when the corpus landed on top of old messages.\<close>

lemma landed_comparison:
  assumes "mset ref = mset xs" and "mset landed = mset old + mset ref" and "length xs = len"
  shows "length landed = length old + len" and "length ref = len"
    and "equal_id_sets (sort (map key landed)) (sort (map key ref)) \<longleftrightarrow> old = []"
  using assms equal_ids [OF assms(2)] by (metis mset_append mset_eq_length length_append, metis mset_eq_length, simp)

text \<open>Every webhook of a corpus is counted in the line of its channel.\<close>

lemma count_channels_lookup:
  "map_of (fold (\<lambda>w cs. AList.update (channel w) (case map_of cs (channel w) of None \<Rightarrow> 1 | Some c \<Rightarrow> c + 1) cs) ws cs) c =
     (if c \<in> channel ` set ws
      then Some ((case map_of cs c of None \<Rightarrow> 0 | Some n \<Rightarrow> n) + count_list (map channel ws) c) else map_of cs c)"
proof (induction ws arbitrary: cs)
  case (Cons w ws)
  then show ?case by (auto simp: map_of_update count_list_0_iff image_iff split: option.splits)
qed simp

lemma channel_lines_counts:
  "channel_lines ws = map (\<lambda>ch. (fst ch, count_list (map channel ws) (fst ch))) channels"
  by (auto simp: channel_lines_def count_channels_def count_channels_lookup count_list_0_iff)

lemma build_messages_channels:
  assumes "rand_ok rd"
  shows "build_messages rd fl minutes now m k r = Some (ws, r') \<Longrightarrow> channel ` set ws \<subseteq> fst ` set channels"
proof (induction k arbitrary: m r ws r')
  case (Suc k)
  from Suc.prems obtain c r1 r2 ws1 where
    d: "intn rd (int (length channels)) r = Some (c, r1)" "build_messages rd fl minutes now (m + 1) k r2 = Some (ws1, r')"
    and w: "channel ` set ws = insert (fst (channels ! nat c)) (channel ` set ws1)"
    by (auto simp: message_webhook_def Let_def split: Option.bind_split_asm prod.splits)
  have "nat c < length channels" using intn_range [OF assms d(1)] by linarith
  with w Suc.IH [OF d(2)] show ?case by auto
qed simp

lemma channel_lines_total:
  assumes "channel ` set ws \<subseteq> fst ` set channels"
  shows "sum_list (map snd (channel_lines ws)) = length ws"
proof -
  have "distinct (map fst channels)" by code_simp
  then have "(\<Sum>c \<leftarrow> map fst channels. count_list (map channel ws) c) = (\<Sum>c \<in> fst ` set channels. count_list (map channel ws) c)"
    by (simp only: sum_list_distinct_conv_sum_set set_map)
  also have "\<dots> = length ws" using sum_count_set [of "map channel ws" "fst ` set channels"] assms by simp
  finally show ?thesis by (simp add: channel_lines_counts comp_def)
qed

section \<open>Properties\<close>

text \<open>
  The exit status of eventgen, the whole command: over a broker that takes every write and serves what it
  has, for every corpus and every draw of duplicates, the counters account for the corpus and the resends,
  each event lands once more, and the command exits with 0 exactly when the topic was empty before.
\<close>

theorem eventgen_exit_status:
  assumes rd: "rand_ok rd" and codec: "codec_ok m u" and ready: "topic_ready part wr logs n"
    and built: "build_storefront rd fl profiles avg 30 now (seed 42) = Some ps"
    and len: "len = length (flatten_profiles ps)" and small: "len \<le> 4000000"
    and delivered: "with_duplicates rd (flatten_profiles ps) (dups len) (seed 43) = Some ds"
    and marshals: "\<forall>e \<in> set (flatten_profiles ps). \<exists>v. m e = Inr v"
    and sent: "k' = ep_producer (event_ingest_all (storefront_produce m (wr (new_storefront_producer broker topic))) ds
      (new_event_pipeline new_event_dedup k))"
    and served: "topic_served (100 * 2 ^ 20) (4 * 2 ^ 20) u n (view k') (logs k')"
  shows "eventgen_run rd fl seed m u wr view broker topic profiles avg now dups k =
    Some (Inr \<lparr>gr_unique = len, gr_delivered = len + dups len,
      gr_sent = \<lparr>sc_accepted = len, sc_rejected = dups len, sc_errors = 0\<rparr>,
      gr_got = length (topic_messages u n (logs k)) + len, gr_want = len,
      gr_exit = (if topic_messages u n (logs k) = [] then 0 else 1)\<rparr>)"
proof -
  let ?cfg = "new_storefront_producer broker topic"
  let ?p = "new_event_pipeline new_event_dedup k" and ?produce = "keyed_produce profile_id m (wr ?cfg)"
  obtain r1 where "build_profiles rd fl avg 30 now 0 profiles (seed 42) = Some (ps, r1)"
    using built by (auto simp: build_storefront_def)
  from build_profiles_ok [OF rd this] profiles_distinct [of ps avg 0]
  have d: "distinct (map event_id (flatten_profiles ps))" by (simp add: flatten_profiles_concat)
  obtain r2 where "resend_some rd (flatten_profiles ps) (dups len) (seed 43) = Some (ds, r2)"
    using delivered by (auto simp: with_duplicates_def)
  from resend_some_mset [OF rd this] have s: "set ds = set (flatten_profiles ps) \<and> length ds = length (flatten_profiles ps) + dups len" .
  have p: "ep_dedup ?p = new_event_dedup" "ep_producer ?p = k" by (simp_all add: new_event_pipeline_def)
  have k': "k' = ep_producer (fold (\<lambda>e p. snd (event_ingest ?produce e p)) ds ?p)"
    by (simp add: sent event_ingest_all_def keyed_producers)
  note lands = ev.corpus_lands [OF p(1) d len [symmetric] small [folded max_event_ids_def] s codec ready
      ready_writers(1) [OF ready] marshals k', unfolded p(2), folded event_reference_first_occ]
  note cmp = landed_comparison [OF lands [THEN conjunct1] lands [THEN conjunct2, THEN conjunct1] len [symmetric]]
  have "consume_available_storefront u (view k') = Inr (topic_messages u n (logs k'))"
    using consume_served_topic [OF served] by (simp add: consume_available_storefront_def read_storefront_partition_def)
  with lands cmp(1,2) cmp(3) [where key = event_id] s show ?thesis
    by (simp add: eventgen_run_def built len [symmetric] delivered send_events_results id_set_def Let_def
        sent [unfolded keyed_producers, symmetric] keyed_producers)
qed

text \<open>A broker that serves the log of one partition.\<close>

definition log_broker :: "(bytes \<times> bytes) list \<Rightarrow> broker_view" where
  "log_broker log = demo_broker [demo_view 0 (int (length log)) (map (\<lambda>kv. (snd kv, None)) log)]"

lemma servesI:
  "pv_dial_leader pv = None \<Longrightarrow> pv_offsets pv = Inr (lo, hi) \<Longrightarrow> nat (hi - lo) = length ms \<Longrightarrow> pv_seek pv lo = None \<Longrightarrow>
   delivers u vs ms \<Longrightarrow> pv_batch pv mb bl = map (\<lambda>v. (v, None)) vs @ rest \<Longrightarrow> serves mb bl u pv ms"
  unfolding serves_def by blast

lemma log_broker_serves:
  assumes "list_all (\<lambda>kv. snd kv \<noteq> [] \<and> u (snd kv) = Inr (f kv)) log"
  shows "topic_served mb bl u 1 (log_broker log) (one_partition log)"
proof -
  have d: "decoded_log u log = map f log" using assms by (induction log) (auto simp: decoded_log_def)
  have "delivers u (map snd log) (map f log)" using assms by (auto simp: delivers_def list_all_iff)
  then have "serves mb bl u (demo_view 0 (int (length log)) (map (\<lambda>kv. (snd kv, None)) log)) (decoded_log u log)"
    unfolding d by (intro servesI [where rest = "[]" and lo = 0 and hi = "int (length log)" and vs = "map snd log"]) (simp_all add: demo_view_def comp_def)
  then show ?thesis by (simp add: topic_served_def log_broker_def demo_broker_def one_partition_def)
qed

definition demo_gen_event :: storefront_event where
  "demo_gen_event = \<lparr>event_id = event_id_text 0 0, profile_id = ''profile-'' @ fmt_0d 8 0, event_type = ''page_view'',
     ev_timestamp_ms = 5000, attributes = [(''category'', categories ! 0)]\<rparr>"

text \<open>One event, resent once: the first run passes; on the topic it leaves, the second one does not.\<close>

theorem eventgen_exit_status_witness:
  "map_option (map_sum id gr_exit)
     (eventgen_run scripted_rand demo_sim_floats (\<lambda>_. []) (table_marshal [(demo_gen_event, [7])])
       (table_unmarshal [(demo_gen_event, [7])]) append_writer log_broker ''b'' ''t'' 1 1 5000000000 (\<lambda>n. n) []) =
   Some (Inr 0) \<and>
   map_option (map_sum id gr_exit)
     (eventgen_run scripted_rand demo_sim_floats (\<lambda>_. []) (table_marshal [(demo_gen_event, [7])])
       (table_unmarshal [(demo_gen_event, [7])]) append_writer log_broker ''b'' ''t'' 1 1 5000000000 (\<lambda>n. n) [([], [7])]) =
   Some (Inr 1)"
proof -
  let ?e = demo_gen_event and ?w = "append_writer (new_storefront_producer ''b'' ''t'')"
  let ?m = "table_marshal [(?e, [7 :: byte])]" and ?u = "table_unmarshal [(?e, [7 :: byte])]"
  let ?ps = "[\<lparr>pe_profile_id = ''profile-'' @ fmt_0d 8 0, pe_events = [?e]\<rparr>]"
  have built: "build_storefront scripted_rand demo_sim_floats 1 1 30 5000000000 [] = Some ?ps"
    by (simp add: build_storefront_def scripted_rand_def intn_def draw_event_type_def Let_def categories_def
        demo_sim_floats_def sort_events_def unix_milli_def demo_gen_event_def)
  have flat: "flatten_profiles ?ps = [?e]" by (simp add: flatten_profiles_def)
  have twice: "with_duplicates scripted_rand [?e] 1 [] = Some [?e, ?e]"
    by (simp add: with_duplicates_def resend_some_def shuffle_def swap_at_def scripted_rand_def intn_def)
  have codec: "codec_ok ?m ?u" by (rule codec_ok_table) simp
  have me: "?m ?e = Inr [7]" "?u [7] = Inr ?e" by (simp_all add: table_marshal_def table_unmarshal_def)
  have run: "eventgen_run scripted_rand demo_sim_floats (\<lambda>_. []) ?m ?u append_writer log_broker ''b'' ''t'' 1 1 5000000000
      (\<lambda>n. n) log =
    Some (Inr \<lparr>gr_unique = 1, gr_delivered = 1 + 1, gr_sent = \<lparr>sc_accepted = 1, sc_rejected = 1, sc_errors = 0\<rparr>,
      gr_got = length (topic_messages ?u 1 (one_partition log)) + 1, gr_want = 1,
      gr_exit = (if topic_messages ?u 1 (one_partition log) = [] then 0 else 1)\<rparr>)"
    if log: "list_all (\<lambda>kv. snd kv = [7]) log" for log
  proof -
    let ?k' = "ep_producer (event_ingest_all (storefront_produce ?m ?w) [?e, ?e] (new_event_pipeline new_event_dedup log))"
    have "?k' = log @ [(str_bytes (profile_id ?e), [7])]"
      by (simp add: event_ingest_all_def event_ingest_def event_admit_def new_event_pipeline_def new_event_dedup_def
          storefront_produce_def me append_writer_def Let_def max_event_ids_def)
    then have "list_all (\<lambda>kv. snd kv \<noteq> [] \<and> ?u (snd kv) = Inr ?e) ?k'"
      using log me(2) by (auto simp: list_all_iff)
    note served = log_broker_serves [OF this, where mb = "100 * 2 ^ 20" and bl = "4 * 2 ^ 20"]
    show ?thesis
      using eventgen_exit_status [where dups = "\<lambda>n. n" and len = 1 and seed = "\<lambda>_. []" and view = log_broker,
          OF scripted_rand_ok codec append_ready built _ _ _ _ refl served, unfolded flat]
      by (simp only: twice) (simp add: me)
  qed
  from run [of "[]"] run [of "[([], [7])]"] show ?thesis
    by (simp add: topic_messages_def one_partition_def decoded_log_def me)
qed

text \<open>
  deliverygen behaves in the same way, and its channel lines add up to the corpus.
\<close>

theorem deliverygen_exit_status:
  assumes rd: "rand_ok rd" and codec: "codec_ok m u" and ready: "topic_ready part wr logs n"
    and built: "build_webhooks rd fl messages minutes now (seed 42) = Some ws"
    and len: "len = length ws" and small: "len \<le> 4000000"
    and delivered: "with_retries rd ws (dups len) (seed 43) = Some ds"
    and marshals: "\<forall>w \<in> set ws. \<exists>v. m w = Inr v"
    and sent: "k' = wp_producer (webhook_ingest_all (delivery_produce m (wr (new_delivery_producer broker topic))) ds
      (new_webhook_pipeline new_webhook_dedup k))"
    and served: "topic_served (100 * 2 ^ 20) (4 * 2 ^ 20) u n (view k') (logs k')"
  shows "deliverygen_run rd fl seed m u wr view cv broker topic messages minutes now dups k =
      Some (Inr \<lparr>gr_unique = len, gr_delivered = len + dups len,
        gr_sent = \<lparr>sc_accepted = len, sc_rejected = dups len, sc_errors = 0\<rparr>,
        gr_got = length (topic_messages u n (logs k)) + len, gr_want = len,
        gr_exit = (if topic_messages u n (logs k) = [] then 0 else 1),
        dr_channels = channel_lines ws, dr_note = ensure_topic cv broker topic 6\<rparr>) \<and>
    sum_list (map snd (channel_lines ws)) = len"
proof -
  let ?cfg = "new_delivery_producer broker topic"
  let ?p = "new_webhook_pipeline new_webhook_dedup k" and ?produce = "keyed_produce message_id m (wr ?cfg)"
  obtain r1 where b: "build_messages rd fl minutes now 0 messages (seed 42) = Some (ws, r1)"
    using built by (auto simp: build_webhooks_def)
  obtain r2 where "resend_some rd ws (dups len) (seed 43) = Some (ds, r2)"
    using delivered by (auto simp: with_retries_def)
  from resend_some_mset [OF rd this] have s: "set ds = set ws \<and> length ds = length ws + dups len" .
  have p: "wp_dedup ?p = new_webhook_dedup" "wp_producer ?p = k" by (simp_all add: new_webhook_pipeline_def)
  have k': "k' = wp_producer (fold (\<lambda>e p. snd (webhook_ingest ?produce e p)) ds ?p)"
    by (simp add: sent webhook_ingest_all_def keyed_producers)
  note lands = wh.corpus_lands [OF p(1) build_messages_distinct [OF b] len [symmetric] small [folded max_webhook_ids_def] s
      codec ready ready_writers(2) [OF ready] marshals k', unfolded p(2), folded webhook_reference_first_occ]
  note cmp = landed_comparison [OF lands [THEN conjunct1] lands [THEN conjunct2, THEN conjunct1] len [symmetric]]
  have "consume_available_delivery u (view k') = Inr (topic_messages u n (logs k'))"
    using consume_served_topic [OF served] by (simp add: consume_available_delivery_def read_delivery_partition_def)
  with lands cmp(1,2) cmp(3) [where key = webhook_id] s channel_lines_total [OF build_messages_channels [OF rd b]] show ?thesis
    by (simp add: deliverygen_run_def built len [symmetric] delivered send_webhooks_results webhook_id_set_def Let_def
        sent [unfolded keyed_producers, symmetric] keyed_producers)
qed

end
