(* ===== verification/Go_Text.thy ===== *)
theory Go_Text
  imports Go_Format
begin

text \<open>
  The texts the program writes with the standard library: dates in UTC (time.Format with the layouts
  of the event stores) and strings and flat objects in JSON (encoding/json with HTML escaping, as
  json.Encoder has it). Each comes with a reader and the round trip, because a server that is sent
  such a text reads it back.
\<close>

section \<open>Calendar dates\<close>

definition is_leap :: "int \<Rightarrow> bool" where
  "is_leap y \<longleftrightarrow> y mod 4 = 0 \<and> (y mod 100 \<noteq> 0 \<or> y mod 400 = 0)"

definition days_before :: "int list" where
  "days_before = [0, 31, 59, 90, 120, 151, 181, 212, 243, 273, 304, 334, 365]"

text \<open>
  The year and the day of the year of a day counted from January 1 of year 1: cycles of 400, 100, 4
  and 1 years are taken off in turn, and the last day of a long cycle stays in it.
\<close>

definition year_yday :: "int \<Rightarrow> int \<times> int" where
  "year_yday d =
     (let n = d div 146097; d0 = d mod 146097;
          a = d0 div 36524 - d0 div 36524 div 4; d1 = d0 - 36524 * a;
          b = d1 div 1461; d2 = d1 - 1461 * b;
          c = d2 div 365 - d2 div 365 div 4
      in (400 * n + 100 * a + 4 * b + c + 1, d2 - 365 * c))"

definition month_mday :: "bool \<Rightarrow> int \<Rightarrow> int \<times> int" where
  "month_mday leap yday =
     (if leap \<and> yday = 59 then (2, 29)
      else
        let day = (if leap \<and> yday > 59 then yday - 1 else yday);
            m = day div 31;
            end_day = days_before ! nat (m + 1)
        in if day \<ge> end_day then (m + 2, day - end_day + 1)
           else (m + 1, day - days_before ! nat m + 1))"

definition date_of_day :: "int \<Rightarrow> int \<times> int \<times> int" where
  "date_of_day d = (let (y, yd) = year_yday d; (m, md) = month_mday (is_leap y) yd in (y, m, md))"

definition day_of_date :: "int \<Rightarrow> int \<Rightarrow> int \<Rightarrow> int" where
  "day_of_date y m md =
     365 * (y - 1) + (y - 1) div 4 - (y - 1) div 100 + (y - 1) div 400
     + days_before ! nat (m - 1) + (if is_leap y \<and> m > 2 then 1 else 0) + md - 1"

lemma cycle_bounds:
  fixes r q k :: int
  assumes "0 < q" "0 \<le> r" "r \<le> 4 * q" and k: "k = r div q - r div q div 4"
  shows "0 \<le> k \<and> k \<le> 3 \<and> 0 \<le> r - q * k \<and> (k < 3 \<longrightarrow> r - q * k < q)"
proof -
  define e where "e = r div q"
  have "r = q * e + r mod q" by (simp add: e_def)
  moreover have "0 \<le> r mod q" "r mod q < q" using assms(1) by simp_all
  ultimately have e: "q * e \<le> r" "r < q * e + q" by linarith+
  have "0 \<le> e" using assms(1,2) by (simp add: e_def pos_imp_zdiv_nonneg_iff)
  moreover have "e \<le> 4"
  proof (rule ccontr)
    assume "\<not> e \<le> 4"
    then have "q * 5 \<le> q * e" using assms(1) by simp
    with e(1) assms(1,3) show False by linarith
  qed
  ultimately consider "e = 0" | "e = 1" | "e = 2" | "e = 3" | "e = 4" by linarith
  then show ?thesis
  proof cases
    case 5
    then have "k = 3" by (simp add: k flip: e_def)
    with 5 e assms(1) show ?thesis by simp
  qed (use e assms(2) in \<open>simp_all add: k flip: e_def\<close>)
qed

text \<open>The cycles of a day: which they are, and that they count it exactly.\<close>

lemma year_yday_cycles:
  assumes "year_yday d = (y, yd)"
  obtains n a b c where
    "y = 400 * n + 100 * a + 4 * b + c + 1"
    "d = 146097 * n + 36524 * a + 1461 * b + 365 * c + yd"
    "0 \<le> a" "a \<le> 3" "0 \<le> b" "b \<le> 24" "0 \<le> c" "c \<le> 3"
    "0 \<le> yd" "yd < 365 \<or> (yd = 365 \<and> c = 3 \<and> (b < 24 \<or> a = 3))"
proof -
  define n where "n = d div 146097"
  define d0 where "d0 = d mod 146097"
  define a where "a = d0 div 36524 - d0 div 36524 div 4"
  define d1 where "d1 = d0 - 36524 * a"
  define b where "b = d1 div 1461"
  define d2 where "d2 = d1 - 1461 * b"
  define c where "c = d2 div 365 - d2 div 365 div 4"
  have "(400 * n + 100 * a + 4 * b + c + 1, d2 - 365 * c) = (y, yd)"
    unfolding assms [symmetric] year_yday_def Let_def d2_def c_def b_def d1_def a_def d0_def n_def by (rule refl)
  then have y: "y = 400 * n + 100 * a + 4 * b + c + 1" and yd_def: "yd = d2 - 365 * c" by simp_all
  have "0 \<le> d0" "d0 < 146097" by (simp_all add: d0_def)
  then have "d0 \<le> 4 * 36524" by simp
  from cycle_bounds [OF _ \<open>0 \<le> d0\<close> this a_def]
  have a: "0 \<le> a" "a \<le> 3" "0 \<le> d1" "a < 3 \<Longrightarrow> d1 < 36524" by (simp_all add: d1_def)
  have a5: "d1 \<le> 36524"
  proof (cases "a = 3")
    case True
    with \<open>d0 < 146097\<close> show ?thesis by (simp add: d1_def)
  qed (use a in linarith)
  have bd: "1461 * b + d2 = d1" "0 \<le> d2" "d2 < 1461" by (simp_all add: d2_def b_def minus_mult_div_eq_mod)
  then have b: "0 \<le> b" "b \<le> 24" using a a5 by linarith+
  have "d2 \<le> 4 * 365" using bd(3) by simp
  from cycle_bounds [OF _ bd(2) this c_def]
  have c: "0 \<le> c" "c \<le> 3" "0 \<le> yd" "c < 3 \<Longrightarrow> yd < 365" by (simp_all add: yd_def)
  have c5: "yd \<le> 365"
  proof (cases "c = 3")
    case True
    with bd(3) show ?thesis by (simp add: yd_def)
  qed (use c in linarith)
  have last: "yd < 365 \<or> (yd = 365 \<and> c = 3 \<and> (b < 24 \<or> a = 3))"
  proof (rule ccontr)
    assume "\<not> ?thesis"
    with c c5 a b have "yd = 365" "c = 3" "b = 24" "a < 3" by linarith+
    with a(4) bd(1) show False by (simp add: yd_def)
  qed
  have "d = 146097 * n + d0" by (simp add: n_def d0_def)
  then have "d = 146097 * n + 36524 * a + 1461 * b + 365 * c + yd"
    by (simp add: d1_def d2_def yd_def)
  then show ?thesis using a(1,2) b c(1,2,3) last that [of n a b c] y by simp
qed

lemma leap_of_cycles:
  fixes a b c n :: int
  assumes "0 \<le> a" "a \<le> 3" "0 \<le> b" "b \<le> 24" "0 \<le> c" "c \<le> 3"
  shows "is_leap (400 * n + 100 * a + 4 * b + c + 1) \<longleftrightarrow> c = 3 \<and> (b < 24 \<or> a = 3)"
proof -
  let ?y = "400 * n + 100 * a + 4 * b + c + 1"
  have "?y = 4 * (100 * n + 25 * a + b) + (c + 1)" by (simp add: algebra_simps)
  then have m4: "?y mod 4 = (c + 1) mod 4" by (simp only: mod_mult_self4)
  have "?y = 100 * (4 * n + a) + (4 * b + c + 1)" by (simp add: algebra_simps)
  then have m100: "?y mod 100 = (4 * b + c + 1) mod 100" by (simp only: mod_mult_self4)
  have "?y = 400 * n + (100 * a + 4 * b + c + 1)" by (simp add: algebra_simps)
  then have m400: "?y mod 400 = (100 * a + 4 * b + c + 1) mod 400" by (simp only: mod_mult_self4)
  have a: "a = 0 \<or> a = 1 \<or> a = 2 \<or> a = 3" using assms by linarith
  have c: "(c + 1) mod 4 = 0 \<longleftrightarrow> c = 3" using assms by (cases "c = 3") simp_all
  show ?thesis
  proof (cases "b = 24")
    case True
    have "c = 3 \<Longrightarrow> (4 * b + c + 1) mod 100 = 0" using True by simp
    moreover have "c = 3 \<Longrightarrow> (100 * a + 4 * b + c + 1) mod 400 = 0 \<longleftrightarrow> a = 3"
      using True a by (elim disjE) simp_all
    ultimately show ?thesis using True unfolding is_leap_def m4 m100 m400 c by auto
  next
    case False
    then have "(4 * b + c + 1) mod 100 = 4 * b + c + 1" using assms by simp
    then have "(4 * b + c + 1) mod 100 \<noteq> 0" using assms by simp
    then show ?thesis using False assms unfolding is_leap_def m4 m100 c by simp
  qed
qed

definition month_exact :: "bool \<Rightarrow> int \<Rightarrow> bool" where
  "month_exact leap yd =
     (let (m, md) = month_mday leap yd
      in 1 \<le> m \<and> m \<le> 12 \<and> 1 \<le> md \<and> md \<le> 31 \<and>
         days_before ! nat (m - 1) + (if leap \<and> m > 2 then 1 else 0) + md - 1 = yd)"

lemma month_exact_table: "list_all (month_exact True) [0..365]" "list_all (month_exact False) [0..364]"
  by code_simp+

lemma month_exact:
  assumes "0 \<le> yd" and "yd < 365 \<or> yd = 365 \<and> leap"
  shows "month_exact leap yd"
  using assms month_exact_table by (cases leap) (auto simp: list_all_iff)

lemma day_of_date_of_day:
  assumes "date_of_day d = (y, m, md)"
  shows "day_of_date y m md = d \<and> 1 \<le> m \<and> m \<le> 12 \<and> 1 \<le> md \<and> md \<le> 31"
proof -
  obtain yd where yd: "year_yday d = (y, yd)" "month_mday (is_leap y) yd = (m, md)"
    using assms by (auto simp: date_of_day_def split: prod.splits)
  obtain n a b c where c: "y = 400 * n + 100 * a + 4 * b + c + 1"
    "d = 146097 * n + 36524 * a + 1461 * b + 365 * c + yd"
    "0 \<le> a" "a \<le> 3" "0 \<le> b" "b \<le> 24" "0 \<le> c" "c \<le> 3"
    "0 \<le> yd" "yd < 365 \<or> (yd = 365 \<and> c = 3 \<and> (b < 24 \<or> a = 3))"
    using year_yday_cycles [OF yd(1)] .
  have leap: "is_leap y \<longleftrightarrow> c = 3 \<and> (b < 24 \<or> a = 3)"
    using c(3-8) by (simp add: c(1) leap_of_cycles)
  have "month_exact (is_leap y) yd" using c(9,10) leap by (intro month_exact) auto
  with yd(2) have e: "days_before ! nat (m - 1) + (if is_leap y \<and> m > 2 then 1 else 0) + md - 1 = yd"
    and m: "1 \<le> m \<and> m \<le> 12 \<and> 1 \<le> md \<and> md \<le> 31"
    by (simp_all add: month_exact_def)
  have y1: "y - 1 = 4 * (100 * n + 25 * a + b) + c" "y - 1 = 100 * (4 * n + a) + (4 * b + c)"
    "y - 1 = 400 * n + (100 * a + 4 * b + c)"
    using c(1) by (simp_all add: algebra_simps)
  have "(y - 1) div 4 = 100 * n + 25 * a + b"
    unfolding y1(1) using c(7,8) by simp
  moreover have "(y - 1) div 100 = 4 * n + a"
    unfolding y1(2) using c(5-8) by simp
  moreover have "(y - 1) div 400 = n"
    unfolding y1(3) using c(3-8) by simp
  ultimately have "day_of_date y m md = 365 * (y - 1) + (100 * n + 25 * a + b) - (4 * n + a) + n + yd"
    unfolding day_of_date_def using e by linarith
  also have "\<dots> = d" using c(1,2) by simp
  finally show ?thesis using m by simp
qed

text \<open>Days from January 1 of year 1 to December 31 of year 9999 have a year of four digits at most.\<close>

lemma year_of_day_bounds:
  assumes "date_of_day d = (y, m, md)" and "0 \<le> d" and "d < 3652059"
  shows "1 \<le> y \<and> y \<le> 9999"
proof -
  obtain yd where yd: "year_yday d = (y, yd)" "month_mday (is_leap y) yd = (m, md)"
    using assms(1) by (auto simp: date_of_day_def split: prod.splits)
  obtain n a b c where c: "y = 400 * n + 100 * a + 4 * b + c + 1"
    "d = 146097 * n + 36524 * a + 1461 * b + 365 * c + yd"
    "0 \<le> a" "a \<le> 3" "0 \<le> b" "b \<le> 24" "0 \<le> c" "c \<le> 3"
    "0 \<le> yd" "yd < 365 \<or> (yd = 365 \<and> c = 3 \<and> (b < 24 \<or> a = 3))"
    using year_yday_cycles [OF yd(1)] .
  have "0 \<le> n"
  proof (rule ccontr)
    assume "\<not> 0 \<le> n"
    then have "n \<le> -1" by simp
    with c(2-10) assms(2) show False by linarith
  qed
  moreover have "y \<le> 9999"
  proof (rule ccontr)
    assume "\<not> y \<le> 9999"
    then have "9999 \<le> 400 * n + 100 * a + 4 * b + c" using c(1) by simp
    moreover from this c(3-8) have "24 \<le> n" by linarith
    ultimately show False using c(2-9) assms(3) by linarith
  qed
  ultimately show ?thesis using c(1,3,5,7) by simp
qed

section \<open>Time as text\<close>

text \<open>A number as time.Format pads it: the sign does not count for the width.\<close>

definition pad_int :: "nat \<Rightarrow> int \<Rightarrow> string" where
  "pad_int w i =
     (let ds = show_nat (nat \<bar>i\<bar>)
      in (if i < 0 then ''-'' else []) @ replicate (w - length ds) CHR ''0'' @ ds)"

text \<open>The text of a time given in milliseconds since 1970, in UTC.\<close>

definition date_text :: "int \<Rightarrow> string" where
  "date_text ms =
     (case date_of_day (ms div 86400000 + 719162) of
        (y, m, d) \<Rightarrow> pad_int 4 y @ ''-'' @ pad_int 2 m @ ''-'' @ pad_int 2 d)"

definition clock_text :: "int \<Rightarrow> string" where
  "clock_text ms =
     (let s = ms div 1000 mod 86400
      in pad_int 2 (s div 3600) @ '':'' @ pad_int 2 (s mod 3600 div 60) @ '':'' @ pad_int 2 (s mod 60))"

definition time_text_s :: "int \<Rightarrow> string" where
  "time_text_s ms = date_text ms @ '' '' @ clock_text ms"

definition time_text_ms :: "int \<Rightarrow> string" where
  "time_text_ms ms = time_text_s ms @ ''.'' @ pad_int 3 (ms mod 1000)"

definition time_text_rfc3339 :: "int \<Rightarrow> string" where
  "time_text_rfc3339 ms = date_text ms @ ''T'' @ clock_text ms @ ''Z''"

definition read_time_ms :: "string \<Rightarrow> int option" where
  "read_time_ms t =
     (if length t = 23 then
        (let num = (\<lambda>k w. int (digits_value (take w (drop k t))))
         in Some (86400000 * (day_of_date (num 0 4) (num 5 2) (num 8 2) - 719162)
              + 1000 * (3600 * num 11 2 + 60 * num 14 2 + num 17 2) + num 20 3))
      else None)"

lemma length_show_nat: "n < 10 ^ w \<Longrightarrow> 0 < w \<Longrightarrow> length (show_nat n) \<le> w"
proof (induction w arbitrary: n)
  case (Suc w)
  show ?case
  proof (cases "n < 10")
    case True
    then show ?thesis by (subst show_nat.simps) simp
  next
    case False
    then have "0 < w" using Suc.prems by (cases w) simp_all
    moreover have "n div 10 < 10 ^ w" using Suc.prems by (simp add: less_mult_imp_div_less mult.commute)
    ultimately show ?thesis using False Suc.IH [of "n div 10"] by (subst show_nat.simps) simp
  qed
qed simp

lemma pad_int_fits:
  assumes "0 \<le> i" and "i < 10 ^ w" and "0 < w"
  shows "length (pad_int w i) = w" "int (digits_value (pad_int w i)) = i"
proof -
  have "nat i < 10 ^ w" using assms by (simp add: nat_less_iff)
  with assms have "length (show_nat (nat i)) \<le> w" by (intro length_show_nat)
  with assms(1) show "length (pad_int w i) = w" "int (digits_value (pad_int w i)) = i"
    by (simp_all add: pad_int_def Let_def digits_value_zeros)
qed

lemmas pad_fits_2 = pad_int_fits [of _ 2, simplified]
lemmas pad_fits_3 = pad_int_fits [of _ 3, simplified]
lemmas pad_fits_4 = pad_int_fits [of _ 4, simplified]

lemma read_layout:
  assumes "length y = 4" "length mo = 2" "length d = 2" "length h = 2" "length mi = 2" "length s = 2" "length f = 3"
  shows "read_time_ms (((y @ ''-'' @ mo @ ''-'' @ d) @ '' '' @ (h @ '':'' @ mi @ '':'' @ s)) @ ''.'' @ f) =
    Some (86400000 * (day_of_date (int (digits_value y)) (int (digits_value mo)) (int (digits_value d)) - 719162)
      + 1000 * (3600 * int (digits_value h) + 60 * int (digits_value mi) + int (digits_value s))
      + int (digits_value f))"
  using assms by (simp add: read_time_ms_def Let_def)

text \<open>
  Round trip of the timestamps of the event stores: what is written for a time between 1970 and 9999
  is read back as that time, to the millisecond.
\<close>

lemma read_time_text_ms:
  assumes "0 \<le> ms" and "ms < 253402300800000"
  shows "read_time_ms (time_text_ms ms) = Some ms"
proof -
  define dn where "dn = ms div 86400000"
  define sd where "sd = ms div 1000 mod 86400"
  have dn: "0 \<le> dn" "dn < 2932897" using assms by (simp_all add: dn_def pos_imp_zdiv_nonneg_iff div_less_iff_less_mult)
  obtain y m d where ymd: "date_of_day (dn + 719162) = (y, m, d)" by (metis prod_cases3)
  note b = day_of_date_of_day [OF ymd]
  have y: "1 \<le> y" "y \<le> 9999" using year_of_day_bounds [OF ymd] dn by simp_all
  have sd: "0 \<le> sd" "sd < 86400" by (simp_all add: sd_def)
  then have h: "0 \<le> sd div 3600" "sd div 3600 < 24"
    by (simp_all add: pos_imp_zdiv_nonneg_iff div_less_iff_less_mult)
  have mi: "0 \<le> sd mod 3600 div 60" "sd mod 3600 div 60 < 60"
    by (simp_all add: pos_imp_zdiv_nonneg_iff div_less_iff_less_mult)
  have clock: "3600 * (sd div 3600) + 60 * (sd mod 3600 div 60) + sd mod 60 = sd"
  proof -
    have "sd mod 60 = sd mod 3600 mod 60" by (simp add: mod_mod_cancel)
    moreover have "60 * (sd mod 3600 div 60) + sd mod 3600 mod 60 = sd mod 3600" by simp
    ultimately show ?thesis by (simp add: add.assoc)
  qed
  have total: "86400000 * dn + 1000 * sd + ms mod 1000 = ms"
  proof -
    have "dn = ms div 1000 div 86400" by (simp add: dn_def flip: zdiv_zmult2_eq)
    then have "86400 * dn + sd = ms div 1000" by (simp add: sd_def)
    then have "86400000 * dn + 1000 * sd = 1000 * (ms div 1000)" by linarith
    then show ?thesis by simp
  qed
  have s: "0 \<le> sd mod 60" "sd mod 60 < 60" by simp_all
  have f: "0 \<le> ms mod 1000" "ms mod 1000 < 1000" by simp_all
  have fy: "length (pad_int 4 y) = 4" "int (digits_value (pad_int 4 y)) = y"
    by (rule pad_fits_4; use y in linarith)+
  have fm: "length (pad_int 2 m) = 2" "int (digits_value (pad_int 2 m)) = m"
    by (rule pad_fits_2; use b in linarith)+
  have fd: "length (pad_int 2 d) = 2" "int (digits_value (pad_int 2 d)) = d"
    by (rule pad_fits_2; use b in linarith)+
  have fh: "length (pad_int 2 (sd div 3600)) = 2" "int (digits_value (pad_int 2 (sd div 3600))) = sd div 3600"
    by (rule pad_fits_2; use h in linarith)+
  have fi: "length (pad_int 2 (sd mod 3600 div 60)) = 2" "int (digits_value (pad_int 2 (sd mod 3600 div 60))) = sd mod 3600 div 60"
    by (rule pad_fits_2; use mi in linarith)+
  have fs: "length (pad_int 2 (sd mod 60)) = 2" "int (digits_value (pad_int 2 (sd mod 60))) = sd mod 60"
    by (rule pad_fits_2; use s in linarith)+
  have ff: "length (pad_int 3 (ms mod 1000)) = 3" "int (digits_value (pad_int 3 (ms mod 1000))) = ms mod 1000"
    by (rule pad_fits_3; use f in linarith)+
  have layout: "time_text_ms ms = ((pad_int 4 y @ ''-'' @ pad_int 2 m @ ''-'' @ pad_int 2 d) @ '' '' @
      (pad_int 2 (sd div 3600) @ '':'' @ pad_int 2 (sd mod 3600 div 60) @ '':'' @ pad_int 2 (sd mod 60))) @
      ''.'' @ pad_int 3 (ms mod 1000)"
    unfolding time_text_ms_def time_text_s_def date_text_def clock_text_def Let_def
      dn_def [symmetric] sd_def [symmetric] ymd by (simp only: prod.case)
  have "read_time_ms (time_text_ms ms) = Some (86400000 * (day_of_date y m d - 719162)
      + 1000 * (3600 * (sd div 3600) + 60 * (sd mod 3600 div 60) + sd mod 60) + ms mod 1000)"
    unfolding layout by (simp only: read_layout [OF fy(1) fm(1) fd(1) fh(1) fi(1) fs(1) ff(1)]
        fy(2) fm(2) fd(2) fh(2) fi(2) fs(2) ff(2))
  also have "\<dots> = Some ms" using b total by (simp only: clock) simp
  finally show ?thesis .
qed

section \<open>Strings in JSON\<close>

abbreviation quote :: char where "quote \<equiv> CHR 0x22"
abbreviation backslash :: char where "backslash \<equiv> CHR 0x5C"

definition cont_byte :: "nat \<Rightarrow> bool" where
  "cont_byte b \<longleftrightarrow> 128 \<le> b \<and> b < 192"

definition nth_byte :: "string \<Rightarrow> nat \<Rightarrow> nat" where
  "nth_byte s i = (if i < length s then of_char (s ! i) else 0)"

text \<open>The width of the UTF-8 sequence a string begins with, 0 when it begins with none (unicode/utf8).\<close>

definition utf8_width :: "string \<Rightarrow> nat" where
  "utf8_width s =
     (let b = nth_byte s 0; c1 = nth_byte s 1; c2 = nth_byte s 2; c3 = nth_byte s 3
      in if s = [] then 0
         else if b < 128 then 1
         else if 194 \<le> b \<and> b < 224 \<and> cont_byte c1 then 2
         else if 224 \<le> b \<and> b < 240 \<and> cont_byte c1 \<and> (b = 224 \<longrightarrow> 160 \<le> c1) \<and> (b = 237 \<longrightarrow> c1 < 160)
             \<and> cont_byte c2 then 3
         else if 240 \<le> b \<and> b < 245 \<and> cont_byte c1 \<and> (b = 240 \<longrightarrow> 144 \<le> c1) \<and> (b = 244 \<longrightarrow> c1 < 144)
             \<and> cont_byte c2 \<and> cont_byte c3 then 4
         else 0)"

definition hex_char :: "nat \<Rightarrow> char" where
  "hex_char n = (if n < 10 then digit_char n else char_of (87 + n))"

definition hex_val :: "char \<Rightarrow> nat" where
  "hex_val c = (if is_digit c then digit_val c else of_char c - 87)"

text \<open>One ASCII character: the two-character escapes, \u00XX for control characters and HTML.\<close>

definition json_ascii :: "char \<Rightarrow> string" where
  "json_ascii c =
     (let b = of_char c
      in if c = quote \<or> c = backslash then [backslash, c]
         else if b = 8 then [backslash, CHR ''b'']
         else if b = 12 then [backslash, CHR ''f'']
         else if b = 10 then [backslash, CHR ''n'']
         else if b = 13 then [backslash, CHR ''r'']
         else if b = 9 then [backslash, CHR ''t'']
         else if b < 32 \<or> c = CHR ''<'' \<or> c = CHR ''>'' \<or> c = CHR ''&''
           then [backslash, CHR ''u'', CHR ''0'', CHR ''0'', hex_char (b div 16), hex_char (b mod 16)]
         else [c])"

text \<open>
  The inside of a JSON string. Bytes that are no UTF-8 become the escape of U+FFFD, the two line
  separators of JavaScript are escaped, any other rune is copied.
\<close>

function json_chars :: "string \<Rightarrow> string" where
  "json_chars [] = []"
| "json_chars (c # cs) =
     (let w = utf8_width (c # cs)
      in if w = 0 then backslash # ''ufffd'' @ json_chars cs
         else if w = 1 then json_ascii c @ json_chars cs
         else if take 3 (c # cs) = [CHR 0xE2, CHR 0x80, CHR 0xA8] then backslash # ''u2028'' @ json_chars (drop 2 cs)
         else if take 3 (c # cs) = [CHR 0xE2, CHR 0x80, CHR 0xA9] then backslash # ''u2029'' @ json_chars (drop 2 cs)
         else take w (c # cs) @ json_chars (drop (w - 1) cs))"
  by pat_completeness auto
termination
  by (relation "measure length") (auto simp: less_Suc_eq_le)

definition json_string :: "string \<Rightarrow> string" where
  "json_string s = quote # json_chars s @ [quote]"

text \<open>An object whose values are given as their JSON texts.\<close>

fun json_fields :: "char \<Rightarrow> (string \<times> string) list \<Rightarrow> string" where
  "json_fields sep [] = []"
| "json_fields sep ((k, v) # kvs) = sep # json_string k @ '':'' @ v @ json_fields CHR '','' kvs"

definition json_object :: "(string \<times> string) list \<Rightarrow> string" where
  "json_object kvs = (if kvs = [] then ''{'' else []) @ json_fields CHR ''{'' kvs @ ''}''"

section \<open>Reading JSON strings\<close>

definition unescape_char :: "char \<Rightarrow> char" where
  "unescape_char e =
     (if e = CHR ''b'' then char_of (8::nat) else if e = CHR ''f'' then char_of (12::nat)
      else if e = CHR ''n'' then char_of (10::nat) else if e = CHR ''r'' then char_of (13::nat)
      else if e = CHR ''t'' then char_of (9::nat) else e)"

text \<open>The escapes \uXXXX that the encoder writes: one byte, or a line separator.\<close>

definition unescape_hex :: "char \<Rightarrow> char \<Rightarrow> char \<Rightarrow> char \<Rightarrow> string" where
  "unescape_hex h1 h2 h3 h4 =
     (if [h1, h2, h3, h4] = ''2028'' then [CHR 0xE2, CHR 0x80, CHR 0xA8]
      else if [h1, h2, h3, h4] = ''2029'' then [CHR 0xE2, CHR 0x80, CHR 0xA9]
      else [char_of (16 * hex_val h3 + hex_val h4)])"

fun json_unescape :: "string \<Rightarrow> (string \<times> string) option" where
  "json_unescape [] = None"
| "json_unescape (c # cs) =
     (if c = quote then Some ([], cs)
      else if c \<noteq> backslash then map_option (apfst (Cons c)) (json_unescape cs)
      else
        (case cs of
           [] \<Rightarrow> None
         | e # es \<Rightarrow>
             if e \<noteq> CHR ''u'' then map_option (apfst (Cons (unescape_char e))) (json_unescape es)
             else
               (case es of
                  h1 # h2 # h3 # h4 # r \<Rightarrow>
                    map_option (apfst (append (unescape_hex h1 h2 h3 h4))) (json_unescape r)
                | _ \<Rightarrow> None)))"

text \<open>Strings whose bytes are valid UTF-8, as protobuf and encoding/json guarantee of theirs.\<close>

function utf8_ok :: "string \<Rightarrow> bool" where
  "utf8_ok [] = True"
| "utf8_ok (c # cs) = (utf8_width (c # cs) \<noteq> 0 \<and> utf8_ok (drop (utf8_width (c # cs) - 1) cs))"
  by pat_completeness auto
termination
  by (relation "measure length") (auto simp: less_Suc_eq_le)

lemma json_unescape_plain:
  "c \<noteq> quote \<Longrightarrow> c \<noteq> backslash \<Longrightarrow> json_unescape (c # t) = map_option (apfst (Cons c)) (json_unescape t)"
  by simp

lemma json_unescape_copy:
  assumes "\<forall>c \<in> set p. 128 \<le> (of_char c :: nat)"
  shows "json_unescape (p @ t) = map_option (apfst (append p)) (json_unescape t)"
  using assms
proof (induction p)
  case Nil
  show ?case by (cases "json_unescape t") auto
next
  case (Cons c p)
  then have "c \<noteq> quote" "c \<noteq> backslash" by auto
  with Cons show ?case by (cases "json_unescape t") auto
qed

lemma hex_val_hex_char: "n < 16 \<Longrightarrow> hex_val (hex_char n) = n"
proof (cases "n < 10")
  case False
  assume "n < 16"
  with False show ?thesis by (simp add: hex_val_def hex_char_def is_digit_def)
qed (simp add: hex_val_def hex_char_def)

lemma append_singleton: "(@) [c] = (#) c"
  by (rule ext) simp

lemma of_char_eq: "(of_char c :: nat) = n \<Longrightarrow> c = char_of n"
  by auto

lemma json_unescape_ascii:
  assumes "(of_char c :: nat) < 128"
  shows "json_unescape (json_ascii c @ t) = map_option (apfst (Cons c)) (json_unescape t)"
proof -
  let ?b = "of_char c :: nat"
  have u: "char_of (16 * hex_val (hex_char (?b div 16)) + hex_val (hex_char (?b mod 16))) = c"
    using assms by (simp add: hex_val_hex_char)
  consider "c = quote \<or> c = backslash" | "?b = 8" | "?b = 12" | "?b = 10" | "?b = 13" | "?b = 9"
    | "c \<noteq> quote" "c \<noteq> backslash" "?b \<notin> {8, 9, 10, 12, 13}"
    by blast
  then show ?thesis
  proof cases
    case 7
    then show ?thesis by (simp add: json_ascii_def Let_def unescape_hex_def u append_singleton)
  qed (use of_char_eq [of c] in \<open>auto simp: json_ascii_def Let_def unescape_char_def\<close>)
qed

lemma nth_byte_high: "128 \<le> nth_byte s i \<Longrightarrow> i < length s \<and> (of_char (s ! i) :: nat) = nth_byte s i"
  by (simp add: nth_byte_def split: if_splits)

lemma utf8_width_cases:
  "utf8_width s = 0
   \<or> utf8_width s = 1 \<and> s \<noteq> [] \<and> nth_byte s 0 < 128
   \<or> utf8_width s = 2 \<and> 128 \<le> nth_byte s 0 \<and> 128 \<le> nth_byte s 1
   \<or> utf8_width s = 3 \<and> 128 \<le> nth_byte s 0 \<and> 128 \<le> nth_byte s 1 \<and> 128 \<le> nth_byte s 2
   \<or> utf8_width s = 4 \<and> 128 \<le> nth_byte s 0 \<and> 128 \<le> nth_byte s 1 \<and> 128 \<le> nth_byte s 2 \<and> 128 \<le> nth_byte s 3"
  by (simp add: utf8_width_def Let_def cont_byte_def)

lemma utf8_width_high:
  assumes "1 < utf8_width s" and "i < utf8_width s"
  shows "128 \<le> nth_byte s i"
proof -
  have "i = 0 \<or> i = 1 \<or> i = 2 \<or> i = 3" if "i < 4" using that by linarith
  with utf8_width_cases [of s] assms show ?thesis by (elim disjE conjE) auto
qed

lemma utf8_width_le: "utf8_width s \<le> length s"
proof (cases "1 < utf8_width s")
  case True
  then have "utf8_width s - 1 < length s"
    using utf8_width_high [of s "utf8_width s - 1"] nth_byte_high by simp
  with True show ?thesis by linarith
next
  case False
  with utf8_width_cases [of s] show ?thesis by (cases s) auto
qed

lemma utf8_width_copy:
  assumes "1 < utf8_width s"
  shows "\<forall>c \<in> set (take (utf8_width s) s). 128 \<le> (of_char c :: nat)"
proof
  fix c assume "c \<in> set (take (utf8_width s) s)"
  then obtain i where "i < utf8_width s" "c = s ! i" by (auto simp: in_set_conv_nth)
  with utf8_width_high [OF assms] nth_byte_high show "128 \<le> (of_char c :: nat)" by metis
qed

text \<open>Round trip: what the encoder writes between the quotes is read back as the string.\<close>

lemma json_unescape_chars:
  "utf8_ok s \<Longrightarrow> json_unescape (json_chars s @ quote # t) = Some (s, t)"
proof (induction s rule: utf8_ok.induct)
  case (2 c cs)
  let ?w = "utf8_width (c # cs)"
  from 2 have IH: "json_unescape (json_chars (drop (?w - 1) cs) @ quote # t) = Some (drop (?w - 1) cs, t)"
    and w: "?w \<noteq> 0" by simp_all
  show ?case
  proof (cases "?w = 1")
    case True
    then have "(of_char c :: nat) < 128" using utf8_width_cases [of "c # cs"] by (simp add: nth_byte_def)
    with True IH show ?thesis by (simp add: Let_def json_unescape_ascii)
  next
    case False
    with w have "1 < ?w" by simp
    note copy = utf8_width_copy [OF this]
    have sep: "?w = 3" if "take 3 (c # cs) = [CHR 0xE2, CHR 0x80, x]" "x = CHR 0xA8 \<or> x = CHR 0xA9" for x
    proof -
      from that obtain r where "c # cs = CHR 0xE2 # CHR 0x80 # x # r"
        by (cases cs; cases "tl cs") auto
      with that(2) show ?thesis
        by (auto simp: utf8_width_def nth_byte_def cont_byte_def Let_def)
    qed
    have eq: "take ?w (c # cs) @ drop (?w - 1) cs = c # cs"
      using \<open>1 < ?w\<close> append_take_drop_id [of ?w "c # cs"] by (cases ?w) simp_all
    consider (a) "take 3 (c # cs) = [CHR 0xE2, CHR 0x80, CHR 0xA8]" | (b) "take 3 (c # cs) = [CHR 0xE2, CHR 0x80, CHR 0xA9]"
      | (n) "take 3 (c # cs) \<noteq> [CHR 0xE2, CHR 0x80, CHR 0xA8]" "take 3 (c # cs) \<noteq> [CHR 0xE2, CHR 0x80, CHR 0xA9]"
      by blast
    then show ?thesis
    proof cases
      case a
      with sep have "?w = 3" by blast
      with a IH eq show ?thesis
        by (simp add: Let_def unescape_hex_def)
    next
      case b
      with sep have "?w = 3" by blast
      with b IH eq show ?thesis
        by (simp add: Let_def unescape_hex_def)
    next
      case n
      with w False have "json_chars (c # cs) = take ?w (c # cs) @ json_chars (drop (?w - 1) cs)"
        by (subst json_chars.simps) (simp only: Let_def if_False)
      then show ?thesis
        using json_unescape_copy [OF copy, of "json_chars (drop (?w - 1) cs) @ quote # t"] IH eq by simp
    qed
  qed
qed simp

text \<open>Reading an object of strings whose names are known, in their order.\<close>

fun strip_prefix :: "string \<Rightarrow> string \<Rightarrow> string option" where
  "strip_prefix [] t = Some t"
| "strip_prefix (c # cs) (d # ds) = (if c = d then strip_prefix cs ds else None)"
| "strip_prefix (c # cs) [] = None"

fun read_fields :: "char \<Rightarrow> string list \<Rightarrow> string \<Rightarrow> (string list \<times> string) option" where
  "read_fields sep [] t = Some ([], t)"
| "read_fields sep (n # ns) t =
     (case strip_prefix (sep # json_string n @ '':'' @ [quote]) t of
        None \<Rightarrow> None
      | Some t1 \<Rightarrow>
          (case json_unescape t1 of
             None \<Rightarrow> None
           | Some (v, t2) \<Rightarrow> map_option (apfst (Cons v)) (read_fields CHR '','' ns t2)))"

definition read_object :: "string list \<Rightarrow> string \<Rightarrow> (string list \<times> string) option" where
  "read_object ns t =
     (case read_fields CHR ''{'' ns t of
        Some (vs, c # r) \<Rightarrow> if c = CHR ''}'' then Some (vs, r) else None
      | _ \<Rightarrow> None)"

lemma strip_prefix_append [simp]: "strip_prefix p (p @ t) = Some t"
  by (induction p) simp_all

lemma strip_prefix_Some: "strip_prefix p s = Some t \<longleftrightarrow> s = p @ t"
  by (induction p s rule: strip_prefix.induct) auto

lemma read_fields_json:
  assumes "\<forall>kv \<in> set kvs. utf8_ok (snd kv)"
  shows "read_fields sep (map fst kvs) (json_fields sep (map (apsnd json_string) kvs) @ t) = Some (map snd kvs, t)"
  using assms
proof (induction kvs arbitrary: sep)
  case (Cons kv kvs)
  obtain k v where kv: "kv = (k, v)" by (cases kv)
  have "strip_prefix (sep # json_string k @ '':'' @ [quote])
      (json_fields sep (map (apsnd json_string) (kv # kvs)) @ t) =
    Some (json_chars v @ quote # json_fields CHR '','' (map (apsnd json_string) kvs) @ t)"
    by (simp add: strip_prefix_Some kv json_string_def)
  with Cons show ?case by (simp add: kv json_unescape_chars)
qed simp

lemma read_object_json:
  assumes "\<forall>kv \<in> set kvs. utf8_ok (snd kv)" and "kvs \<noteq> []"
  shows "read_object (map fst kvs) (json_object (map (apsnd json_string) kvs) @ t) = Some (map snd kvs, t)"
  using read_fields_json [OF assms(1), of "CHR ''{''" "''}'' @ t"] assms(2)
  by (simp add: read_object_def json_object_def)

end
