(* ===== verification/ClickHouse.thy ===== *)
theory ClickHouse
  imports Go_Text Messages "HOL-Library.List_Lexorder" "HOL-Library.Char_ord"
    "HOL-Library.Product_Lexorder"
begin

text \<open>
  internal/deliverystats/clickhouse.go and internal/segment/clickhouse.go: the HTTP clients of the
  event stores. The statements are texts, built as the code builds them; the server is a function
  from a statement to an outcome and a new state. Response bodies are of a type 'b, which the client
  decodes with the functions of its environment; the rows it sends are the texts encoding/json writes.
\<close>

section \<open>One request\<close>

datatype 'b http_outcome =
    Transport goerror
  | Response int "goerror + 'b"

type_synonym ('s, 'b) server = "string \<Rightarrow> 's \<Rightarrow> 'b http_outcome \<times> 's"

text \<open>
  How the client reads a body: as text, as a stream of rows (one result of Decode for each), as one
  scalar (Unmarshal, then the number's text); and whether http.NewRequest accepts its URL.
\<close>

record 'b ch_env =
  ce_request_err :: "goerror option"
  ce_body_text :: "'b \<Rightarrow> string"
  ce_rows :: "'b \<Rightarrow> (goerror + (string \<times> string) list) list"
  ce_scalar :: "'b \<Rightarrow> goerror + string"

definition ch_raw :: "'b ch_env \<Rightarrow> ('s, 'b) server \<Rightarrow> string \<Rightarrow> 's \<Rightarrow> (goerror + 'b) \<times> 's" where
  "ch_raw env srv sql s =
     (case ce_request_err env of
        Some e \<Rightarrow> (Inl e, s)
      | None \<Rightarrow>
          (case srv sql s of
             (Transport e, s') \<Rightarrow> (Inl e, s')
           | (Response st (Inl e), s') \<Rightarrow> (Inl e, s')
           | (Response st (Inr body), s') \<Rightarrow>
               (if st \<noteq> 200 then
                  (let snippet = (if length sql > 300 then take 300 sql @ ''...'' else sql)
                   in (Inl (Errno (''clickhouse http '' @ fmt_d st @ '': '' @ ce_body_text env body @
                         '' (query: '' @ snippet @ '')'')), s'))
                else (Inr body, s'))))"

text \<open>A statement of which only the success matters.\<close>

definition ch_exec :: "'b ch_env \<Rightarrow> ('s, 'b) server \<Rightarrow> string \<Rightarrow> 's \<Rightarrow> goerror option \<times> 's" where
  "ch_exec env srv sql s =
     (case ch_raw env srv sql s of (Inl e, s') \<Rightarrow> (Some e, s') | (Inr b, s') \<Rightarrow> (None, s'))"

fun ch_exec_all :: "'b ch_env \<Rightarrow> ('s, 'b) server \<Rightarrow> string list \<Rightarrow> 's \<Rightarrow> goerror option \<times> 's" where
  "ch_exec_all env srv [] s = (None, s)"
| "ch_exec_all env srv (q # qs) s =
     (case ch_exec env srv q s of
        (Some e, s') \<Rightarrow> (Some e, s')
      | (None, s') \<Rightarrow> ch_exec_all env srv qs s')"

abbreviation nl :: string where
  "nl \<equiv> [CHR 0x0A]"

abbreviation json_each_row :: string where
  "json_each_row \<equiv> nl @ ''FORMAT JSONEachRow''"

definition scalar_int :: "'b ch_env \<Rightarrow> ('s, 'b) server \<Rightarrow> string \<Rightarrow> 's \<Rightarrow> (goerror + int) \<times> 's" where
  "scalar_int env srv query s =
     (case ch_raw env srv (query @ json_each_row) s of
        (Inl e, s') \<Rightarrow> (Inl e, s')
      | (Inr body, s') \<Rightarrow>
          (case ce_scalar env body of
             Inl e \<Rightarrow> (Inl (Wrapped (''decode scalar (body: '' @ ce_body_text env body @ '')'') e), s')
           | Inr txt \<Rightarrow>
               (case parse_int64 txt of
                  (n, Some e) \<Rightarrow> (Inl (Wrapped (''parse scalar '' @ txt) e), s')
                | (n, None) \<Rightarrow> (Inr n, s'))))"

section \<open>The delivery store\<close>

definition ensure_database :: "'b ch_env \<Rightarrow> ('s, 'b) server \<Rightarrow> string \<Rightarrow> 's \<Rightarrow> goerror option \<times> 's" where
  "ensure_database env srv db s = ch_exec env srv (''CREATE DATABASE IF NOT EXISTS '' @ db) s"

definition raw_events_ddl :: "string \<Rightarrow> string" where
  "raw_events_ddl db = nl @ ''CREATE TABLE IF NOT EXISTS '' @ db @ ''.delivery_events ('' @ nl @
     ''    webhook_id String,'' @ nl @
     ''    message_id String,'' @ nl @
     ''    channel LowCardinality(String),'' @ nl @
     ''    status LowCardinality(String),'' @ nl @
     ''    timestamp DateTime64(3),'' @ nl @
     ''    provider LowCardinality(String)'' @ nl @
     '') ENGINE = MergeTree'' @ nl @
     ''ORDER BY (channel, status, webhook_id)'' @ nl"

definition rollup_ddl :: "string \<Rightarrow> string" where
  "rollup_ddl db = nl @ ''CREATE TABLE IF NOT EXISTS '' @ db @ ''.delivery_rollup_minute ('' @ nl @
     ''    minute DateTime,'' @ nl @
     ''    channel LowCardinality(String),'' @ nl @
     ''    status LowCardinality(String),'' @ nl @
     ''    event_count UInt64'' @ nl @
     '') ENGINE = SummingMergeTree(event_count)'' @ nl @
     ''ORDER BY (minute, channel, status)'' @ nl"

definition ensure_schema :: "'b ch_env \<Rightarrow> ('s, 'b) server \<Rightarrow> string \<Rightarrow> 's \<Rightarrow> goerror option \<times> 's" where
  "ensure_schema env srv db s =
     (case ensure_database env srv db s of
        (Some e, s') \<Rightarrow> (Some e, s')
      | (None, s') \<Rightarrow> ch_exec_all env srv [raw_events_ddl db, rollup_ddl db] s')"

definition truncate_events_sql :: "string \<Rightarrow> string" where
  "truncate_events_sql db = ''TRUNCATE TABLE IF EXISTS '' @ db @ ''.delivery_events''"

definition truncate_rollup_sql :: "string \<Rightarrow> string" where
  "truncate_rollup_sql db = ''TRUNCATE TABLE IF EXISTS '' @ db @ ''.delivery_rollup_minute''"

definition truncate_all :: "'b ch_env \<Rightarrow> ('s, 'b) server \<Rightarrow> string \<Rightarrow> 's \<Rightarrow> goerror option \<times> 's" where
  "truncate_all env srv db s = ch_exec_all env srv [truncate_events_sql db, truncate_rollup_sql db] s"

text \<open>
  A row for JSONEachRow. The encoder never fails on a struct of strings, so that its error branch in
  InsertBatch has no counterpart.
\<close>

definition webhook_fields :: "delivery_webhook \<Rightarrow> (string \<times> string) list" where
  "webhook_fields w =
     [(''webhook_id'', webhook_id w), (''message_id'', message_id w), (''channel'', channel w),
      (''status'', status w), (''timestamp'', time_text_ms (wh_timestamp_ms w)),
      (''provider'', provider w)]"

definition webhook_row :: "delivery_webhook \<Rightarrow> string" where
  "webhook_row w = json_object (map (apsnd json_string) (webhook_fields w))"

definition encode_rows :: "('m \<Rightarrow> string) \<Rightarrow> 'm list \<Rightarrow> string" where
  "encode_rows row ms = concat (map (\<lambda>m. row m @ nl) ms)"

definition insert_prefix :: "string \<Rightarrow> string" where
  "insert_prefix db = ''INSERT INTO '' @ db @ ''.delivery_events FORMAT JSONEachRow'' @ nl"

definition insert_webhooks ::
  "'b ch_env \<Rightarrow> ('s, 'b) server \<Rightarrow> string \<Rightarrow> delivery_webhook list \<Rightarrow> 's \<Rightarrow> goerror option \<times> 's"
where
  "insert_webhooks env srv db ws s =
     (if ws = [] then (None, s)
      else ch_exec env srv (insert_prefix db @ encode_rows webhook_row ws) s)"

definition refresh_sql :: "string \<Rightarrow> string" where
  "refresh_sql db = nl @ ''INSERT INTO '' @ db @ ''.delivery_rollup_minute'' @ nl @
     ''SELECT toStartOfMinute(timestamp) AS minute, channel, status, count() AS event_count'' @ nl @
     ''FROM '' @ db @ ''.delivery_events'' @ nl @
     ''GROUP BY minute, channel, status'' @ nl"

definition refresh_rollup :: "'b ch_env \<Rightarrow> ('s, 'b) server \<Rightarrow> string \<Rightarrow> 's \<Rightarrow> goerror option \<times> 's" where
  "refresh_rollup env srv db s =
     (case ch_exec env srv (truncate_rollup_sql db) s of
        (Some e, s') \<Rightarrow> (Some e, s')
      | (None, s') \<Rightarrow> ch_exec env srv (refresh_sql db) s')"

record channel_status_count =
  csc_channel :: string
  csc_status :: string
  csc_count :: int

text \<open>The loop over the decoded rows; a missing field decodes to the empty string.\<close>

fun count_rows_loop ::
  "(goerror + (string \<times> string) list) list \<Rightarrow> channel_status_count list \<Rightarrow> goerror + channel_status_count list"
where
  "count_rows_loop [] out = Inr out"
| "count_rows_loop (Inl e # rows) out = Inl (Wrapped ''decode row'' e)"
| "count_rows_loop (Inr row # rows) out =
     (case parse_int64 (attr row ''c'') of
        (n, Some e) \<Rightarrow> Inl (Wrapped (''parse count '' @ attr row ''c'') e)
      | (n, None) \<Rightarrow>
          count_rows_loop rows
            (out @ [\<lparr>csc_channel = attr row ''channel'', csc_status = attr row ''status'', csc_count = n\<rparr>]))"

definition query_counts ::
  "'b ch_env \<Rightarrow> ('s, 'b) server \<Rightarrow> string \<Rightarrow> 's \<Rightarrow> (goerror + channel_status_count list) \<times> 's"
where
  "query_counts env srv query s =
     (case ch_raw env srv (query @ json_each_row) s of
        (Inl e, s') \<Rightarrow> (Inl e, s')
      | (Inr body, s') \<Rightarrow> (count_rows_loop (ce_rows env body) [], s'))"

definition recompute_sql :: "string \<Rightarrow> string" where
  "recompute_sql db = ''SELECT channel, status, count() AS c FROM '' @ db @
     ''.delivery_events GROUP BY channel, status ORDER BY channel, status''"

definition rollup_sql :: "string \<Rightarrow> string" where
  "rollup_sql db = ''SELECT channel, status, sum(event_count) AS c FROM '' @ db @
     ''.delivery_rollup_minute GROUP BY channel, status ORDER BY channel, status''"

definition recompute_counts ::
  "'b ch_env \<Rightarrow> ('s, 'b) server \<Rightarrow> string \<Rightarrow> 's \<Rightarrow> (goerror + channel_status_count list) \<times> 's"
where
  "recompute_counts env srv db s = query_counts env srv (recompute_sql db) s"

definition rollup_counts ::
  "'b ch_env \<Rightarrow> ('s, 'b) server \<Rightarrow> string \<Rightarrow> 's \<Rightarrow> (goerror + channel_status_count list) \<times> 's"
where
  "rollup_counts env srv db s = query_counts env srv (rollup_sql db) s"

definition dashboard_raw_sql :: "string \<Rightarrow> int \<Rightarrow> string" where
  "dashboard_raw_sql db window_start = nl @
     ''SELECT toStartOfMinute(timestamp) AS minute, channel, status, uniqExact(webhook_id) AS distinct_count'' @ nl @
     ''FROM '' @ db @ ''.delivery_events'' @ nl @
     ''WHERE timestamp >= '' @ [CHR 0x27] @ time_text_ms window_start @ [CHR 0x27] @ nl @
     ''GROUP BY minute, channel, status'' @ nl @
     ''ORDER BY minute, channel, status'' @ nl"

definition dashboard_rollup_sql :: "string \<Rightarrow> int \<Rightarrow> string" where
  "dashboard_rollup_sql db window_start = nl @
     ''SELECT minute, channel, status, sum(event_count) AS distinct_count'' @ nl @
     ''FROM '' @ db @ ''.delivery_rollup_minute'' @ nl @
     ''WHERE minute >= '' @ [CHR 0x27] @ time_text_s window_start @ [CHR 0x27] @ nl @
     ''GROUP BY minute, channel, status'' @ nl @
     ''ORDER BY minute, channel, status'' @ nl"

definition dashboard_raw_query ::
  "'b ch_env \<Rightarrow> ('s, 'b) server \<Rightarrow> string \<Rightarrow> int \<Rightarrow> 's \<Rightarrow> (goerror + 'b) \<times> 's"
where
  "dashboard_raw_query env srv db window_start s =
     ch_raw env srv (dashboard_raw_sql db window_start @ json_each_row) s"

definition dashboard_rollup_query ::
  "'b ch_env \<Rightarrow> ('s, 'b) server \<Rightarrow> string \<Rightarrow> int \<Rightarrow> 's \<Rightarrow> (goerror + 'b) \<times> 's"
where
  "dashboard_rollup_query env srv db window_start s =
     ch_raw env srv (dashboard_rollup_sql db window_start @ json_each_row) s"

definition delivery_count_rows :: "'b ch_env \<Rightarrow> ('s, 'b) server \<Rightarrow> string \<Rightarrow> 's \<Rightarrow> (goerror + int) \<times> 's" where
  "delivery_count_rows env srv db s =
     scalar_int env srv (''SELECT count() AS c FROM '' @ db @ ''.delivery_events'') s"

definition count_rollup_rows :: "'b ch_env \<Rightarrow> ('s, 'b) server \<Rightarrow> string \<Rightarrow> 's \<Rightarrow> (goerror + int) \<times> 's" where
  "count_rollup_rows env srv db s =
     scalar_int env srv (''SELECT count() AS c FROM '' @ db @ ''.delivery_rollup_minute'') s"

text \<open>Summary copies the rollup counts into the rows of the API, which have the same three fields.\<close>

definition summary ::
  "'b ch_env \<Rightarrow> ('s, 'b) server \<Rightarrow> string \<Rightarrow> 's \<Rightarrow> (goerror + (string \<times> string \<times> int) list) \<times> 's"
where
  "summary env srv db s =
     (case rollup_counts env srv db s of
        (Inl e, s') \<Rightarrow> (Inl e, s')
      | (Inr counts, s') \<Rightarrow> (Inr (map (\<lambda>c. (csc_channel c, csc_status c, csc_count c)) counts), s'))"

section \<open>The segment store\<close>

definition events_table_ddl :: string where
  "events_table_ddl = nl @ ''CREATE TABLE IF NOT EXISTS events ('' @ nl @
     ''    event_id String,'' @ nl @
     ''    profile_id String,'' @ nl @
     ''    event_type LowCardinality(String),'' @ nl @
     ''    timestamp DateTime64(3),'' @ nl @
     ''    attributes Map(String, String)'' @ nl @
     '') ENGINE = MergeTree'' @ nl @
     ''ORDER BY (profile_id, timestamp)'' @ nl"

definition segment_ensure_schema :: "'b ch_env \<Rightarrow> ('s, 'b) server \<Rightarrow> 's \<Rightarrow> goerror option \<times> 's" where
  "segment_ensure_schema env srv s = ch_exec env srv events_table_ddl s"

definition truncate_events :: "'b ch_env \<Rightarrow> ('s, 'b) server \<Rightarrow> 's \<Rightarrow> goerror option \<times> 's" where
  "truncate_events env srv s = ch_exec env srv ''TRUNCATE TABLE IF EXISTS events'' s"

text \<open>The map of attributes is an object with its keys in order; a map without entries is nil.\<close>

definition attributes_json :: "(string \<times> string) list \<Rightarrow> string" where
  "attributes_json m =
     (if m = [] then ''null'' else json_object (map (apsnd json_string) (sort_key fst m)))"

definition event_row :: "storefront_event \<Rightarrow> string" where
  "event_row e =
     json_object
       [(''event_id'', json_string (event_id e)), (''profile_id'', json_string (profile_id e)),
        (''event_type'', json_string (event_type e)),
        (''timestamp'', json_string (time_text_ms (ev_timestamp_ms e))),
        (''attributes'', attributes_json (attributes e))]"

definition insert_events ::
  "'b ch_env \<Rightarrow> ('s, 'b) server \<Rightarrow> storefront_event list \<Rightarrow> 's \<Rightarrow> goerror option \<times> 's"
where
  "insert_events env srv es s =
     (if es = [] then (None, s)
      else ch_exec env srv (''INSERT INTO events FORMAT JSONEachRow'' @ nl @ encode_rows event_row es) s)"

fun profile_rows_loop :: "(goerror + (string \<times> string) list) list \<Rightarrow> string set \<Rightarrow> goerror + string set" where
  "profile_rows_loop [] out = Inr out"
| "profile_rows_loop (Inl e # rows) out = Inl (Wrapped ''decode row'' e)"
| "profile_rows_loop (Inr row # rows) out = profile_rows_loop rows (insert (attr row ''profile_id'') out)"

definition query_profile_ids ::
  "'b ch_env \<Rightarrow> ('s, 'b) server \<Rightarrow> string \<Rightarrow> 's \<Rightarrow> (goerror + string set) \<times> 's"
where
  "query_profile_ids env srv query s =
     (case ch_raw env srv (query @ json_each_row) s of
        (Inl e, s') \<Rightarrow> (Inl e, s')
      | (Inr body, s') \<Rightarrow> (profile_rows_loop (ce_rows env body) {}, s'))"

text \<open>The package has its own copy of scalarInt.\<close>

definition segment_scalar_int :: "'b ch_env \<Rightarrow> ('s, 'b) server \<Rightarrow> string \<Rightarrow> 's \<Rightarrow> (goerror + int) \<times> 's" where
  "segment_scalar_int env srv query s =
     (case ch_raw env srv (query @ json_each_row) s of
        (Inl e, s') \<Rightarrow> (Inl e, s')
      | (Inr body, s') \<Rightarrow>
          (case ce_scalar env body of
             Inl e \<Rightarrow> (Inl (Wrapped (''decode scalar (body: '' @ ce_body_text env body @ '')'') e), s')
           | Inr txt \<Rightarrow>
               (case parse_int64 txt of
                  (n, Some e) \<Rightarrow> (Inl (Wrapped (''parse scalar '' @ txt) e), s')
                | (n, None) \<Rightarrow> (Inr n, s'))))"

definition segment_count_rows :: "'b ch_env \<Rightarrow> ('s, 'b) server \<Rightarrow> 's \<Rightarrow> (goerror + int) \<times> 's" where
  "segment_count_rows env srv s = segment_scalar_int env srv ''SELECT count() AS c FROM events'' s"

definition count_distinct_profiles :: "'b ch_env \<Rightarrow> ('s, 'b) server \<Rightarrow> 's \<Rightarrow> (goerror + int) \<times> 's" where
  "count_distinct_profiles env srv s = segment_scalar_int env srv ''SELECT uniqExact(profile_id) AS c FROM events'' s"

end
