(* ===== verification/ClickHouse_Server.thy ===== *)
theory ClickHouse_Server
  imports ClickHouse
begin

text \<open>
  What the statements of internal/deliverystats/clickhouse.go mean on the two tables, the law of a
  server that executes them, and what the client's operations then do: the contract of a webhook
  store. The law covers servers that fail before or after they executed a statement, and the merging
  of rows that a SummingMergeTree does when it likes.
\<close>

section \<open>Tables and aggregates\<close>

type_synonym bucket = "int \<times> string \<times> string"

record tables =
  tb_events :: "delivery_webhook list"
  tb_rollup :: "(bucket \<times> int) list"

definition minute_of :: "int \<Rightarrow> int" where
  "minute_of ms = 60000 * (ms div 60000)"

definition bucket_of :: "delivery_webhook \<Rightarrow> bucket" where
  "bucket_of w = (minute_of (wh_timestamp_ms w), channel w, status w)"

definition pair_of :: "delivery_webhook \<Rightarrow> string \<times> string" where
  "pair_of w = (channel w, status w)"

text \<open>SELECT channel, status, count() ... GROUP BY channel, status ORDER BY channel, status.\<close>

definition raw_totals :: "delivery_webhook list \<Rightarrow> ((string \<times> string) \<times> int) list" where
  "raw_totals ws =
     map (\<lambda>k. (k, int (count_list (map pair_of ws) k))) (sort (remdups (map pair_of ws)))"

text \<open>The SELECT of RefreshRollup.\<close>

definition rollup_of :: "delivery_webhook list \<Rightarrow> (bucket \<times> int) list" where
  "rollup_of ws =
     map (\<lambda>b. (b, int (count_list (map bucket_of ws) b))) (remdups (map bucket_of ws))"

text \<open>SELECT channel, status, sum(event_count) ... over the rollup table.\<close>

definition pair_sum :: "(bucket \<times> int) list \<Rightarrow> string \<times> string \<Rightarrow> int" where
  "pair_sum rs k = sum_list (map snd (filter (\<lambda>r. snd (fst r) = k) rs))"

definition rollup_totals :: "(bucket \<times> int) list \<Rightarrow> ((string \<times> string) \<times> int) list" where
  "rollup_totals rs = map (\<lambda>k. (k, pair_sum rs k)) (sort (remdups (map (snd \<circ> fst) rs)))"

text \<open>
  SummingMergeTree replaces rows with the same sorting key by their sum, in the background and in any
  order.
\<close>

inductive merges :: "(bucket \<times> int) list \<Rightarrow> (bucket \<times> int) list \<Rightarrow> bool" where
  kept: "mset rs = mset rs' \<Longrightarrow> merges rs rs'"
| merged: "mset rs = {#(b, m), (b, n)#} + M \<Longrightarrow> mset rs' = {#(b, m + n)#} + M \<Longrightarrow> merges rs' rs'' \<Longrightarrow> merges rs rs''"

definition settles :: "tables \<Rightarrow> tables \<Rightarrow> bool" where
  "settles T T' \<longleftrightarrow> tb_events T' = tb_events T \<and> merges (tb_rollup T) (tb_rollup T')"

lemma sorted_keys_unique:
  fixes xs ys :: "'a::linorder list"
  shows "set xs = set ys \<Longrightarrow> sort (remdups xs) = sort (remdups ys)"
  by (rule sorted_distinct_set_unique) auto

lemma sum_counts_filter:
  "(\<Sum>b \<leftarrow> filter P (remdups xs). count_list xs b) = length (filter P xs)"
proof -
  have "(\<Sum>b \<leftarrow> filter P (remdups xs). count_list xs b) = (\<Sum>b \<in> set (filter P xs). count_list xs b)"
    by (simp add: sum_list_distinct_conv_sum_set)
  also have "\<dots> = (\<Sum>b \<in> set (filter P xs). count_list (filter P xs) b)"
  proof (rule sum.cong)
    fix b assume "b \<in> set (filter P xs)"
    then have "P b" by simp
    then show "count_list xs b = count_list (filter P xs) b"
      by (induction xs) auto
  qed simp
  also have "\<dots> = length (filter P xs)" by (rule sum_count_set) simp_all
  finally show ?thesis .
qed

lemma int_sum_list: "int (sum_list (map f xs)) = sum_list (map (\<lambda>x. int (f x)) xs)"
  by (induction xs) simp_all

lemma pair_sum_rollup_of: "pair_sum (rollup_of ws) k = int (count_list (map pair_of ws) k)"
proof -
  have "pair_sum (rollup_of ws) k =
      (\<Sum>b \<leftarrow> filter (\<lambda>b. snd b = k) (remdups (map bucket_of ws)). int (count_list (map bucket_of ws) b))"
    by (simp add: pair_sum_def rollup_of_def filter_map comp_def)
  also have "\<dots> = int (length (filter (\<lambda>b. snd b = k) (map bucket_of ws)))"
    by (simp add: sum_counts_filter flip: int_sum_list)
  also have "length (filter (\<lambda>b. snd b = k) (map bucket_of ws)) = count_list (map pair_of ws) k"
    by (induction ws) (auto simp: bucket_of_def pair_of_def)
  finally show ?thesis .
qed

text \<open>A rollup built from scratch has the totals of the log.\<close>

lemma rollup_totals_rollup_of: "rollup_totals (rollup_of ws) = raw_totals ws"
proof -
  have "set (map (snd \<circ> fst) (rollup_of ws)) = set (map pair_of ws)"
    by (auto simp: rollup_of_def bucket_of_def pair_of_def image_image comp_def)
  then have "sort (remdups (map (snd \<circ> fst) (rollup_of ws))) = sort (remdups (map pair_of ws))"
    by (rule sorted_keys_unique)
  then show ?thesis by (simp add: rollup_totals_def raw_totals_def pair_sum_rollup_of)
qed

text \<open>Merging rows changes no total.\<close>

lemma pair_sum_mset: "mset rs = mset rs' \<Longrightarrow> pair_sum rs k = pair_sum rs' k"
proof -
  have s: "pair_sum l k = sum_mset (image_mset snd (filter_mset (\<lambda>r. snd (fst r) = k) (mset l)))" for l
    by (simp add: pair_sum_def flip: mset_filter mset_map sum_mset_sum_list)
  assume "mset rs = mset rs'"
  then show ?thesis by (simp add: s)
qed

lemma rollup_totals_cong:
  assumes "snd ` fst ` set rs = snd ` fst ` set rs'" and "\<And>k. pair_sum rs k = pair_sum rs' k"
  shows "rollup_totals rs = rollup_totals rs'"
proof -
  have "sort (remdups (map (snd \<circ> fst) rs)) = sort (remdups (map (snd \<circ> fst) rs'))"
    using assms(1) by (intro sorted_keys_unique) (simp add: image_comp)
  with assms(2) show ?thesis by (simp add: rollup_totals_def)
qed

lemma rollup_totals_merges: "merges rs rs' \<Longrightarrow> rollup_totals rs = rollup_totals rs'"
proof (induction rule: merges.induct)
  case (kept rs rs')
  show ?case
  proof (rule rollup_totals_cong)
    show "snd ` fst ` set rs = snd ` fst ` set rs'" by (simp only: mset_eq_setD [OF kept])
    show "pair_sum rs k = pair_sum rs' k" for k by (rule pair_sum_mset [OF kept])
  qed
next
  case (merged rs b m n M rs' rs'')
  obtain l where l: "mset l = M" using ex_mset by blast
  then have "mset rs = mset ((b, m) # (b, n) # l)" "mset rs' = mset ((b, m + n) # l)"
    using merged by simp_all
  note pair_sum_mset [OF this(1)] pair_sum_mset [OF this(2)] mset_eq_setD [OF this(1)] mset_eq_setD [OF this(2)]
  then have "rollup_totals rs = rollup_totals rs'"
    by (intro rollup_totals_cong) (simp_all add: pair_sum_def)
  then show ?case using merged by simp
qed

lemma settles_refl [simp]: "settles T T"
  by (simp add: settles_def kept)

lemma settlesD: "settles T T' \<Longrightarrow> tb_events T' = tb_events T \<and> rollup_totals (tb_rollup T') = rollup_totals (tb_rollup T)"
  by (metis settles_def rollup_totals_merges)

section \<open>Reading an INSERT back\<close>

definition webhook_names :: "string list" where
  "webhook_names = [''webhook_id'', ''message_id'', ''channel'', ''status'', ''timestamp'', ''provider'']"

text \<open>The rows of an INSERT, one object to a line; at most one row for each character of the text.\<close>

fun read_webhooks :: "nat \<Rightarrow> string \<Rightarrow> delivery_webhook list option" where
  "read_webhooks fuel [] = Some []"
| "read_webhooks 0 t = None"
| "read_webhooks (Suc fuel) t =
     (case read_object webhook_names t of
        Some ([w, m, c, st, ts, p], x # r) \<Rightarrow>
          (case (if x = CHR 0x0A then read_time_ms ts else None) of
             None \<Rightarrow> None
           | Some ms \<Rightarrow>
               map_option (Cons \<lparr>webhook_id = w, message_id = m, channel = c, status = st,
                   wh_timestamp_ms = ms, provider = p\<rparr>)
                 (read_webhooks fuel r))
      | _ \<Rightarrow> None)"

text \<open>Webhooks whose strings are UTF-8 and whose time is between 1970 and 9999.\<close>

definition storable_webhook :: "delivery_webhook \<Rightarrow> bool" where
  "storable_webhook w \<longleftrightarrow> utf8_ok (webhook_id w) \<and> utf8_ok (message_id w) \<and> utf8_ok (channel w)
     \<and> utf8_ok (status w) \<and> utf8_ok (provider w)
     \<and> 0 \<le> wh_timestamp_ms w \<and> wh_timestamp_ms w < 253402300800000"

lemma utf8_ok_ascii: "\<forall>c \<in> set s. (of_char c :: nat) < 128 \<Longrightarrow> utf8_ok s"
proof (induction s)
  case (Cons c s)
  then have "utf8_width (c # s) = 1" by (simp add: utf8_width_def nth_byte_def)
  with Cons show ?case by simp
qed simp

lemma is_digit_ascii: "is_digit c \<Longrightarrow> (of_char c :: nat) < 128"
  by (simp add: is_digit_def)

lemma pad_int_ascii: "\<forall>c \<in> set (pad_int w i). (of_char c :: nat) < 128"
  using show_nat_digits [of "nat \<bar>i\<bar>"] by (auto simp: pad_int_def Let_def list_all_iff is_digit_ascii)

lemma utf8_ok_time_text: "utf8_ok (time_text_ms ms)"
proof (rule utf8_ok_ascii)
  obtain y m d where "date_of_day (ms div 86400000 + 719162) = (y, m, d)" by (metis prod_cases3)
  then show "\<forall>c \<in> set (time_text_ms ms). (of_char c :: nat) < 128"
    using pad_int_ascii
    by (auto simp: time_text_ms_def time_text_s_def date_text_def clock_text_def Let_def)
qed

text \<open>Round trip of a batch: the server reads the webhooks the client encoded.\<close>

lemma read_webhook_row:
  assumes "storable_webhook w"
  shows "read_webhooks (Suc fuel) (webhook_row w @ nl @ t) = map_option (Cons w) (read_webhooks fuel t)"
proof -
  have names: "webhook_names = map fst (webhook_fields w)"
    by (simp add: webhook_names_def webhook_fields_def)
  have "\<forall>kv \<in> set (webhook_fields w). utf8_ok (snd kv)"
    using assms utf8_ok_time_text by (auto simp: webhook_fields_def storable_webhook_def)
  then have "read_object webhook_names (webhook_row w @ nl @ t) = Some (map snd (webhook_fields w), nl @ t)"
    unfolding names webhook_row_def by (rule read_object_json) (simp add: webhook_fields_def)
  moreover have "read_time_ms (time_text_ms (wh_timestamp_ms w)) = Some (wh_timestamp_ms w)"
    using assms by (intro read_time_text_ms) (simp_all add: storable_webhook_def)
  moreover have "webhook_row w @ nl @ t \<noteq> []" by simp
  then obtain c cs where "webhook_row w @ nl @ t = c # cs" by (meson neq_Nil_conv)
  ultimately show ?thesis
    by (cases w) (simp add: webhook_fields_def)
qed

lemma read_webhooks_encode:
  assumes "\<forall>w \<in> set ws. storable_webhook w" and "length ws \<le> fuel"
  shows "read_webhooks fuel (encode_rows webhook_row ws) = Some ws"
  using assms
proof (induction ws arbitrary: fuel)
  case (Cons w ws)
  then obtain f where "fuel = Suc f" by (cases fuel) auto
  with Cons show ?case
    using read_webhook_row [of w f "encode_rows webhook_row ws"] by (simp add: encode_rows_def)
qed (simp add: encode_rows_def)

lemma length_encode_rows: "length ws \<le> length (encode_rows row ws)"
  by (induction ws) (simp_all add: encode_rows_def)

section \<open>The meaning of the statements\<close>

type_synonym ch_row = "(string \<times> string) list"

definition total_row :: "(string \<times> string) \<times> int \<Rightarrow> ch_row" where
  "total_row t = [(''channel'', fst (fst t)), (''status'', snd (fst t)), (''c'', fmt_d (snd t))]"

definition count_row :: "nat \<Rightarrow> ch_row" where
  "count_row n = [(''c'', fmt_d (int n))]"

definition count_events_sql :: "string \<Rightarrow> string" where
  "count_events_sql db = ''SELECT count() AS c FROM '' @ db @ ''.delivery_events''"

definition count_rollup_sql :: "string \<Rightarrow> string" where
  "count_rollup_sql db = ''SELECT count() AS c FROM '' @ db @ ''.delivery_rollup_minute''"

text \<open>
  The result rows and the new tables of a statement, when it is one of the client's. The tables are
  there from the start, so that the DDL of EnsureSchema changes nothing.
\<close>

definition ch_meaning :: "string \<Rightarrow> string \<Rightarrow> tables \<Rightarrow> (ch_row list \<times> tables) option" where
  "ch_meaning db sql T =
     (if sql = raw_events_ddl db \<or> sql = rollup_ddl db \<or> sql = ''CREATE DATABASE IF NOT EXISTS '' @ db
        then Some ([], T)
      else if sql = truncate_events_sql db then Some ([], T\<lparr>tb_events := []\<rparr>)
      else if sql = truncate_rollup_sql db then Some ([], T\<lparr>tb_rollup := []\<rparr>)
      else if sql = refresh_sql db then Some ([], T\<lparr>tb_rollup := tb_rollup T @ rollup_of (tb_events T)\<rparr>)
      else if sql = recompute_sql db @ json_each_row then Some (map total_row (raw_totals (tb_events T)), T)
      else if sql = rollup_sql db @ json_each_row then Some (map total_row (rollup_totals (tb_rollup T)), T)
      else if sql = count_events_sql db @ json_each_row then Some ([count_row (length (tb_events T))], T)
      else if sql = count_rollup_sql db @ json_each_row then Some ([count_row (length (tb_rollup T))], T)
      else
        (case strip_prefix (insert_prefix db) sql of
           None \<Rightarrow> None
         | Some t \<Rightarrow>
             map_option (\<lambda>ws. ([], T\<lparr>tb_events := tb_events T @ ws\<rparr>)) (read_webhooks (length t) t)))"

lemmas statement_texts = raw_events_ddl_def rollup_ddl_def truncate_events_sql_def truncate_rollup_sql_def
  refresh_sql_def recompute_sql_def rollup_sql_def count_events_sql_def count_rollup_sql_def insert_prefix_def

lemma meaning_schema:
  "q = raw_events_ddl db \<or> q = rollup_ddl db \<or> q = ''CREATE DATABASE IF NOT EXISTS '' @ db \<Longrightarrow>
     ch_meaning db q T = Some ([], T)"
  unfolding ch_meaning_def by (rule if_P)

lemma meaning_truncate_rollup: "ch_meaning db (truncate_rollup_sql db) T = Some ([], T\<lparr>tb_rollup := []\<rparr>)"
  by (simp add: ch_meaning_def statement_texts)

lemma meaning_truncate_events: "ch_meaning db (truncate_events_sql db) T = Some ([], T\<lparr>tb_events := []\<rparr>)"
  by (simp add: ch_meaning_def statement_texts)

lemma meaning_refresh:
  "ch_meaning db (refresh_sql db) T = Some ([], T\<lparr>tb_rollup := tb_rollup T @ rollup_of (tb_events T)\<rparr>)"
  by (simp add: ch_meaning_def statement_texts)

lemma meaning_recompute:
  "ch_meaning db (recompute_sql db @ json_each_row) T = Some (map total_row (raw_totals (tb_events T)), T)"
  by (simp add: ch_meaning_def statement_texts)

lemma meaning_rollup:
  "ch_meaning db (rollup_sql db @ json_each_row) T = Some (map total_row (rollup_totals (tb_rollup T)), T)"
  by (simp add: ch_meaning_def statement_texts)

lemma meaning_insert:
  assumes "\<forall>w \<in> set ws. storable_webhook w"
  shows "ch_meaning db (insert_prefix db @ encode_rows webhook_row ws) T =
    Some ([], T\<lparr>tb_events := tb_events T @ ws\<rparr>)"
proof -
  have "read_webhooks (length (encode_rows webhook_row ws)) (encode_rows webhook_row ws) = Some ws"
    using assms length_encode_rows by (rule read_webhooks_encode)
  then show ?thesis
    unfolding ch_meaning_def strip_prefix_append option.case
    by (simp add: statement_texts)
qed

section \<open>A server that executes the statements\<close>

text \<open>
  The law: an accepted statement has its meaning, any other outcome leaves the tables as they were or
  as the statement makes them (a reply can be lost), and rows of the rollup may be merged at any time.
\<close>

definition executes :: "string \<Rightarrow> ('s, 'b) server \<Rightarrow> ('s \<Rightarrow> tables) \<Rightarrow> ('b \<Rightarrow> ch_row list) \<Rightarrow> bool" where
  "executes db srv tab view \<longleftrightarrow>
     (\<forall>sql s b s'. srv sql s = (Response 200 (Inr b), s') \<longrightarrow>
        (\<exists>T. ch_meaning db sql (tab s) = Some (view b, T) \<and> settles T (tab s'))) \<and>
     (\<forall>sql s r s'. srv sql s = (r, s') \<longrightarrow>
        settles (tab s) (tab s') \<or>
        (\<exists>rows T. ch_meaning db sql (tab s) = Some (rows, T) \<and> settles T (tab s')))"

definition decodes :: "'b ch_env \<Rightarrow> ('b \<Rightarrow> ch_row list) \<Rightarrow> bool" where
  "decodes env view \<longleftrightarrow> (\<forall>b. ce_rows env b = map Inr (view b))"

lemma executesD:
  "executes db srv tab view \<Longrightarrow> srv sql s = (Response 200 (Inr b), s') \<Longrightarrow>
     \<exists>T. ch_meaning db sql (tab s) = Some (view b, T) \<and> settles T (tab s')"
  "executes db srv tab view \<Longrightarrow> srv sql s = (r, s') \<Longrightarrow>
     settles (tab s) (tab s') \<or> (\<exists>rows T. ch_meaning db sql (tab s) = Some (rows, T) \<and> settles T (tab s'))"
  unfolding executes_def by blast+

lemma ch_raw_cases:
  assumes "executes db srv tab view"
  shows "case ch_raw env srv sql s of
      (Inr b, s') \<Rightarrow> \<exists>T. ch_meaning db sql (tab s) = Some (view b, T) \<and> settles T (tab s')
    | (Inl e, s') \<Rightarrow> settles (tab s) (tab s') \<or>
        (\<exists>rows T. ch_meaning db sql (tab s) = Some (rows, T) \<and> settles T (tab s'))"
proof (cases "ce_request_err env")
  case None
  obtain r s1 where r: "srv sql s = (r, s1)" by (cases "srv sql s")
  from executesD(1) [OF assms] executesD(2) [OF assms r] r None show ?thesis
    by (cases r) (auto simp: ch_raw_def Let_def split: sum.splits)
qed (simp add: ch_raw_def)

lemma ch_exec_ok:
  assumes "executes db srv tab view" and "ch_exec env srv sql s = (None, s')"
  shows "\<exists>rows T. ch_meaning db sql (tab s) = Some (rows, T) \<and> settles T (tab s')"
  using ch_raw_cases [OF assms(1), where env = env and sql = sql and s = s] assms(2)
  by (auto simp: ch_exec_def split: prod.splits sum.splits)

lemma ch_exec_any:
  assumes "executes db srv tab view" and "ch_exec env srv sql s = (r, s')"
  shows "settles (tab s) (tab s') \<or> (\<exists>rows T. ch_meaning db sql (tab s) = Some (rows, T) \<and> settles T (tab s'))"
  using ch_raw_cases [OF assms(1), where env = env and sql = sql and s = s] assms(2)
  by (auto simp: ch_exec_def split: prod.splits sum.splits)

text \<open>Decoding the rows of totals.\<close>

abbreviation csc_of :: "(string \<times> string) \<times> int \<Rightarrow> channel_status_count" where
  "csc_of t \<equiv> \<lparr>csc_channel = fst (fst t), csc_status = snd (fst t), csc_count = snd t\<rparr>"

lemma count_rows_loop_totals:
  assumes "\<forall>t \<in> set ts. - (2 ^ 63) \<le> snd t \<and> snd t < 2 ^ 63"
  shows "count_rows_loop (map Inr (map total_row ts)) out = Inr (out @ map csc_of ts)"
  using assms
proof (induction ts arbitrary: out)
  case (Cons t ts)
  then show ?case by (simp add: total_row_def attr_def parse_int64_fmt_d)
qed simp

section \<open>The contract of a webhook store\<close>

text \<open>
  What the delivery gateway relies on. Two abstractions of the state: the webhooks stored and the
  totals a summary reads. A failed operation has happened or not; a failed refresh may also have
  emptied the totals.
\<close>

locale webhook_store =
  fixes insert_batch :: "delivery_webhook list \<Rightarrow> 's \<Rightarrow> goerror option \<times> 's"
    and refresh :: "'s \<Rightarrow> goerror option \<times> 's"
    and get_summary :: "'s \<Rightarrow> (goerror + (string \<times> string \<times> int) list) \<times> 's"
    and stored :: "'s \<Rightarrow> delivery_webhook list"
    and totals :: "'s \<Rightarrow> ((string \<times> string) \<times> int) list"
    and storable :: "delivery_webhook \<Rightarrow> bool"
  assumes insert_ok: "list_all storable ws \<Longrightarrow> insert_batch ws s = (None, s') \<Longrightarrow>
      stored s' = stored s @ ws \<and> totals s' = totals s"
    and insert_any: "list_all storable ws \<Longrightarrow> insert_batch ws s = (r, s') \<Longrightarrow>
      (stored s' = stored s \<or> stored s' = stored s @ ws) \<and> totals s' = totals s"
    and refresh_ok: "refresh s = (None, s') \<Longrightarrow> stored s' = stored s \<and> totals s' = raw_totals (stored s)"
    and refresh_any: "refresh s = (r, s') \<Longrightarrow> stored s' = stored s \<and>
      (totals s' = totals s \<or> totals s' = [] \<or> totals s' = raw_totals (stored s))"
    and summary_any: "get_summary s = (q, s') \<Longrightarrow> stored s' = stored s \<and> totals s' = totals s"
    and summary_ok: "\<forall>t \<in> set (totals s). - (2 ^ 63) \<le> snd t \<and> snd t < 2 ^ 63 \<Longrightarrow> get_summary s = (Inr rows, s') \<Longrightarrow>
      rows = map (\<lambda>t. (fst (fst t), snd (fst t), snd t)) (totals s)"

text \<open>
  The same store when its users see the two statements of a refresh: the table of totals is emptied,
  and then filled from the webhooks that are stored at that moment.
\<close>

locale rollup_store = webhook_store insert_batch refresh get_summary stored totals storable
  for insert_batch :: "delivery_webhook list \<Rightarrow> 's \<Rightarrow> goerror option \<times> 's"
    and refresh :: "'s \<Rightarrow> goerror option \<times> 's"
    and get_summary :: "'s \<Rightarrow> (goerror + (string \<times> string \<times> int) list) \<times> 's"
    and stored :: "'s \<Rightarrow> delivery_webhook list"
    and totals :: "'s \<Rightarrow> ((string \<times> string) \<times> int) list"
    and storable :: "delivery_webhook \<Rightarrow> bool" +
  fixes truncate :: "'s \<Rightarrow> goerror option \<times> 's" and refill :: "'s \<Rightarrow> goerror option \<times> 's"
  assumes refresh_steps: "refresh s =
      (case truncate s of (Some e, s') \<Rightarrow> (Some e, s') | (None, s') \<Rightarrow> refill s')"
    and truncate_ok: "truncate s = (None, s') \<Longrightarrow> stored s' = stored s \<and> totals s' = []"
    and truncate_any: "truncate s = (r, s') \<Longrightarrow> stored s' = stored s \<and> (totals s' = totals s \<or> totals s' = [])"
    and refill_any: "totals s = [] \<Longrightarrow> refill s = (r, s') \<Longrightarrow>
      stored s' = stored s \<and> (totals s' = [] \<or> totals s' = raw_totals (stored s))"

locale clickhouse =
  fixes env :: "'b ch_env" and srv :: "('s, 'b) server" and db :: string
    and tab :: "'s \<Rightarrow> tables" and view :: "'b \<Rightarrow> ch_row list"
  assumes executes: "executes db srv tab view" and decodes: "decodes env view"
begin

definition stored :: "'s \<Rightarrow> delivery_webhook list" where
  "stored s = tb_events (tab s)"

definition totals :: "'s \<Rightarrow> ((string \<times> string) \<times> int) list" where
  "totals s = rollup_totals (tb_rollup (tab s))"

lemma settles_abs: "settles T (tab s') \<Longrightarrow> stored s' = tb_events T \<and> totals s' = rollup_totals (tb_rollup T)"
  by (simp add: stored_def totals_def settlesD)

lemma insert_effect:
  assumes "list_all storable_webhook ws" and "insert_webhooks env srv db ws s = (r, s')"
  shows "(stored s' = stored s \<or> stored s' = stored s @ ws) \<and> totals s' = totals s
    \<and> (r = None \<longrightarrow> stored s' = stored s @ ws)"
proof (cases "ws = []")
  case True
  with assms show ?thesis by (simp add: insert_webhooks_def)
next
  case False
  let ?sql = "insert_prefix db @ encode_rows webhook_row ws"
  from False assms(2) have e: "ch_exec env srv ?sql s = (r, s')" by (simp add: insert_webhooks_def)
  have m: "ch_meaning db ?sql (tab s) = Some ([], (tab s)\<lparr>tb_events := stored s @ ws\<rparr>)"
    using assms(1) by (simp add: meaning_insert list_all_iff stored_def)
  have "(settles (tab s) (tab s') \<or> settles ((tab s)\<lparr>tb_events := stored s @ ws\<rparr>) (tab s')) \<and>
      (r = None \<longrightarrow> settles ((tab s)\<lparr>tb_events := stored s @ ws\<rparr>) (tab s'))"
    using ch_exec_any [OF executes e] ch_exec_ok [OF executes, where env = env and sql = ?sql and s = s and s' = s'] e by (auto simp: m)
  then show ?thesis
    by (auto dest: settles_abs simp: stored_def [of s] totals_def [of s])
qed

text \<open>Statements that leave the tables alone.\<close>

lemma raw_same:
  assumes "ch_meaning db sql (tab s) = Some (rows, tab s)" and "ch_raw env srv sql s = (r, s')"
  shows "stored s' = stored s \<and> totals s' = totals s \<and> (\<forall>b. r = Inr b \<longrightarrow> view b = rows)"
  using ch_raw_cases [OF executes, where env = env and sql = sql and s = s, unfolded assms(2)] assms(1)
  by (cases r) (auto simp: stored_def totals_def dest!: settlesD)

lemma exec_same:
  assumes "\<And>T. ch_meaning db sql T = Some ([], T)" and "ch_exec env srv sql s = (r, s')"
  shows "stored s' = stored s \<and> totals s' = totals s"
  using raw_same [of sql s "[]"] assms by (auto simp: ch_exec_def split: prod.splits sum.splits)

lemma exec_all_same:
  assumes "\<And>q T. q \<in> set qs \<Longrightarrow> ch_meaning db q T = Some ([], T)"
  shows "ch_exec_all env srv qs s = (r, s') \<Longrightarrow> stored s' = stored s \<and> totals s' = totals s"
  using assms
proof (induction qs arbitrary: s)
  case (Cons q qs)
  obtain r1 s1 where e: "ch_exec env srv q s = (r1, s1)" by (cases "ch_exec env srv q s")
  with exec_same [OF Cons.prems(2), of q s] have "stored s1 = stored s \<and> totals s1 = totals s" by simp
  with Cons e show ?case by (cases r1) auto
qed simp

lemma schema_same: "ensure_schema env srv db s = (r, s') \<Longrightarrow> stored s' = stored s \<and> totals s' = totals s"
proof -
  assume a: "ensure_schema env srv db s = (r, s')"
  note m = meaning_schema
  obtain r1 s1 where e: "ch_exec env srv (''CREATE DATABASE IF NOT EXISTS '' @ db) s = (r1, s1)"
    by (metis prod.collapse)
  have first: "stored s1 = stored s \<and> totals s1 = totals s"
    by (rule exec_same [OF m e]) blast
  show ?thesis
  proof (cases r1)
    case None
    with a e have "ch_exec_all env srv [raw_events_ddl db, rollup_ddl db] s1 = (r, s')"
      by (simp add: ensure_schema_def ensure_database_def)
    then have "stored s' = stored s1 \<and> totals s' = totals s1"
      by (rule exec_all_same [rotated]) (rule m, auto)
    with first show ?thesis by simp
  next
    case (Some x)
    with a e first show ?thesis by (simp add: ensure_schema_def ensure_database_def)
  qed
qed

lemma truncate_effect: "truncate_all env srv db s = (None, s') \<Longrightarrow> stored s' = []"
proof -
  assume "truncate_all env srv db s = (None, s')"
  then obtain s1 where e: "ch_exec env srv (truncate_events_sql db) s = (None, s1)"
    "ch_exec env srv (truncate_rollup_sql db) s1 = (None, s')"
    by (auto simp: truncate_all_def split: prod.splits option.splits)
  from ch_exec_ok [OF executes e(1)] have "stored s1 = []"
    by (auto simp: meaning_truncate_events dest: settles_abs)
  moreover from ch_exec_ok [OF executes e(2)] have "stored s' = stored s1"
    by (auto simp: meaning_truncate_rollup stored_def [of s1] dest: settles_abs)
  ultimately show ?thesis by simp
qed

text \<open>The two statements of a refresh, each on its own.\<close>

lemma totals_empty: "totals s = [] \<longleftrightarrow> tb_rollup (tab s) = []"
  by (metis (no_types, lifting) map_is_Nil_conv remdups_eq_nil_iff rollup_totals_def set_empty set_sort totals_def)

lemma truncate_rollup_effect:
  assumes "ch_exec env srv (truncate_rollup_sql db) s = (r, s')"
  shows "stored s' = stored s \<and> (totals s' = totals s \<or> totals s' = []) \<and> (r = None \<longrightarrow> totals s' = [])"
  using ch_exec_any [OF executes assms]
    ch_exec_ok [OF executes, where env = env and sql = "truncate_rollup_sql db" and s = s and s' = s'] assms
  by (auto simp: meaning_truncate_rollup stored_def totals_def rollup_totals_def dest!: settlesD)

lemma refill_effect:
  assumes "ch_exec env srv (refresh_sql db) s = (r, s')" and "totals s = []"
  shows "stored s' = stored s \<and> (totals s' = [] \<or> totals s' = raw_totals (stored s))
    \<and> (r = None \<longrightarrow> totals s' = raw_totals (stored s))"
proof -
  have empty: "tb_rollup (tab s) = []" using assms(2) by (simp add: totals_empty)
  have full: "settles ((tab s)\<lparr>tb_rollup := rollup_of (stored s)\<rparr>) (tab s') \<Longrightarrow>
      stored s' = stored s \<and> totals s' = raw_totals (stored s)"
    using settles_abs by (simp add: stored_def rollup_totals_rollup_of)
  have none: "settles (tab s) (tab s') \<Longrightarrow> stored s' = stored s \<and> totals s' = []"
    using settles_abs assms(2) by (simp add: stored_def [of s] totals_def [of s])
  from ch_exec_any [OF executes assms(1)]
    ch_exec_ok [OF executes, where env = env and sql = "refresh_sql db" and s = s and s' = s'] assms(1) full none
  show ?thesis by (auto simp: meaning_refresh empty stored_def [of s])
qed

lemma refresh_effect:
  assumes "refresh_rollup env srv db s = (r, s')"
  shows "stored s' = stored s \<and> (totals s' = totals s \<or> totals s' = [] \<or> totals s' = raw_totals (stored s))
    \<and> (r = None \<longrightarrow> totals s' = raw_totals (stored s))"
proof -
  obtain r1 s1 where e1: "ch_exec env srv (truncate_rollup_sql db) s = (r1, s1)"
    by (cases "ch_exec env srv (truncate_rollup_sql db) s")
  note t = truncate_rollup_effect [OF e1]
  show ?thesis
  proof (cases r1)
    case (Some e)
    with e1 assms t show ?thesis by (auto simp: refresh_rollup_def)
  next
    case None
    with e1 assms have e2: "ch_exec env srv (refresh_sql db) s1 = (r, s')" by (simp add: refresh_rollup_def)
    from refill_effect [OF e2] None t show ?thesis by auto
  qed
qed

lemma counts_effect:
  assumes "query_counts env srv q s = (r, s')"
    and "\<And>T. ch_meaning db (q @ json_each_row) T = Some (map total_row (ts T), T)"
  shows "stored s' = stored s \<and> totals s' = totals s \<and>
    ((\<forall>t \<in> set (ts (tab s)). - (2 ^ 63) \<le> snd t \<and> snd t < 2 ^ 63) \<longrightarrow>
      (\<exists>e. r = Inl e) \<or> r = Inr (map csc_of (ts (tab s))))"
proof -
  define sql where "sql = q @ json_each_row"
  have m: "ch_meaning db sql (tab s) = Some (map total_row (ts (tab s)), tab s)"
    unfolding sql_def by (rule assms(2))
  obtain r1 s1 where e: "ch_raw env srv sql s = (r1, s1)" by (cases "ch_raw env srv sql s")
  with assms(1) have r: "r = (case r1 of Inl e \<Rightarrow> Inl e | Inr b \<Rightarrow> count_rows_loop (ce_rows env b) [])" "s' = s1"
    unfolding query_counts_def sql_def by (auto split: sum.splits)
  note c = ch_raw_cases [OF executes, where env = env and sql = sql and s = s, unfolded e, simplified]
  show ?thesis
  proof (cases r1)
    case (Inl x)
    with c r show ?thesis by (auto simp: m stored_def totals_def dest!: settlesD)
  next
    case (Inr b)
    with c have b: "map total_row (ts (tab s)) = view b" "settles (tab s) (tab s1)" by (auto simp: m)
    from r Inr have "r = count_rows_loop (map Inr (map total_row (ts (tab s)))) []"
      using decodes by (simp add: decodes_def b(1))
    with b(2) r(2) count_rows_loop_totals [of "ts (tab s)" "[]"] show ?thesis
      by (auto simp: stored_def totals_def dest!: settlesD)
  qed
qed

lemma summary_effect:
  assumes "summary env srv db s = (r, s')"
  shows "stored s' = stored s \<and> totals s' = totals s \<and>
    ((\<forall>t \<in> set (totals s). - (2 ^ 63) \<le> snd t \<and> snd t < 2 ^ 63) \<longrightarrow>
      (\<exists>e. r = Inl e) \<or> r = Inr (map (\<lambda>t. (fst (fst t), snd (fst t), snd t)) (totals s)))"
proof -
  obtain r1 s1 where e: "query_counts env srv (rollup_sql db) s = (r1, s1)"
    by (cases "query_counts env srv (rollup_sql db) s")
  note counts_effect [OF e, of "\<lambda>T. rollup_totals (tb_rollup T)", OF meaning_rollup]
  with e assms show ?thesis
    by (cases r1) (auto simp: summary_def rollup_counts_def totals_def comp_def)
qed

end

sublocale clickhouse \<subseteq> webhook_store "insert_webhooks env srv db" "refresh_rollup env srv db" "summary env srv db"
  stored totals storable_webhook
proof
qed (use insert_effect refresh_effect summary_effect in blast)+

sublocale clickhouse \<subseteq> rollup_store "insert_webhooks env srv db" "refresh_rollup env srv db" "summary env srv db"
  stored totals storable_webhook "ch_exec env srv (truncate_rollup_sql db)" "ch_exec env srv (refresh_sql db)"
proof
qed (use truncate_rollup_effect refill_effect in \<open>blast | simp add: refresh_rollup_def split: option.split\<close>)+

context clickhouse
begin

lemma webhook_store:
  "webhook_store (insert_webhooks env srv db) (refresh_rollup env srv db) (summary env srv db)
     stored totals storable_webhook"
  by unfold_locales

lemma rollup_store:
  "rollup_store (insert_webhooks env srv db) (refresh_rollup env srv db) (summary env srv db)
     stored totals storable_webhook (ch_exec env srv (truncate_rollup_sql db)) (ch_exec env srv (refresh_sql db))"
  by unfold_locales

end

section \<open>A server in memory\<close>

text \<open>
  The tables beside a schedule that says which of the next statements get through; a statement that
  does not get through has no effect, one that is none of the client's is refused.
\<close>

definition err_unreachable :: goerror where
  "err_unreachable = Errno ''connection refused''"

definition ch_server :: "string \<Rightarrow> (tables \<times> bool list, ch_row list) server" where
  "ch_server db sql s =
     (case s of (T, fs) \<Rightarrow>
        if fs \<noteq> [] \<and> \<not> hd fs then (Transport err_unreachable, (T, tl fs))
        else
          (case ch_meaning db sql T of
             Some (rows, T') \<Rightarrow> (Response 200 (Inr rows), (T', tl fs))
           | None \<Rightarrow> (Response 400 (Inr []), (T, tl fs))))"

definition plain_env :: "ch_row list ch_env" where
  "plain_env = \<lparr>ce_request_err = None, ce_body_text = (\<lambda>rows. ''rows''), ce_rows = map Inr,
     ce_scalar = (\<lambda>rows. Inr (attr (concat rows) ''c''))\<rparr>"

lemma ch_server_executes: "executes db (ch_server db) fst (\<lambda>rows. rows)"
  unfolding executes_def
proof (intro conjI allI impI)
  fix sql s rows s'
  assume "ch_server db sql s = (Response 200 (Inr rows), s')"
  then have "ch_meaning db sql (fst s) = Some (rows, fst s')"
    by (auto simp: ch_server_def split: prod.splits if_splits option.splits)
  then show "\<exists>T. ch_meaning db sql (fst s) = Some (rows, T) \<and> settles T (fst s')"
    by auto
next
  fix sql s r s'
  assume "ch_server db sql s = (r, s')"
  then have "fst s' = fst s \<or> (\<exists>rows. ch_meaning db sql (fst s) = Some (rows, fst s'))"
    by (auto simp: ch_server_def split: prod.splits if_splits option.splits)
  then show "settles (fst s) (fst s') \<or>
      (\<exists>rows T. ch_meaning db sql (fst s) = Some (rows, T) \<and> settles T (fst s'))"
    by (elim disjE exE) auto
qed

lemma plain_env_decodes: "decodes plain_env (\<lambda>rows. rows)"
  by (simp add: decodes_def plain_env_def)

interpretation mem: clickhouse plain_env "ch_server db" db fst "\<lambda>rows. rows" for db
  by unfold_locales (rule ch_server_executes, rule plain_env_decodes)

text \<open>The same server when every statement gets through.\<close>

definition ch_reliable :: "string \<Rightarrow> (tables, ch_row list) server" where
  "ch_reliable db sql T = apsnd fst (ch_server db sql (T, []))"

lemma ch_reliable_executes: "executes db (ch_reliable db) (\<lambda>T. T) (\<lambda>rows. rows)"
  unfolding executes_def
proof (intro conjI allI impI)
  fix sql T rows T'
  assume "ch_reliable db sql T = (Response 200 (Inr rows), T')"
  then have "ch_meaning db sql T = Some (rows, T')"
    by (auto simp: ch_reliable_def ch_server_def apsnd_def split: option.splits)
  then show "\<exists>U. ch_meaning db sql T = Some (rows, U) \<and> settles U T'" by auto
next
  fix sql T r T'
  assume "ch_reliable db sql T = (r, T')"
  then have "T' = T \<or> (\<exists>rows. ch_meaning db sql T = Some (rows, T'))"
    by (auto simp: ch_reliable_def ch_server_def apsnd_def split: option.splits)
  then show "settles T T' \<or> (\<exists>rows U. ch_meaning db sql T = Some (rows, U) \<and> settles U T')" by auto
qed

interpretation rel: clickhouse plain_env "ch_reliable db" db "\<lambda>T. T" "\<lambda>rows. rows" for db
  by unfold_locales (rule ch_reliable_executes, rule plain_env_decodes)

lemma rel_raw:
  "ch_meaning db sql T = Some (rows, T') \<Longrightarrow> ch_raw plain_env (ch_reliable db) sql T = (Inr rows, T')"
  by (simp add: ch_raw_def ch_reliable_def ch_server_def plain_env_def)

lemma rel_exec:
  "ch_meaning db sql T = Some (rows, T') \<Longrightarrow> ch_exec plain_env (ch_reliable db) sql T = (None, T')"
  by (simp add: ch_exec_def rel_raw)

lemma rel_schema: "ensure_schema plain_env (ch_reliable db) db T = (None, T)"
  by (simp add: ensure_schema_def ensure_database_def rel_exec [OF meaning_schema])

lemma rel_insert:
  assumes "list_all storable_webhook ws"
  shows "insert_webhooks plain_env (ch_reliable db) db ws T = (None, T\<lparr>tb_events := tb_events T @ ws\<rparr>)"
  using rel_exec [OF meaning_insert [of ws db T]] assms by (simp add: insert_webhooks_def list_all_iff)

lemma rel_refresh:
  "refresh_rollup plain_env (ch_reliable db) db T = (None, T\<lparr>tb_rollup := rollup_of (tb_events T)\<rparr>)"
  by (simp add: refresh_rollup_def rel_exec [OF meaning_truncate_rollup] rel_exec [OF meaning_refresh])

lemma rel_counts:
  assumes "ch_meaning db (q @ json_each_row) T = Some (map total_row ts, T)"
    and "\<forall>t \<in> set ts. - (2 ^ 63) \<le> snd t \<and> snd t < 2 ^ 63"
  shows "query_counts plain_env (ch_reliable db) q T = (Inr (map csc_of ts), T)"
  unfolding query_counts_def rel_raw [OF assms(1)]
  using count_rows_loop_totals [OF assms(2), of "[]"] by (simp add: plain_env_def)

lemma rel_summary:
  assumes "\<forall>t \<in> set (rollup_totals (tb_rollup T)). - (2 ^ 63) \<le> snd t \<and> snd t < 2 ^ 63"
  shows "summary plain_env (ch_reliable db) db T =
    (Inr (map (\<lambda>t. (fst (fst t), snd (fst t), snd t)) (rollup_totals (tb_rollup T))), T)"
  using rel_counts [OF meaning_rollup assms] by (simp add: summary_def rollup_counts_def comp_def)

section \<open>The dashboard queries\<close>

text \<open>
  DashboardRawQuery counts the distinct webhook ids of each bucket among the events since the window
  start; DashboardRollupQuery sums the rollup's buckets whose minute begins at the window start or
  later, compared in whole seconds.
\<close>

definition dashboard_raw_rows :: "delivery_webhook list \<Rightarrow> int \<Rightarrow> (bucket \<times> int) list" where
  "dashboard_raw_rows ws t0 =
     (let ws' = filter (\<lambda>w. wh_timestamp_ms w \<ge> t0) ws
      in map (\<lambda>b. (b, int (card (webhook_id ` {w \<in> set ws'. bucket_of w = b}))))
           (sort (remdups (map bucket_of ws'))))"

definition dashboard_rollup_rows :: "(bucket \<times> int) list \<Rightarrow> int \<Rightarrow> (bucket \<times> int) list" where
  "dashboard_rollup_rows rs t0 =
     (let rs' = filter (\<lambda>r. fst (fst r) \<ge> 1000 * (t0 div 1000)) rs
      in map (\<lambda>b. (b, sum_list (map snd (filter (\<lambda>r. fst r = b) rs'))))
           (sort (remdups (map fst rs'))))"

lemma minute_of_window: "60000 dvd t0 \<Longrightarrow> t0 \<le> minute_of ts \<longleftrightarrow> t0 \<le> ts"
proof
  assume d: "60000 dvd t0"
  then obtain q where q: "t0 = 60000 * q" by (rule dvdE)
  have "minute_of ts \<le> ts" unfolding minute_of_def using div_mult_mod_eq [of ts 60000] pos_mod_sign [of 60000 ts] by linarith
  then show "t0 \<le> minute_of ts \<Longrightarrow> t0 \<le> ts" by linarith
  assume "t0 \<le> ts"
  then have "q \<le> ts div 60000" using zdiv_mono1 [of t0 ts 60000] by (simp add: q)
  then show "t0 \<le> minute_of ts" by (simp add: minute_of_def q)
qed

text \<open>
  The two dashboard queries agree on a window that starts on a whole minute when no webhook id is
  stored twice and the rollup is fresh.
\<close>

theorem dashboards_agree_on_whole_minutes:
  assumes "60000 dvd t0" and "distinct (map webhook_id ws)"
  shows "dashboard_rollup_rows (rollup_of ws) t0 = dashboard_raw_rows ws t0"
proof -
  let ?ws = "filter (\<lambda>w. wh_timestamp_ms w \<ge> t0) ws"
  let ?rs = "filter (\<lambda>r. fst (fst r) \<ge> 1000 * (t0 div 1000)) (rollup_of ws)"
  have "1000 dvd t0" using assms(1) by (rule dvd_trans [rotated]) simp
  then have t: "1000 * (t0 div 1000) = t0" by simp
  have w: "fst (bucket_of w) \<ge> t0 \<longleftrightarrow> wh_timestamp_ms w \<ge> t0" for w
    using assms(1) by (simp add: bucket_of_def minute_of_window)
  have keys: "sort (remdups (map fst ?rs)) = sort (remdups (map bucket_of ?ws))"
  proof (rule sorted_keys_unique)
    have "set (map fst ?rs) = {b \<in> bucket_of ` set ws. t0 \<le> fst b}" by (force simp: t rollup_of_def)
    also have "\<dots> = set (map bucket_of ?ws)" using w by auto
    finally show "set (map fst ?rs) = set (map bucket_of ?ws)" .
  qed
  have sums: "sum_list (map snd (filter (\<lambda>r. fst r = b) ?rs)) =
      int (card (webhook_id ` {w \<in> set ?ws. bucket_of w = b}))"
    if "b \<in> set (sort (remdups (map bucket_of ?ws)))" for b
  proof -
    from that have b: "b \<in> bucket_of ` set ?ws" by simp
    then have "fst b \<ge> t0" using w by auto
    then have "filter (\<lambda>r. fst r = b) ?rs = map (\<lambda>b. (b, int (count_list (map bucket_of ws) b)))
        (filter (\<lambda>x. x = b) (remdups (map bucket_of ws)))"
      by (auto simp: rollup_of_def filter_map comp_def t intro!: arg_cong [of _ _ "map _"] filter_cong)
    moreover have "filter (\<lambda>x. x = b) (remdups (map bucket_of ws)) = [b]"
      using b by (intro filter_eq_single) auto
    ultimately have "sum_list (map snd (filter (\<lambda>r. fst r = b) ?rs)) = int (count_list (map bucket_of ws) b)"
      by simp
    also have "count_list (map bucket_of ws) b = length (filter (\<lambda>w. bucket_of w = b) ws)"
      by (induction ws) auto
    also have "\<dots> = card (webhook_id ` set (filter (\<lambda>w. bucket_of w = b) ws))"
      using assms(2) by (metis distinct_card distinct_map_filter length_map set_map)
    also have "set (filter (\<lambda>w. bucket_of w = b) ws) = {w \<in> set ?ws. bucket_of w = b}"
      using \<open>fst b \<ge> t0\<close> w by auto
    finally show ?thesis .
  qed
  show ?thesis
    unfolding dashboard_raw_rows_def dashboard_rollup_rows_def Let_def keys
    using sums by (intro map_cong) simp_all
qed

section \<open>Properties\<close>

lemma raw_totals_bounded:
  assumes "length ws < 2 ^ 63"
  shows "\<forall>t \<in> set (raw_totals ws). - (2 ^ 63) \<le> snd t \<and> snd t < 2 ^ 63"
proof
  fix t assume "t \<in> set (raw_totals ws)"
  then have "snd t = int (count_list (map pair_of ws) (fst t))" unfolding raw_totals_def by force
  moreover have "count_list (map pair_of ws) (fst t) \<le> length ws" using count_le_length [of "map pair_of ws" "fst t"] by simp
  ultimately show "- (2 ^ 63) \<le> snd t \<and> snd t < 2 ^ 63" using assms by simp
qed

text \<open>
  Round trip of an INSERT: a server that reads the batch text of InsertBatch row by row gets the
  webhooks that were sent, whatever characters their strings contain, as long as these are UTF-8 and
  the timestamps lie between 1970 and 9999.
\<close>

theorem insert_batch_roundtrip:
  assumes "\<forall>w \<in> set ws. storable_webhook w"
  shows "strip_prefix (insert_prefix db) (insert_prefix db @ encode_rows webhook_row ws) =
      Some (encode_rows webhook_row ws) \<and>
    read_webhooks (length (encode_rows webhook_row ws)) (encode_rows webhook_row ws) = Some ws"
  using read_webhooks_encode [OF assms length_encode_rows] by simp

context clickhouse
begin

text \<open>A refresh and the two count queries after it agree.\<close>

lemma counts_agree:
  assumes fits: "length (tb_events (tab s)) < 2 ^ 63" and totals: "totals s1 = raw_totals (tb_events (tab s))"
    and stored: "stored s1 = stored s"
    and recomputed: "recompute_counts env srv db s1 = (Inr xs, s2)"
    and rolled: "rollup_counts env srv db s2 = (Inr ys, s3)"
  shows "xs = map csc_of (raw_totals (tb_events (tab s)))" and "ys = xs" and "stored s3 = stored s"
proof -
  note b = raw_totals_bounded [OF fits]
  from totals stored
  have s1: "tb_events (tab s1) = tb_events (tab s)" "rollup_totals (tb_rollup (tab s1)) = raw_totals (tb_events (tab s))"
    by (simp_all add: stored_def totals_def)
  from counts_effect [OF recomputed [unfolded recompute_counts_def],
      of "\<lambda>T. raw_totals (tb_events T)", OF meaning_recompute] b
  show x: "xs = map csc_of (raw_totals (tb_events (tab s)))"
    by (auto simp: s1)
  from counts_effect [OF recomputed [unfolded recompute_counts_def],
      of "\<lambda>T. raw_totals (tb_events T)", OF meaning_recompute] s1
  have s2: "rollup_totals (tb_rollup (tab s2)) = raw_totals (tb_events (tab s))" "stored s2 = stored s"
    by (simp_all add: stored_def totals_def)
  from counts_effect [OF rolled [unfolded rollup_counts_def],
      of "\<lambda>T. rollup_totals (tb_rollup T)", OF meaning_rollup] b
  show "ys = xs" and "stored s3 = stored s" by (auto simp: s2 x)
qed

lemma refresh_then_counts:
  assumes fits: "length (tb_events (tab s)) < 2 ^ 63" and refreshed: "refresh_rollup env srv db s = (None, s1)"
    and counted: "recompute_counts env srv db s1 = (Inr xs, s2)" "rollup_counts env srv db s2 = (Inr ys, s3)"
  shows "xs = map csc_of (raw_totals (tb_events (tab s)))" and "ys = xs"
proof -
  have s1: "totals s1 = raw_totals (tb_events (tab s))" "stored s1 = stored s"
    using refresh_effect [OF refreshed] by (simp_all add: stored_def)
  show "xs = map csc_of (raw_totals (tb_events (tab s)))" "ys = xs"
    by (rule counts_agree(1) [OF fits s1 counted], rule counts_agree(2) [OF fits s1 counted])
qed

end

definition demo_hook :: "string \<Rightarrow> string \<Rightarrow> int \<Rightarrow> delivery_webhook" where
  "demo_hook i st ms = \<lparr>webhook_id = i, message_id = ''m1'', channel = ''sms'', status = st,
     wh_timestamp_ms = ms, provider = ''twilio''\<rparr>"

lemma demo_hook_storable:
  "storable_webhook (demo_hook [CHR ''a'', quote, CHR 0x0A] ''sent'' 1700000000123)"
  "storable_webhook (demo_hook ''w1'' ''sent'' 90000)"
  by code_simp+

theorem insert_batch_roundtrip_witness:
  "read_webhooks (length (encode_rows webhook_row [demo_hook [CHR ''a'', quote, CHR 0x0A] ''sent'' 1700000000123]))
     (encode_rows webhook_row [demo_hook [CHR ''a'', quote, CHR 0x0A] ''sent'' 1700000000123]) =
   Some [demo_hook [CHR ''a'', quote, CHR 0x0A] ''sent'' 1700000000123]"
  using insert_batch_roundtrip [of "[demo_hook [CHR ''a'', quote, CHR 0x0A] ''sent'' 1700000000123]" "''db''"]
    demo_hook_storable by simp

text \<open>
  The rollup ties out: over any server that executes the statements, when RefreshRollup and then
  RecomputeChannelStatusCounts and RollupChannelStatusCounts succeed, the two give the same rows,
  which are the totals of the stored webhooks, even when the engine merges rows in between.
\<close>

theorem rollup_matches_recompute:
  assumes server: "executes db srv tab view" and env: "decodes env view"
    and fits: "length (tb_events (tab s)) < 2 ^ 63"
    and refreshed: "refresh_rollup env srv db s = (None, s1)"
    and recomputed: "recompute_counts env srv db s1 = (Inr xs, s2)"
    and rolled: "rollup_counts env srv db s2 = (Inr ys, s3)"
  shows "xs = ys \<and> xs = map csc_of (raw_totals (tb_events (tab s)))"
  using clickhouse.refresh_then_counts [OF clickhouse.intro [OF server env] fits refreshed recomputed rolled]
  by simp

definition demo_tables :: tables where
  "demo_tables = \<lparr>tb_events = [demo_hook ''w1'' ''sent'' 90000, demo_hook ''w2'' ''sent'' 60000,
       demo_hook ''w3'' ''failed'' 200000],
     tb_rollup = []\<rparr>"

theorem rollup_matches_recompute_witness:
  "rollup_counts plain_env (ch_reliable ''d'') ''d''
     (snd (refresh_rollup plain_env (ch_reliable ''d'') ''d'' demo_tables)) =
   (Inr [csc_of ((''sms'', ''failed''), 1), csc_of ((''sms'', ''sent''), 2)],
    demo_tables\<lparr>tb_rollup := rollup_of (tb_events demo_tables)\<rparr>)"
proof -
  let ?T = "demo_tables\<lparr>tb_rollup := rollup_of (tb_events demo_tables)\<rparr>"
  have totals: "raw_totals (tb_events demo_tables) = [((''sms'', ''failed''), 1), ((''sms'', ''sent''), 2)]"
    by code_simp
  then have b: "\<forall>t \<in> set (raw_totals (tb_events demo_tables)). - (2 ^ 63) \<le> snd t \<and> snd t < 2 ^ 63" by simp
  have fits: "length (tb_events demo_tables) < 2 ^ 63" by (simp add: demo_tables_def)
  have "ch_meaning ''d'' (recompute_sql ''d'' @ json_each_row) ?T = Some (map total_row (raw_totals (tb_events demo_tables)), ?T)"
    by (subst meaning_recompute) simp
  from rel_counts [OF this b]
  have rec: "recompute_counts plain_env (ch_reliable ''d'') ''d'' ?T =
      (Inr (map csc_of (raw_totals (tb_events demo_tables))), ?T)"
    by (simp only: recompute_counts_def)
  have "ch_meaning ''d'' (rollup_sql ''d'' @ json_each_row) ?T = Some (map total_row (raw_totals (tb_events demo_tables)), ?T)"
    by (subst meaning_rollup) (simp add: rollup_totals_rollup_of)
  from rel_counts [OF this b]
  have rol: "rollup_counts plain_env (ch_reliable ''d'') ''d'' ?T =
      (Inr (map csc_of (raw_totals (tb_events demo_tables))), ?T)"
    by (simp only: rollup_counts_def)
  from rollup_matches_recompute [OF ch_reliable_executes plain_env_decodes fits rel_refresh rec rol] rol
  show ?thesis by (simp add: rel_refresh totals)
qed

text \<open>
  RefreshRollup is not atomic: when the TRUNCATE gets through and the INSERT does not, it returns
  the error of the INSERT, the rollup is empty although webhooks are stored, and a Summary that
  succeeds afterwards serves no rows.
\<close>

theorem refresh_failure_empties_summary:
  "refresh_rollup plain_env (ch_server db) db (T, [True, False]) =
     (Some err_unreachable, (T\<lparr>tb_rollup := []\<rparr>, [])) \<and>
   summary plain_env (ch_server db) db (T\<lparr>tb_rollup := []\<rparr>, []) = (Inr [], (T\<lparr>tb_rollup := []\<rparr>, []))"
proof
  show "refresh_rollup plain_env (ch_server db) db (T, [True, False]) =
     (Some err_unreachable, (T\<lparr>tb_rollup := []\<rparr>, []))"
    by (simp add: refresh_rollup_def ch_exec_def ch_raw_def ch_server_def plain_env_def meaning_truncate_rollup)
  have "ch_meaning db (rollup_sql db @ json_each_row) (T\<lparr>tb_rollup := []\<rparr>) = Some ([], T\<lparr>tb_rollup := []\<rparr>)"
    by (subst meaning_rollup) (simp add: rollup_totals_def)
  then show "summary plain_env (ch_server db) db (T\<lparr>tb_rollup := []\<rparr>, []) = (Inr [], (T\<lparr>tb_rollup := []\<rparr>, []))"
    unfolding summary_def rollup_counts_def query_counts_def ch_raw_def ch_server_def
    by (simp add: plain_env_def)
qed

theorem dashboards_agree_on_whole_minutes_witness:
  "dashboard_rollup_rows (rollup_of (tb_events demo_tables)) 60000 = dashboard_raw_rows (tb_events demo_tables) 60000 \<and>
   dashboard_raw_rows (tb_events demo_tables) 60000 = [((60000, ''sms'', ''sent''), 2), ((180000, ''sms'', ''failed''), 1)]"
proof
  show "dashboard_rollup_rows (rollup_of (tb_events demo_tables)) 60000 = dashboard_raw_rows (tb_events demo_tables) 60000"
    by (rule dashboards_agree_on_whole_minutes) (simp_all add: demo_tables_def demo_hook_def)
  show "dashboard_raw_rows (tb_events demo_tables) 60000 = [((60000, ''sms'', ''sent''), 2), ((180000, ''sms'', ''failed''), 1)]"
    by code_simp
qed

text \<open>
  They are not the same question in general: a window that starts inside a minute keeps the
  events of that minute in the raw query and drops the minute's bucket in the rollup query, and a
  webhook stored twice counts once in the raw query and twice in the rollup.
\<close>

theorem dashboards_differ:
  "dashboard_raw_rows [demo_hook ''w1'' ''sent'' 90000] 61000 = [((60000, ''sms'', ''sent''), 1)] \<and>
   dashboard_rollup_rows (rollup_of [demo_hook ''w1'' ''sent'' 90000]) 61000 = [] \<and>
   dashboard_raw_rows [demo_hook ''w1'' ''sent'' 90000, demo_hook ''w1'' ''sent'' 90000] 60000 =
     [((60000, ''sms'', ''sent''), 1)] \<and>
   dashboard_rollup_rows (rollup_of [demo_hook ''w1'' ''sent'' 90000, demo_hook ''w1'' ''sent'' 90000]) 60000 =
     [((60000, ''sms'', ''sent''), 2)]"
  by code_simp

end
