(* ===== verification/Delivery_Scale.thy ===== *)
theory Delivery_Scale
  imports Corpora ClickHouse_Server
begin

text \<open>
  cmd/deliveryscale: workers that claim batch numbers from a shared counter bulk-load synthetic
  webhooks, the rollup is refreshed and compared with a recompute pair by pair, and the latencies of
  the two dashboard queries are summarised. A run of the loader is a schedule: the list of the
  workers' turns, in any order and of any length.
\<close>

section \<open>Synthetic rows\<close>

definition scale_statuses :: "string list" where
  "scale_statuses = [''sent'', ''delivered'', ''delivered'', ''delivered'', ''delivered'', ''bounced'', ''failed'']"

definition scale_id :: "nat \<Rightarrow> string" where
  "scale_id idx = ''scale-'' @ fmt_0d 10 (int idx)"

definition scale_row :: "nat \<Rightarrow> string \<times> string \<Rightarrow> string \<Rightarrow> int \<Rightarrow> delivery_webhook" where
  "scale_row idx ch st ms =
     \<lparr>webhook_id = scale_id idx, message_id = ''scale-msg-'' @ fmt_0d 10 (int (idx div 2)),
      channel = fst ch, status = st, wh_timestamp_ms = ms, provider = snd ch\<rparr>"

text \<open>genBatch, from row number idx on with n rows to come; both bounds given to Intn are positive.\<close>

fun gen_batch ::
  "'r rand \<Rightarrow> sim_floats \<Rightarrow> int \<Rightarrow> int \<Rightarrow> nat \<Rightarrow> nat \<Rightarrow> 'r \<Rightarrow> delivery_webhook list \<times> 'r"
where
  "gen_batch rd fl days now idx 0 r = ([], r)"
| "gen_batch rd fl days now idx (Suc n) r =
     (let (c, r1) = rd_intn rd (int (length channels)) r;
          (k, r2) = rd_intn rd (int (length scale_statuses)) r1;
          (u, r3) = rd_unit rd r2;
          (ws, r4) = gen_batch rd fl days now (idx + 1) n r3
      in (scale_row idx (channels ! nat c) (scale_statuses ! nat k)
            (unix_milli (now - sf_ago_days fl days u)) # ws, r4))"

section \<open>The loader\<close>

text \<open>
  A worker is between two batches, holds a batch it has claimed, or has returned. The two lists of
  batches are history: those whose insert returned nil and those whose insert returned an error.
\<close>

datatype worker_phase = Idle | Claimed nat | Finished

record ('r, 's) loader =
  ld_next :: nat
  ld_phases :: "worker_phase list"
  ld_rngs :: "'r list"
  ld_inserted :: nat
  ld_store :: 's
  ld_done :: "nat list"
  ld_failed :: "nat list"

definition new_loader :: "(int \<Rightarrow> 'r) \<Rightarrow> nat \<Rightarrow> 's \<Rightarrow> ('r, 's) loader" where
  "new_loader seed workers s =
     \<lparr>ld_next = 0, ld_phases = replicate workers Idle,
      ld_rngs = map (\<lambda>i. seed (int i + 1)) [0..<workers], ld_inserted = 0, ld_store = s,
      ld_done = [], ld_failed = []\<rparr>"

definition num_batches :: "nat \<Rightarrow> nat \<Rightarrow> nat" where
  "num_batches events bs = (events + bs - 1) div bs"

definition batch_len :: "nat \<Rightarrow> nat \<Rightarrow> nat \<Rightarrow> nat" where
  "batch_len events bs b = (if b * bs + bs > events then events - b * bs else bs)"

text \<open>
  One turn of worker i: it claims the next number (and returns when there is none), or it generates and
  inserts the batch it holds. ld-next is the counter plus one, the number the next claim gets.
\<close>

definition load_step ::
  "'r rand \<Rightarrow> sim_floats \<Rightarrow> int \<Rightarrow> int \<Rightarrow> nat \<Rightarrow> nat \<Rightarrow>
   (delivery_webhook list \<Rightarrow> 's \<Rightarrow> goerror option \<times> 's) \<Rightarrow> nat \<Rightarrow> ('r, 's) loader \<Rightarrow> ('r, 's) loader"
where
  "load_step rd fl days now events bs ins i ld =
     (if i \<ge> length (ld_phases ld) then ld
      else case ld_phases ld ! i of
        Finished \<Rightarrow> ld
      | Idle \<Rightarrow>
          (let b = ld_next ld
           in ld\<lparr>ld_next := b + 1,
                 ld_phases := (ld_phases ld)[i := if b \<ge> num_batches events bs then Finished else Claimed b]\<rparr>)
      | Claimed b \<Rightarrow>
          (let n = batch_len events bs b
           in if n = 0 then ld\<lparr>ld_phases := (ld_phases ld)[i := Idle], ld_done := b # ld_done ld\<rparr>
              else
                let (rows, r') = gen_batch rd fl days now (b * bs) n (ld_rngs ld ! i);
                    ld1 = ld\<lparr>ld_phases := (ld_phases ld)[i := Idle], ld_rngs := (ld_rngs ld)[i := r']\<rparr>
                in case ins rows (ld_store ld) of
                     (Some e, s') \<Rightarrow> ld1\<lparr>ld_store := s', ld_failed := b # ld_failed ld\<rparr>
                   | (None, s') \<Rightarrow>
                       ld1\<lparr>ld_store := s', ld_inserted := ld_inserted ld + n, ld_done := b # ld_done ld\<rparr>))"

definition load_run ::
  "'r rand \<Rightarrow> sim_floats \<Rightarrow> int \<Rightarrow> int \<Rightarrow> nat \<Rightarrow> nat \<Rightarrow>
   (delivery_webhook list \<Rightarrow> 's \<Rightarrow> goerror option \<times> 's) \<Rightarrow> nat list \<Rightarrow> ('r, 's) loader \<Rightarrow> ('r, 's) loader"
where
  "load_run rd fl days now events bs ins sched ld = fold (load_step rd fl days now events bs ins) sched ld"

section \<open>The comparison\<close>

definition pair_key :: "channel_status_count \<Rightarrow> string" where
  "pair_key c = csc_channel c @ ''|'' @ csc_status c"

definition counts_map :: "channel_status_count list \<Rightarrow> (string \<times> int) list" where
  "counts_map cs = fold (\<lambda>c m. AList.update (pair_key c) (csc_count c) m) cs []"

definition count_of :: "(string \<times> int) list \<Rightarrow> string \<Rightarrow> int" where
  "count_of m k = (case map_of m k of None \<Rightarrow> 0 | Some n \<Rightarrow> n)"

record comparison =
  cm_exact :: nat
  cm_pairs :: nat
  cm_recompute_total :: int
  cm_rollup_total :: int

definition compare_pair :: "(string \<times> int) list \<Rightarrow> (string \<times> int) list \<Rightarrow> string \<Rightarrow> comparison \<Rightarrow> comparison" where
  "compare_pair rec_map roll_map k c =
     (let rc = count_of rec_map k; rl = count_of roll_map k
      in \<lparr>cm_exact = cm_exact c + (if rc = rl then 1 else 0), cm_pairs = cm_pairs c + 1,
          cm_recompute_total = cm_recompute_total c + rc, cm_rollup_total = cm_rollup_total c + rl\<rparr>)"

definition compare_counts :: "channel_status_count list \<Rightarrow> channel_status_count list \<Rightarrow> comparison" where
  "compare_counts recompute rollup =
     (let rec_map = counts_map recompute; roll_map = counts_map rollup;
          keys = sort (map fst rec_map)
      in fold (compare_pair rec_map roll_map) keys
           \<lparr>cm_exact = 0, cm_pairs = 0, cm_recompute_total = 0, cm_rollup_total = 0\<rparr>)"

section \<open>Percentiles\<close>

text \<open>
  The latencies are whole milliseconds. The float64 product p * len, truncated to an integer, is the
  parameter trunc. The minimum and the maximum of no values are an index out of range, the value None.
\<close>

definition percentile :: "(nat \<Rightarrow> int) \<Rightarrow> int list \<Rightarrow> int" where
  "percentile trunc lats =
     (if lats = [] then 0
      else let sorted = sort lats;
               i0 = trunc (length sorted) - 1;
               i1 = (if i0 < 0 then 0 else i0);
               i2 = (if i1 \<ge> int (length sorted) then int (length sorted) - 1 else i1)
           in sorted ! nat i2)"

fun min_value_of :: "int list \<Rightarrow> int option" where
  "min_value_of [] = None"
| "min_value_of (v # vs) = Some (fold (\<lambda>v m. if v < m then v else m) vs v)"

fun max_value_of :: "int list \<Rightarrow> int option" where
  "max_value_of [] = None"
| "max_value_of (v # vs) = Some (fold (\<lambda>v m. if v > m then v else m) vs v)"

section \<open>What the loader stores\<close>

lemma gen_batch_ids:
  "map webhook_id (fst (gen_batch rd fl days now idx n r)) = map scale_id [idx..<idx + n]"
proof (induction n arbitrary: idx r)
  case (Suc n)
  show ?case
    unfolding upt_first by (simp add: Let_def case_prod_beta Suc.IH scale_row_def del: upt_Suc)
qed simp

definition sane_clock :: "sim_floats \<Rightarrow> int \<Rightarrow> int \<Rightarrow> bool" where
  "sane_clock fl days now \<longleftrightarrow>
     (\<forall>u. 0 \<le> unix_milli (now - sf_ago_days fl days u) \<and> unix_milli (now - sf_ago_days fl days u) < 253402300800000)"

lemma digits_utf8: "list_all is_digit s \<Longrightarrow> utf8_ok s"
  by (rule utf8_ok_ascii) (auto simp: list_all_iff is_digit_ascii)

lemma ascii_append_digits:
  "\<forall>c \<in> set p. (of_char c :: nat) < 128 \<Longrightarrow> list_all is_digit s \<Longrightarrow> utf8_ok (p @ s)"
  by (rule utf8_ok_ascii) (auto simp: list_all_iff is_digit_ascii)

lemma scale_row_storable:
  assumes "ch \<in> set channels" and "st \<in> set scale_statuses" and "0 \<le> ms" and "ms < 253402300800000"
  shows "storable_webhook (scale_row idx ch st ms)"
proof -
  have "\<forall>p \<in> set channels. utf8_ok (fst p) \<and> utf8_ok (snd p)" "\<forall>st \<in> set scale_statuses. utf8_ok st"
    by code_simp+
  moreover have "utf8_ok (scale_id i)" for i
    unfolding scale_id_def by (rule ascii_append_digits [OF _ fmt_0d_nat_digits]) simp
  moreover have "utf8_ok (''scale-msg-'' @ fmt_0d 10 (int j))" for j
    by (rule ascii_append_digits [OF _ fmt_0d_nat_digits]) simp
  ultimately show ?thesis
    using assms unfolding storable_webhook_def scale_row_def delivery_webhook.select_convs by blast
qed

lemma drawn_in:
  assumes "rand_ok rd" and "xs \<noteq> []"
  shows "xs ! nat (fst (rd_intn rd (int (length xs)) r)) \<in> set xs"
  using assms unfolding rand_ok_def by (intro nth_mem) (simp add: nat_less_iff)

lemma gen_batch_storable:
  assumes "rand_ok rd" and "sane_clock fl days now"
  shows "list_all storable_webhook (fst (gen_batch rd fl days now idx n r))"
proof (induction n arbitrary: idx r)
  case (Suc n)
  have "channels \<noteq> []" "scale_statuses \<noteq> []" by (simp_all add: channels_def scale_statuses_def)
  note drawn = drawn_in [OF assms(1) this(1)] drawn_in [OF assms(1) this(2)]
  show ?case
    using assms(2) unfolding sane_clock_def
    by (simp add: Let_def case_prod_beta Suc.IH scale_row_storable [OF drawn])
qed simp

lemma scale_id_inject: "scale_id i = scale_id j \<longleftrightarrow> i = j"
  by (simp add: scale_id_def)

text \<open>The batches cover the rows exactly, and each of them has at least one.\<close>

lemma batch_len_min: "batch_len events bs b = min bs (events - b * bs)"
  by (auto simp: batch_len_def)

lemma batches_prefix:
  "concat (map (\<lambda>b. [b * bs..<b * bs + batch_len events bs b]) [0..<k]) = [0..<min events (k * bs)]"
proof (induction k)
  case (Suc k)
  have "[0..<min events (k * bs)] @ [k * bs..<k * bs + min bs (events - k * bs)] = [0..<min events (Suc k * bs)]"
  proof (cases "k * bs \<le> events")
    case True
    then have "min events (Suc k * bs) = k * bs + min bs (events - k * bs)" by simp
    with True upt_add_eq_append [of 0 "k * bs" "min bs (events - k * bs)"] show ?thesis by simp
  qed simp
  with Suc show ?case by (simp add: batch_len_min)
qed simp

lemma batch_len_pos: "0 < bs \<Longrightarrow> b < num_batches events bs \<Longrightarrow> 0 < batch_len events bs b"
proof -
  assume bs: "0 < bs" and "b < num_batches events bs"
  then have "Suc b * bs \<le> events + bs - 1"
    by (simp add: num_batches_def less_eq_div_iff_mult_less_eq flip: Suc_le_eq)
  with bs show ?thesis by (simp add: batch_len_min)
qed

lemma batches_cover:
  assumes "0 < bs"
  shows "concat (map (\<lambda>b. [b * bs..<b * bs + batch_len events bs b]) [0..<num_batches events bs]) = [0..<events]"
proof -
  have "(events + bs - 1) mod bs < bs" using assms by simp
  then have "events \<le> num_batches events bs * bs"
    using div_mult_mod_eq [of "events + bs - 1" bs] assms unfolding num_batches_def by linarith
  then show ?thesis by (simp add: batches_prefix min_absorb1)
qed

text \<open>
  The invariant: every number below the counter is held by one worker or is in one of the two
  histories, once; the counter of inserted rows is the size of the confirmed batches; and the table
  has the confirmed batches and some of those whose insert failed.
\<close>

fun held :: "worker_phase \<Rightarrow> nat multiset" where
  "held (Claimed b) = {#b#}"
| "held _ = {#}"

definition batch_ids :: "nat \<Rightarrow> nat \<Rightarrow> nat \<Rightarrow> string list" where
  "batch_ids events bs b = map scale_id [b * bs..<b * bs + batch_len events bs b]"

text \<open>No channel has the separator of the comparison's keys.\<close>

definition bar_free :: "delivery_webhook \<Rightarrow> bool" where
  "bar_free w \<longleftrightarrow> CHR ''|'' \<notin> set (channel w)"

lemma gen_batch_bar_free:
  assumes "rand_ok rd"
  shows "list_all bar_free (fst (gen_batch rd fl days now idx n r))"
proof (induction n arbitrary: idx r)
  case (Suc n)
  have "channels \<noteq> []" by (simp add: channels_def)
  moreover have "\<forall>p \<in> set channels. CHR ''|'' \<notin> set (fst p)" by code_simp
  ultimately have "bar_free (scale_row idx (channels ! nat (fst (rd_intn rd (int (length channels)) r))) st ms)"
    for st ms
    using drawn_in [OF assms, of channels] by (simp add: bar_free_def scale_row_def)
  then show ?case by (simp add: Let_def case_prod_beta Suc.IH)
qed simp

definition load_inv :: "nat \<Rightarrow> nat \<Rightarrow> ('s \<Rightarrow> delivery_webhook list) \<Rightarrow> ('r, 's) loader \<Rightarrow> bool" where
  "load_inv events bs stored ld \<longleftrightarrow>
     length (ld_rngs ld) = length (ld_phases ld)
     \<and> mset (ld_done ld) + mset (ld_failed ld) + sum_list (map held (ld_phases ld)) =
         mset [0..<min (ld_next ld) (num_batches events bs)]
     \<and> ld_inserted ld = sum_list (map (batch_len events bs) (ld_done ld))
     \<and> (\<exists>F. mset F \<subseteq># mset (ld_failed ld) \<and>
          mset (map webhook_id (stored (ld_store ld))) = mset (concat (map (batch_ids events bs) (ld_done ld @ F))))
     \<and> list_all bar_free (stored (ld_store ld))"

lemma mset_upt_Suc: "mset [0..<Suc n] = add_mset n (mset [0..<n])"
  by (simp only: upt_Suc_append le0 mset_append mset.simps) simp

lemma held_update:
  "i < length ps \<Longrightarrow> sum_list (map held (ps[i := p])) + held (ps ! i) = sum_list (map held ps) + held p"
proof (induction ps arbitrary: i)
  case (Cons q ps)
  then show ?case by (cases i) (auto simp: ac_simps)
qed simp

lemma load_inv_new:
  assumes "stored s = []"
  shows "load_inv events bs stored (new_loader seed workers s)"
proof -
  have "sum_list (map held (replicate n Idle)) = {#}" for n by (induction n) simp_all
  then show ?thesis using assms by (auto simp: load_inv_def new_loader_def)
qed

text \<open>When the counter reaches the number of rows, every batch was confirmed and every row is stored once.\<close>

lemma load_inv_complete:
  assumes "0 < bs" and inv: "load_inv events bs stored ld" and all: "ld_inserted ld = events"
  shows "ld_failed ld = []" and "mset (map webhook_id (stored (ld_store ld))) = mset (map scale_id [0..<events])"
proof -
  define nb m where "nb = num_batches events bs" and "m = min (ld_next ld) nb"
  define R where "R = mset (ld_failed ld) + sum_list (map held (ld_phases ld)) + mset [m..<nb]"
  have "[0..<nb] = [0..<m] @ [m..<nb]"
    using upt_add_eq_append [of 0 m "nb - m"] by (simp add: m_def)
  then have whole: "mset [0..<nb] = mset (ld_done ld) + R"
    using inv unfolding load_inv_def R_def m_def nb_def by (simp add: ac_simps del: mset_upt)
  have "sum_list (map (batch_len events bs) [0..<nb]) = events"
    using arg_cong [OF batches_cover [OF assms(1), of events], of length] by (simp add: nb_def length_concat comp_def)
  then have "sum_mset (image_mset (batch_len events bs) (mset [0..<nb])) = events"
    by (metis mset_map sum_mset_sum_list)
  moreover have "sum_mset (image_mset (batch_len events bs) (mset (ld_done ld))) = events"
    using inv all unfolding load_inv_def by (metis mset_map sum_mset_sum_list)
  ultimately have zero: "sum_mset (image_mset (batch_len events bs) R) = 0"
    by (simp add: whole del: mset_upt)
  have "R = {#}"
  proof (rule ccontr)
    assume "R \<noteq> {#}"
    then obtain b where b: "b \<in># R" by blast
    then have "b \<in># mset [0..<nb]" unfolding whole by simp
    with b batch_len_pos [OF assms(1), of b events] zero show False by (auto simp: nb_def)
  qed
  then have none: "mset (ld_failed ld) = {#}" and conf: "mset [0..<nb] = mset (ld_done ld)"
    unfolding R_def whole by simp_all
  then show "ld_failed ld = []" by simp
  obtain F where "mset F \<subseteq># mset (ld_failed ld)"
      "mset (map webhook_id (stored (ld_store ld))) = mset (concat (map (batch_ids events bs) (ld_done ld @ F)))"
    using inv unfolding load_inv_def by blast
  then have "mset (map webhook_id (stored (ld_store ld))) = mset (concat (map (batch_ids events bs) (ld_done ld)))"
    by (simp add: none)
  also have "\<dots> = mset (concat (map (batch_ids events bs) [0..<nb]))"
    using conf by (metis mset_concat mset_map sum_mset_sum_list)
  also have "concat (map (batch_ids events bs) [0..<nb]) =
      map scale_id (concat (map (\<lambda>b. [b * bs..<b * bs + batch_len events bs b]) [0..<nb]))"
    by (simp add: map_concat comp_def batch_ids_def [abs_def])
  finally show "mset (map webhook_id (stored (ld_store ld))) = mset (map scale_id [0..<events])"
    by (simp only: batches_cover [OF assms(1)] nb_def)
qed

text \<open>Any store that keeps the contract: an insert that fails has stored the batch or nothing.\<close>

context webhook_store
begin

lemma load_step_inv:
  assumes rd: "rand_ok rd" and storable: "\<And>idx n r. list_all storable (fst (gen_batch rd fl days now idx n r))"
    and inv: "load_inv events bs stored ld"
  shows "load_inv events bs stored (load_step rd fl days now events bs insert_batch i ld)"
proof (cases "i < length (ld_phases ld)")
  case i: True
  note upd = held_update [OF i]
  from inv have len: "length (ld_rngs ld) = length (ld_phases ld)"
    and parts: "mset (ld_done ld) + mset (ld_failed ld) + sum_list (map held (ld_phases ld)) =
      mset [0..<min (ld_next ld) (num_batches events bs)]"
    and bf: "list_all bar_free (stored (ld_store ld))"
    and cnt: "ld_inserted ld = sum_list (map (batch_len events bs) (ld_done ld))"
    unfolding load_inv_def by blast+
  from inv obtain F where F: "mset F \<subseteq># mset (ld_failed ld)"
      "mset (map webhook_id (stored (ld_store ld))) = mset (concat (map (batch_ids events bs) (ld_done ld @ F)))"
    unfolding load_inv_def by blast
  show ?thesis
  proof (cases "ld_phases ld ! i")
    case Idle
    have "mset [0..<min (ld_next ld + 1) (num_batches events bs)] =
        mset [0..<min (ld_next ld) (num_batches events bs)] +
        (if ld_next ld \<ge> num_batches events bs then {#} else {#ld_next ld#})"
      by (auto simp: min_def not_le Suc_le_eq mset_upt_Suc simp del: upt_Suc mset_upt)
    with upd [of "if ld_next ld \<ge> num_batches events bs then Finished else Claimed (ld_next ld)"] parts
    show ?thesis
      using len cnt F bf by (auto simp: load_step_def load_inv_def Let_def Idle i)
  next
    case Finished
    then show ?thesis using inv by (simp add: load_step_def)
  next
    case (Claimed b)
    from upd [of Idle] have h: "sum_list (map held (ld_phases ld)) = add_mset b (sum_list (map held ((ld_phases ld)[i := Idle])))"
      by (simp add: Claimed)
    show ?thesis
    proof (cases "batch_len events bs b = 0")
      case True
      then show ?thesis
        using len cnt F parts h i bf by (auto simp: load_step_def load_inv_def Let_def Claimed batch_ids_def)
    next
      case False
      obtain rows r' where g: "gen_batch rd fl days now (b * bs) (batch_len events bs b) (ld_rngs ld ! i) = (rows, r')"
        by (cases "gen_batch rd fl days now (b * bs) (batch_len events bs b) (ld_rngs ld ! i)")
      have ids: "map webhook_id rows = batch_ids events bs b" and ok: "list_all storable rows" and free: "list_all bar_free rows"
        using gen_batch_ids [of rd fl days now "b * bs" "batch_len events bs b" "ld_rngs ld ! i"]
          storable [of "b * bs" "batch_len events bs b" "ld_rngs ld ! i"]
          gen_batch_bar_free [OF rd, of fl days now "b * bs" "batch_len events bs b" "ld_rngs ld ! i"] by (simp_all add: g batch_ids_def)
      obtain e s' where e: "insert_batch rows (ld_store ld) = (e, s')" by (cases "insert_batch rows (ld_store ld)")
      show ?thesis
      proof (cases e)
        case None
        with e insert_ok [OF ok] have st: "stored s' = stored (ld_store ld) @ rows" by blast
        with bf free have "list_all bar_free (stored s')" by simp
        moreover from st F ids have "mset (map webhook_id (stored s')) =
            mset (concat (map (batch_ids events bs) (b # ld_done ld @ F)))" by simp
        ultimately show ?thesis using F(1)
          len cnt parts h i False e None
          by (auto simp: load_step_def load_inv_def Let_def Claimed g)
      next
        case (Some x)
        from e insert_any [OF ok] have st: "stored s' = stored (ld_store ld) \<or> stored s' = stored (ld_store ld) @ rows"
          by blast
        with bf free have bf': "list_all bar_free (stored s')" by auto
        from st have "\<exists>F. mset F \<subseteq># mset (b # ld_failed ld) \<and>
            mset (map webhook_id (stored s')) = mset (concat (map (batch_ids events bs) (ld_done ld @ F)))"
        proof
          assume "stored s' = stored (ld_store ld)"
          with F show ?thesis by (intro exI [of _ F]) (auto intro: subset_mset.order_trans)
        next
          assume "stored s' = stored (ld_store ld) @ rows"
          with F ids show ?thesis by (intro exI [of _ "b # F"]) simp
        qed
        then show ?thesis
          using len cnt parts h i False e Some bf'
          by (auto simp: load_step_def load_inv_def Let_def Claimed g)
      qed
    qed
  qed
qed (use inv in \<open>simp add: load_step_def\<close>)

lemma load_run_inv:
  assumes "rand_ok rd" and "\<And>idx n r. list_all storable (fst (gen_batch rd fl days now idx n r))"
    and "load_inv events bs stored ld"
  shows "load_inv events bs stored (load_run rd fl days now events bs insert_batch sched ld)"
  using assms(3) unfolding load_run_def
  by (induction sched arbitrary: ld) (simp_all add: load_step_inv [OF assms(1,2)])

end

section \<open>What the comparison finds\<close>

lemma compare_pair_fold:
  "fold (compare_pair m m') ks c =
     \<lparr>cm_exact = cm_exact c + length (filter (\<lambda>k. count_of m k = count_of m' k) ks),
      cm_pairs = cm_pairs c + length ks,
      cm_recompute_total = cm_recompute_total c + sum_list (map (count_of m) ks),
      cm_rollup_total = cm_rollup_total c + sum_list (map (count_of m') ks)\<rparr>"
  by (induction ks arbitrary: c) (simp_all add: compare_pair_def Let_def)

lemma keys_counts_fold:
  "set (map fst (fold (\<lambda>c m. AList.update (pair_key c) (csc_count c) m) cs m)) = pair_key ` set cs \<union> fst ` set m"
proof (induction cs arbitrary: m)
  case (Cons c cs)
  then show ?case by (simp add: dom_update)
qed simp

lemma distinct_counts_fold:
  "distinct (map fst m) \<Longrightarrow> distinct (map fst (fold (\<lambda>c m. AList.update (pair_key c) (csc_count c) m) cs m))"
  by (induction cs arbitrary: m) (simp_all add: distinct_update)

lemma lookup_counts_fold:
  "distinct (map pair_key cs) \<Longrightarrow> c \<in> set cs \<Longrightarrow>
     map_of (fold (\<lambda>c m. AList.update (pair_key c) (csc_count c) m) cs m) (pair_key c) = Some (csc_count c)"
proof (induction cs arbitrary: m)
  case (Cons d cs)
  have other: "k \<notin> pair_key ` set es \<Longrightarrow>
      map_of (fold (\<lambda>c m. AList.update (pair_key c) (csc_count c) m) es n) k = map_of n k" for k es n
    by (induction es arbitrary: n) (simp_all add: map_of_update)
  show ?case
  proof (cases "c = d")
    case True
    with Cons.prems have "pair_key c \<notin> pair_key ` set cs" by simp
    with True show ?thesis by (simp add: other map_of_update)
  next
    case False
    with Cons show ?thesis by simp
  qed
qed simp

lemma compare_same:
  assumes "distinct (map pair_key cs)"
  shows "compare_counts cs cs =
    \<lparr>cm_exact = length cs, cm_pairs = length cs, cm_recompute_total = sum_list (map csc_count cs),
     cm_rollup_total = sum_list (map csc_count cs)\<rparr>"
proof -
  let ?m = "counts_map cs"
  have d: "distinct (map fst ?m)" and k: "set (map fst ?m) = set (map pair_key cs)"
    unfolding counts_map_def using keys_counts_fold [of cs "[]"] by (simp_all add: distinct_counts_fold)
  from iffD1 [OF set_eq_iff_mset_eq_distinct [OF d assms] k]
  have perm: "mset (map fst ?m) = mset (map pair_key cs)" .
  have "map (count_of ?m \<circ> pair_key) cs = map csc_count cs"
    unfolding counts_map_def count_of_def by (simp add: lookup_counts_fold [OF assms])
  then have "sum_list (map (count_of ?m) (sort (map fst ?m))) = sum_list (map csc_count cs)"
    using perm by (metis list.map_comp mset_map mset_sort sum_mset_sum_list)
  moreover have "length (map fst ?m) = length cs"
    using perm by (metis length_map size_mset)
  ultimately show ?thesis by (simp add: compare_counts_def Let_def compare_pair_fold)
qed

lemma bar_keys: "CHR ''|'' \<notin> set a \<Longrightarrow> CHR ''|'' \<notin> set b \<Longrightarrow> a @ CHR ''|'' # c = b @ CHR ''|'' # d \<longleftrightarrow> a = b \<and> c = d"
proof (induction a arbitrary: b)
  case Nil
  then show ?case by (cases b) auto
next
  case (Cons x a)
  then show ?case by (cases b) auto
qed

lemma totals_keys_distinct:
  assumes "list_all bar_free ws"
  shows "distinct (map pair_key (map csc_of (raw_totals ws)))"
proof -
  have inj: "inj_on (\<lambda>k. fst k @ ''|'' @ snd k) (set (sort (remdups (map pair_of ws))))"
  proof (rule inj_onI)
    fix k l assume "k \<in> set (sort (remdups (map pair_of ws)))" "l \<in> set (sort (remdups (map pair_of ws)))"
      and eq: "fst k @ ''|'' @ snd k = fst l @ ''|'' @ snd l"
    then have "CHR ''|'' \<notin> set (fst k)" "CHR ''|'' \<notin> set (fst l)"
      using assms by (auto simp: pair_of_def list_all_iff bar_free_def)
    from bar_keys [OF this, of "snd k" "snd l"] eq show "k = l" by (simp add: prod_eq_iff)
  qed
  have keys: "map pair_key (map csc_of (raw_totals ws)) =
      map (\<lambda>k. fst k @ ''|'' @ snd k) (sort (remdups (map pair_of ws)))"
    by (simp add: raw_totals_def pair_key_def)
  show ?thesis unfolding keys unfolding distinct_map using inj by simp
qed

lemma sum_list_sort: "(\<Sum>k \<leftarrow> sort xs. f k) = (\<Sum>k \<leftarrow> xs. f k :: int)"
  by (metis mset_map mset_sort sum_mset_sum_list)

lemma totals_sum: "sum_list (map csc_count (map csc_of (raw_totals ws))) = int (length ws)"
proof -
  have "sum_list (map csc_count (map csc_of (raw_totals ws))) =
      (\<Sum>k \<leftarrow> sort (remdups (map pair_of ws)). int (count_list (map pair_of ws) k))"
    by (simp add: raw_totals_def comp_def)
  also have "\<dots> = (\<Sum>k \<leftarrow> remdups (map pair_of ws). int (count_list (map pair_of ws) k))"
    by (rule sum_list_sort)
  also have "\<dots> = int (length ws)"
    using sum_counts_filter [of "map pair_of ws" "\<lambda>_. True"] by (simp flip: int_sum_list)
  finally show ?thesis .
qed

text \<open>
  Over any server that executes the statements: when the loader's workers, in whatever order they took
  their turns, report every row inserted, the table holds each row once, and the comparison of its totals
  with themselves counts every pair exact.
\<close>

lemma load_exact:
  assumes server: "executes db srv tab view" and env: "decodes env view"
    and rd: "rand_ok rd" and clock: "sane_clock fl days now"
    and bs: "0 < bs" and empty: "tb_events (tab s0) = []"
    and load: "load_run rd fl days now events bs (insert_webhooks env srv db) sched (new_loader seed workers s0) = ld"
    and all: "ld_inserted ld = events" and ws: "ws = tb_events (tab (ld_store ld))"
  shows "mset (map webhook_id ws) = mset (map scale_id [0..<events])" and "length ws = events"
    and "xs = map csc_of (raw_totals ws) \<Longrightarrow> compare_counts xs xs =
      \<lparr>cm_exact = length xs, cm_pairs = length xs, cm_recompute_total = int events, cm_rollup_total = int events\<rparr>"
proof -
  note ch = clickhouse.intro [OF server env]
  have abs: "clickhouse.stored tab = (\<lambda>s. tb_events (tab s))"
    by (rule ext) (rule clickhouse.stored_def [OF ch])
  have "load_inv events bs (\<lambda>s. tb_events (tab s)) (new_loader seed workers s0)"
    by (rule load_inv_new) (rule empty)
  from webhook_store.load_run_inv [OF clickhouse.webhook_store [OF ch] rd gen_batch_storable [OF rd clock],
      unfolded abs, OF this, of sched]
  have inv: "load_inv events bs (\<lambda>s. tb_events (tab s)) ld" by (simp only: load)
  show ids: "mset (map webhook_id ws) = mset (map scale_id [0..<events])"
    unfolding ws by (rule load_inv_complete(2) [OF bs inv all])
  then show n: "length ws = events" by (metis length_map length_upt diff_zero size_mset)
  have "list_all bar_free ws" using inv by (simp add: load_inv_def ws)
  from compare_same [OF totals_keys_distinct [OF this]]
  show "xs = map csc_of (raw_totals ws) \<Longrightarrow> compare_counts xs xs =
      \<lparr>cm_exact = length xs, cm_pairs = length xs, cm_recompute_total = int events, cm_rollup_total = int events\<rparr>"
    by (simp only: totals_sum n length_map)
qed

definition still_floats :: sim_floats where
  "still_floats = \<lparr>sf_ago_days = (\<lambda>d u. 0), sf_ago_minutes = (\<lambda>m u. 0), sf_price = (\<lambda>u. ''1.00'')\<rparr>"

definition demo_scale :: "(nat list, tables) loader" where
  "demo_scale = load_run scripted_rand still_floats 30 90000000000 1 1 (insert_webhooks plain_env (ch_reliable ''d'') ''d'')
     [1, 0, 1] (new_loader (\<lambda>_. []) 2 \<lparr>tb_events = [], tb_rollup = []\<rparr>)"

definition demo_scale_row :: delivery_webhook where
  "demo_scale_row = scale_row 0 (''email'', ''sendgrid'') ''sent'' 90000"

lemma still_clock: "sane_clock still_floats 30 90000000000"
  by (simp add: sane_clock_def still_floats_def unix_milli_def)

lemma demo_scale_load:
  "demo_scale = \<lparr>ld_next = 2, ld_phases = [Finished, Idle], ld_rngs = [[], []], ld_inserted = 1,
     ld_store = \<lparr>tb_events = [demo_scale_row], tb_rollup = []\<rparr>, ld_done = [0], ld_failed = []\<rparr>"
proof -
  have g: "gen_batch scripted_rand still_floats 30 90000000000 0 (Suc 0) [] = ([demo_scale_row], [])"
    by (simp add: scripted_rand_def still_floats_def channels_def scale_statuses_def unix_milli_def demo_scale_row_def)
  have "storable_webhook demo_scale_row"
    unfolding demo_scale_row_def by (rule scale_row_storable) (simp_all add: channels_def scale_statuses_def)
  then have i: "insert_webhooks plain_env (ch_reliable ''d'') ''d'' [demo_scale_row] \<lparr>tb_events = [], tb_rollup = []\<rparr> =
      (None, \<lparr>tb_events = [demo_scale_row], tb_rollup = []\<rparr>)"
    by (simp add: rel_insert)
  have n: "num_batches (Suc 0) (Suc 0) = Suc 0" "batch_len (Suc 0) (Suc 0) 0 = Suc 0" by (simp_all add: num_batches_def batch_len_def)
  show ?thesis
    unfolding demo_scale_def load_run_def
    by (simp add: load_step_def new_loader_def Let_def n g i numeral_2_eq_2 upt_rec del: gen_batch.simps)
qed

text \<open>
  The comparison looks only at the pairs of the recompute: over an empty log it reports no pair, equal
  totals and so exact counts, whatever the rollup table still holds.
\<close>

theorem compare_misses_rollup_only:
  "compare_counts [] rollup = \<lparr>cm_exact = 0, cm_pairs = 0, cm_recompute_total = 0, cm_rollup_total = 0\<rparr>"
  by (simp add: compare_counts_def counts_map_def Let_def)

section \<open>Percentiles of a sample\<close>

lemma sorted_ranks:
  fixes xs :: "'a::linorder list"
  assumes "sorted xs" and "i < length xs"
  shows "i + 1 \<le> length (filter (\<lambda>v. v \<le> xs ! i) xs)" and "length xs - i \<le> length (filter (\<lambda>v. xs ! i \<le> v) xs)"
proof -
  have "filter (\<lambda>v. v \<le> xs ! i) (take (i + 1) xs) = take (i + 1) xs"
    using sorted_nth_mono [OF assms(1) _ assms(2)]
    by (auto simp: filter_id_conv in_set_conv_nth less_Suc_eq_le)
  with assms(2) show "i + 1 \<le> length (filter (\<lambda>v. v \<le> xs ! i) xs)"
    by (metis append_take_drop_id filter_append length_append length_take le_add1 min.absorb2 Suc_eq_plus1 Suc_leI)
  have "filter (\<lambda>v. xs ! i \<le> v) (drop i xs) = drop i xs"
    using sorted_nth_mono [OF assms(1), of i] by (auto simp: filter_id_conv in_set_conv_nth)
  then show "length xs - i \<le> length (filter (\<lambda>v. xs ! i \<le> v) xs)"
    by (metis append_take_drop_id filter_append length_append length_drop le_add2)
qed

lemma fold_min_eq: "fold (\<lambda>v m. if v < m then v else m) vs (v::int) = Min (set (v # vs))"
proof (induction vs arbitrary: v)
  case (Cons w vs)
  have "(if w < v then w else v) = min v w" by simp
  with Cons show ?case by (cases "vs = []") (simp_all add: ac_simps)
qed simp

lemma fold_max_eq: "fold (\<lambda>v m. if v > m then v else m) vs (v::int) = Max (set (v # vs))"
proof (induction vs arbitrary: v)
  case (Cons w vs)
  have "(if w > v then w else v) = max v w" by simp
  with Cons show ?case by (cases "vs = []") (simp_all add: ac_simps)
qed simp

text \<open>
  Whatever the float64 product gives, percentile of a sample that is not empty is one of its values,
  between the reported minimum and maximum, and its rank is the clamped index: at least that many
  values and one more are not above it, and the rest of the sample is not below it.
\<close>

theorem percentile_rank:
  fixes lats :: "int list" and trunc :: "nat \<Rightarrow> int"
  defines "i \<equiv> nat (min (max (trunc (length lats) - 1) 0) (int (length lats) - 1))"
  assumes "lats \<noteq> []"
  shows "percentile trunc lats \<in> set lats \<and>
    min_value_of lats = Some (Min (set lats)) \<and> max_value_of lats = Some (Max (set lats)) \<and>
    i + 1 \<le> length (filter (\<lambda>v. v \<le> percentile trunc lats) lats) \<and>
    length lats - i \<le> length (filter (\<lambda>v. percentile trunc lats \<le> v) lats)"
proof -
  have "0 < length lats" using assms(2) by simp
  then have i: "i < length (sort lats)" unfolding i_def length_sort by linarith
  have p: "percentile trunc lats = sort lats ! i"
    using assms(2) unfolding percentile_def i_def Let_def length_sort by (auto simp: min_def max_def)
  have f: "length (filter P (sort lats)) = length (filter P lats)" for P
    by (metis mset_filter mset_sort size_mset)
  have "sort lats ! i \<in> set lats" using nth_mem [OF i] by simp
  moreover have "min_value_of lats = Some (Min (set lats))" "max_value_of lats = Some (Max (set lats))"
    using assms(2) by (cases lats; simp only: min_value_of.simps max_value_of.simps fold_min_eq fold_max_eq simp_thms)+
  ultimately show ?thesis
    using sorted_ranks [OF sorted_sort i] unfolding p f length_sort by blast
qed

theorem percentile_rank_witness:
  "percentile (\<lambda>n. int (19 * n) div 20) [7, 3, 9, 4] = 7 \<and>
   3 \<le> length (filter (\<lambda>v. v \<le> percentile (\<lambda>n. int (19 * n) div 20) [7, 3, 9, 4]) [7, 3, 9, 4 :: int])"
  using percentile_rank [of "[7, 3, 9, 4]" "\<lambda>n. int (19 * n) div 20"] by (simp add: percentile_def)

end
