(* ===== verification/Scale_Bench.thy ===== *)
theory Scale_Bench
  imports Delivery_Scale
begin

text \<open>
  The whole run of cmd/deliveryscale: schema, bulk load, refresh, the exactness check, and the latencies
  of the two dashboard queries. A fatal error is Inl, and so is a panic, with the text of the runtime; the
  schedule is the workers' turns until the last of them has returned.
\<close>

section \<open>The run\<close>

record scale_counts =
  sk_inserted :: nat
  sk_rows :: int
  sk_cmp :: comparison

text \<open>The load, with the row count of the log; the row count of the rollup is only printed.\<close>

definition scale_load ::
  "'b ch_env \<Rightarrow> ('s, 'b) server \<Rightarrow> string \<Rightarrow> 'r rand \<Rightarrow> sim_floats \<Rightarrow> (int \<Rightarrow> 'r) \<Rightarrow> nat \<Rightarrow> int \<Rightarrow> int \<Rightarrow> nat \<Rightarrow> nat \<Rightarrow> nat list \<Rightarrow> 's \<Rightarrow>
   (goerror + nat \<times> int) \<times> 's"
where
  "scale_load env srv db rd fl seed workers days now events bs sched s =
     (case truncate_all env srv db s of
        (Some e, s1) \<Rightarrow> (Inl (Wrapped ''clickhouse truncate'' e), s1)
      | (None, s1) \<Rightarrow>
          (if bs = 0 then (Inl (Errno ''integer divide by zero''), s1)
           else
             (let ld = load_run rd fl days now events bs (insert_webhooks env srv db) sched (new_loader seed workers s1)
              in case delivery_count_rows env srv db (ld_store ld) of
                   (Inl e, s2) \<Rightarrow> (Inl (Wrapped ''count rows'' e), s2)
                 | (Inr rows, s2) \<Rightarrow>
                     (case refresh_rollup env srv db s2 of
                        (Some e, s3) \<Rightarrow> (Inl (Wrapped ''refresh rollup'' e), s3)
                      | (None, s3) \<Rightarrow>
                          (case count_rollup_rows env srv db s3 of
                             (Inl e, s4) \<Rightarrow> (Inl (Wrapped ''count rollup rows'' e), s4)
                           | (Inr rollup_rows, s4) \<Rightarrow> (Inr (ld_inserted ld, rows), s4))))))"

definition scale_reuse :: "'b ch_env \<Rightarrow> ('s, 'b) server \<Rightarrow> string \<Rightarrow> 's \<Rightarrow> (goerror + nat \<times> int) \<times> 's" where
  "scale_reuse env srv db s =
     (case delivery_count_rows env srv db s of
        (Inl e, s1) \<Rightarrow> (Inl (Wrapped ''count rows'' e), s1)
      | (Inr rows, s1) \<Rightarrow> (Inr (0, rows), s1))"

text \<open>From EnsureSchema to the end of the exactness check; the table is loaded or reused.\<close>

definition scale_check ::
  "'b ch_env \<Rightarrow> ('s, 'b) server \<Rightarrow> string \<Rightarrow> ('s \<Rightarrow> (goerror + nat \<times> int) \<times> 's) \<Rightarrow> 's \<Rightarrow> (goerror + scale_counts) \<times> 's"
where
  "scale_check env srv db fill s =
     (case ensure_schema env srv db s of
        (Some e, s1) \<Rightarrow> (Inl (Wrapped ''clickhouse ensure schema'' e), s1)
      | (None, s1) \<Rightarrow>
          (case fill s1 of
             (Inl e, s2) \<Rightarrow> (Inl e, s2)
           | (Inr (inserted, rows), s2) \<Rightarrow>
               (case recompute_counts env srv db s2 of
                  (Inl e, s3) \<Rightarrow> (Inl (Wrapped ''recompute'' e), s3)
                | (Inr xs, s3) \<Rightarrow>
                    (case rollup_counts env srv db s3 of
                       (Inl e, s4) \<Rightarrow> (Inl (Wrapped ''rollup counts'' e), s4)
                     | (Inr ys, s4) \<Rightarrow>
                         (Inr \<lparr>sk_inserted = inserted, sk_rows = rows, sk_cmp = compare_counts xs ys\<rparr>, s4)))))"

text \<open>The trials of one query, given what the clock says each of them took, in milliseconds.\<close>

fun query_trials ::
  "string \<Rightarrow> ('s \<Rightarrow> (goerror + 'b) \<times> 's) \<Rightarrow> nat \<Rightarrow> int list \<Rightarrow> int list \<Rightarrow> 's \<Rightarrow> (goerror + int list) \<times> 's"
where
  "query_trials label q i [] lats s = (Inr lats, s)"
| "query_trials label q i (d # ds) lats s =
     (case q s of
        (Inl e, s1) \<Rightarrow> (Inl (Wrapped (label @ fmt_d (int i)) e), s1)
      | (Inr body, s1) \<Rightarrow> query_trials label q (i + 1) ds (lats @ [d]) s1)"

record latency_line =
  ll_p95 :: int
  ll_min :: int
  ll_max :: int
  ll_n :: nat

definition latency_of :: "(nat \<Rightarrow> int) \<Rightarrow> int list \<Rightarrow> goerror + latency_line" where
  "latency_of trunc lats =
     (case (min_value_of lats, max_value_of lats) of
        (Some mn, Some mx) \<Rightarrow>
          Inr \<lparr>ll_p95 = percentile trunc lats, ll_min = mn, ll_max = mx, ll_n = length lats\<rparr>
      | _ \<Rightarrow> Inl (Errno ''index out of range [0] with length 0''))"

definition scale_latencies ::
  "'b ch_env \<Rightarrow> ('s, 'b) server \<Rightarrow> string \<Rightarrow> (nat \<Rightarrow> int) \<Rightarrow> int \<Rightarrow> int list \<Rightarrow> int list \<Rightarrow> 's \<Rightarrow>
   (goerror + latency_line \<times> latency_line) \<times> 's"
where
  "scale_latencies env srv db trunc window_start raw_ms rollup_ms s =
     (case query_trials ''dashboard raw query trial '' (dashboard_raw_query env srv db window_start) 0 raw_ms [] s of
        (Inl e, s1) \<Rightarrow> (Inl e, s1)
      | (Inr raw, s1) \<Rightarrow>
          (case query_trials ''dashboard rollup query trial '' (dashboard_rollup_query env srv db window_start) 0
                  rollup_ms [] s1 of
             (Inl e, s2) \<Rightarrow> (Inl e, s2)
           | (Inr roll, s2) \<Rightarrow>
               (case (latency_of trunc raw, latency_of trunc roll) of
                  (Inl e, _) \<Rightarrow> (Inl e, s2)
                | (_, Inl e) \<Rightarrow> (Inl e, s2)
                | (Inr a, Inr b) \<Rightarrow> (Inr (a, b), s2))))"

definition scale_run ::
  "'b ch_env \<Rightarrow> ('s, 'b) server \<Rightarrow> string \<Rightarrow> ('s \<Rightarrow> (goerror + nat \<times> int) \<times> 's) \<Rightarrow> (nat \<Rightarrow> int) \<Rightarrow> int \<Rightarrow> int list \<Rightarrow> int list \<Rightarrow> 's \<Rightarrow>
   (goerror + scale_counts \<times> latency_line \<times> latency_line) \<times> 's"
where
  "scale_run env srv db fill trunc window_start raw_ms rollup_ms s =
     (case scale_check env srv db fill s of
        (Inl e, s1) \<Rightarrow> (Inl e, s1)
      | (Inr c, s1) \<Rightarrow>
          (case scale_latencies env srv db trunc window_start raw_ms rollup_ms s1 of
             (Inl e, s2) \<Rightarrow> (Inl e, s2)
           | (Inr (a, b), s2) \<Rightarrow> (Inr (c, a, b), s2)))"

section \<open>Lemmas\<close>

text \<open>What a count of rows is.\<close>

definition scalars :: "'b ch_env \<Rightarrow> ('b \<Rightarrow> ch_row list) \<Rightarrow> bool" where
  "scalars env view \<longleftrightarrow> (\<forall>b. ce_scalar env b = Inr (attr (concat (view b)) ''c''))"

context clickhouse
begin

lemma scalar_effect:
  assumes "ch_meaning db (q @ json_each_row) (tab s) = Some ([count_row n], tab s)" and "scalar_int env srv q s = (r, s')"
    and "scalars env view" and "n < 2 ^ 63"
  shows "stored s' = stored s \<and> totals s' = totals s \<and> (\<forall>i. r = Inr i \<longrightarrow> i = int n)"
proof -
  obtain r1 s1 where e: "ch_raw env srv (q @ json_each_row) s = (r1, s1)" by (metis prod.collapse)
  note same = raw_same [OF assms(1) e]
  have p: "parse_int64 (fmt_d (int n)) = (int n, None)" using assms(4) by (intro parse_int64_fmt_d) simp_all
  show ?thesis
  proof (cases r1)
    case (Inl x)
    with same e assms(2) show ?thesis by (auto simp: scalar_int_def)
  next
    case (Inr b)
    with same assms(3) have "ce_scalar env b = Inr (fmt_d (int n))" by (simp add: scalars_def count_row_def attr_def)
    with Inr e assms(2) p same show ?thesis by (auto simp: scalar_int_def)
  qed
qed

lemma count_rows_effect:
  assumes "delivery_count_rows env srv db s = (r, s')" and "scalars env view" and "length (stored s) < 2 ^ 63"
  shows "stored s' = stored s \<and> totals s' = totals s \<and> (\<forall>i. r = Inr i \<longrightarrow> i = int (length (stored s)))"
proof -
  have m: "ch_meaning db (count_events_sql db @ json_each_row) (tab s) = Some ([count_row (length (stored s))], tab s)"
    by (simp add: ch_meaning_def statement_texts stored_def)
  show ?thesis
    using scalar_effect [OF m _ assms(2,3)] assms(1) unfolding delivery_count_rows_def count_events_sql_def .
qed

lemma count_rollup_same:
  assumes "count_rollup_rows env srv db s = (r, s')"
  shows "stored s' = stored s \<and> totals s' = totals s"
proof -
  have m: "ch_meaning db (count_rollup_sql db @ json_each_row) (tab s) = Some ([count_row (length (tb_rollup (tab s)))], tab s)"
    by (simp add: ch_meaning_def statement_texts)
  obtain r1 s1 where e: "ch_raw env srv (count_rollup_sql db @ json_each_row) s = (r1, s1)" by (metis prod.collapse)
  with assms have "s' = s1"
    unfolding count_rollup_rows_def count_rollup_sql_def [symmetric] scalar_int_def
    by (auto split: sum.splits prod.splits option.splits)
  with raw_same [OF m e] show ?thesis by simp
qed

text \<open>A load that ran to its end, step by step.\<close>

lemma scale_load_steps:
  assumes "scale_load env srv db rd fl seed workers days now events bs sched s = (Inr (inserted, rows), s')"
  obtains s1 ld s2 s3 n where "stored s1 = []" "0 < bs"
    "ld = load_run rd fl days now events bs (insert_webhooks env srv db) sched (new_loader seed workers s1)"
    "inserted = ld_inserted ld" "delivery_count_rows env srv db (ld_store ld) = (Inr rows, s2)"
    "refresh_rollup env srv db s2 = (None, s3)" "count_rollup_rows env srv db s3 = (Inr n, s')"
  using assms truncate_effect [of s]
  by (auto simp: scale_load_def Let_def split: prod.splits option.splits sum.splits if_splits)

end

section \<open>Property\<close>

text \<open>
  The exactness claim, from EnsureSchema on, over any server that executes the statements, whatever the tables
  held before: when the check is reached and every row was reported inserted, then whatever the order of the
  workers' turns the table holds each row of the corpus once, the row count is the number of events, every
  (channel, status) pair of the recompute matches the rollup, and both totals are the number of events.
\<close>

theorem scale_check_exact:
  assumes server: "executes db srv tab view" and env: "decodes env view" and sc: "scalars env view"
    and rd: "rand_ok rd" and clock: "sane_clock fl days now" and fits: "events < 2 ^ 63"
    and run: "scale_check env srv db (scale_load env srv db rd fl seed workers days now events bs sched) s = (Inr c, s')"
    and all: "sk_inserted c = events"
  shows "mset (map webhook_id (tb_events (tab s'))) = mset (map scale_id [0..<events]) \<and> sk_rows c = int events \<and>
    cm_exact (sk_cmp c) = cm_pairs (sk_cmp c) \<and>
    cm_recompute_total (sk_cmp c) = int events \<and> cm_rollup_total (sk_cmp c) = int events"
proof -
  note ch = clickhouse.intro [OF server env]
  note abs = clickhouse.stored_def [OF ch]
  obtain s0 rows s4 xs s5 ys where load: "scale_load env srv db rd fl seed workers days now events bs sched s0 = (Inr (events, rows), s4)"
    and rec: "recompute_counts env srv db s4 = (Inr xs, s5)" and rol: "rollup_counts env srv db s5 = (Inr ys, s')"
    and c: "c = \<lparr>sk_inserted = events, sk_rows = rows, sk_cmp = compare_counts xs ys\<rparr>"
    using run all by (auto simp: scale_check_def split: prod.splits option.splits sum.splits)
  obtain s1 ld s2 s3 n where l: "clickhouse.stored tab s1 = []" "0 < bs"
    "ld = load_run rd fl days now events bs (insert_webhooks env srv db) sched (new_loader seed workers s1)"
    "events = ld_inserted ld" and steps: "delivery_count_rows env srv db (ld_store ld) = (Inr rows, s2)"
    "refresh_rollup env srv db s2 = (None, s3)" "count_rollup_rows env srv db s3 = (Inr n, s4)"
    using clickhouse.scale_load_steps [OF ch load] by metis
  define ws where "ws = tb_events (tab (ld_store ld))"
  note exact = load_exact [OF server env rd clock l(2) l(1) [unfolded abs] l(3) [symmetric] l(4) [symmetric] ws_def]
  have len: "length (clickhouse.stored tab (ld_store ld)) < 2 ^ 63" using exact(2) fits by (simp add: abs ws_def)
  note s2 = clickhouse.count_rows_effect [OF ch steps(1) sc len]
  note s3 = clickhouse.refresh_effect [OF ch steps(2)]
  note s4 = clickhouse.count_rollup_same [OF ch steps(3)]
  have t: "clickhouse.totals tab s4 = raw_totals ws" "clickhouse.stored tab s4 = clickhouse.stored tab (ld_store ld)"
    using s2 s3 s4 by (simp_all add: ws_def abs)
  have fits2: "length (tb_events (tab (ld_store ld))) < 2 ^ 63" using len by (simp add: abs)
  note agree = clickhouse.counts_agree [OF ch fits2 t(1) [unfolded ws_def] t(2) rec rol]
  have "sk_rows c = int events" using s2 exact(2) by (simp add: c abs ws_def)
  moreover have "compare_counts xs ys =
      \<lparr>cm_exact = length xs, cm_pairs = length xs, cm_recompute_total = int events, cm_rollup_total = int events\<rparr>"
    using exact(3) agree(1,2) by (simp add: ws_def)
  moreover have "tb_events (tab s') = ws" using agree(3) by (simp add: abs ws_def)
  ultimately show ?thesis using exact(1) by (simp add: c)
qed

text \<open>One row loaded by two workers over tables that were not empty.\<close>

theorem scale_check_exact_witness:
  "\<exists>c T. scale_check plain_env (ch_reliable ''d'') ''d''
       (scale_load plain_env (ch_reliable ''d'') ''d'' scripted_rand still_floats (\<lambda>_. []) 2 30 90000000000 1 1 [1, 0, 1])
       demo_tables = (Inr c, T) \<and>
     sk_rows c = 1 \<and> cm_recompute_total (sk_cmp c) = 1 \<and> map webhook_id (tb_events T) = [''scale-0000000000'']"
proof -
  let ?srv = "ch_reliable ''d''" and ?T = "ld_store demo_scale"
  let ?fill = "scale_load plain_env ?srv ''d'' scripted_rand still_floats (\<lambda>_. []) 2 30 90000000000 1 1 [1, 0, 1]"
  let ?T1 = "?T\<lparr>tb_rollup := rollup_of (tb_events ?T)\<rparr>"
  note schema = rel_schema [of "''d''" demo_tables]
  have trunc: "truncate_all plain_env ?srv ''d'' demo_tables = (None, \<lparr>tb_events = [], tb_rollup = []\<rparr>)"
    by (simp add: truncate_all_def rel_exec [OF meaning_truncate_events] rel_exec [OF meaning_truncate_rollup]
        demo_tables_def)
  have totals: "raw_totals (tb_events ?T) = [((''email'', ''sent''), 1)]"
    unfolding demo_scale_load by code_simp
  then have b: "\<forall>t \<in> set (raw_totals (tb_events ?T)). - (2 ^ 63) \<le> snd t \<and> snd t < 2 ^ 63" by simp
  have "ch_meaning ''d'' (count_events_sql ''d'' @ json_each_row) ?T = Some ([count_row 1], ?T)"
    by (simp add: ch_meaning_def statement_texts demo_scale_load)
  from rel_raw [OF this] have rows: "delivery_count_rows plain_env ?srv ''d'' ?T = (Inr 1, ?T)"
    using parse_int64_fmt_d [of 1]
    by (simp add: delivery_count_rows_def count_events_sql_def scalar_int_def plain_env_def count_row_def attr_def)
  define n where "n = length (rollup_of (tb_events ?T))"
  have n: "n = 1" unfolding n_def demo_scale_load by code_simp
  have "ch_meaning ''d'' (count_rollup_sql ''d'' @ json_each_row) ?T1 = Some ([count_row n], ?T1)"
    by (simp add: ch_meaning_def statement_texts n_def)
  from rel_raw [OF this] have roll_rows: "count_rollup_rows plain_env ?srv ''d'' ?T1 = (Inr 1, ?T1)"
    using parse_int64_fmt_d [of 1]
    by (simp add: count_rollup_rows_def count_rollup_sql_def scalar_int_def plain_env_def count_row_def attr_def n)
  have load: "?fill demo_tables = (Inr (1, 1), ?T1)"
    unfolding scale_load_def trunc prod.case option.case Let_def demo_scale_def [symmetric]
    by (simp add: rows rel_refresh roll_rows) (simp add: demo_scale_load)
  have "ch_meaning ''d'' (recompute_sql ''d'' @ json_each_row) ?T1 = Some (map total_row (raw_totals (tb_events ?T)), ?T1)"
    by (subst meaning_recompute) simp
  from rel_counts [OF this b]
  have rec: "recompute_counts plain_env ?srv ''d'' ?T1 = (Inr (map csc_of (raw_totals (tb_events ?T))), ?T1)"
    by (simp only: recompute_counts_def)
  have "ch_meaning ''d'' (rollup_sql ''d'' @ json_each_row) ?T1 = Some (map total_row (raw_totals (tb_events ?T)), ?T1)"
    by (subst meaning_rollup) (simp add: rollup_totals_rollup_of)
  from rel_counts [OF this b]
  have rol: "rollup_counts plain_env ?srv ''d'' ?T1 = (Inr (map csc_of (raw_totals (tb_events ?T))), ?T1)"
    by (simp only: rollup_counts_def)
  define c where "c = \<lparr>sk_inserted = 1, sk_rows = 1,
    sk_cmp = compare_counts (map csc_of (raw_totals (tb_events ?T))) (map csc_of (raw_totals (tb_events ?T)))\<rparr>"
  have run: "scale_check plain_env ?srv ''d'' ?fill demo_tables = (Inr c, ?T1)"
    unfolding scale_check_def schema load prod.case option.case sum.case by (simp add: rec rol c_def)
  have sc: "scalars plain_env (\<lambda>rows. rows)" by (simp add: scalars_def plain_env_def)
  have "webhook_id demo_scale_row = ''scale-0000000000''"
    by (simp add: demo_scale_row_def scale_row_def) code_simp
  then have "map webhook_id (tb_events ?T1) = [''scale-0000000000'']" by (simp add: demo_scale_load)
  with run scale_check_exact [OF ch_reliable_executes plain_env_decodes sc scripted_rand_ok still_clock _ run] show ?thesis
    by (auto simp: c_def)
qed

text \<open>
  What the latency lines of a finished run are: of all trials, which are not none, and with the reported
  percentile between the minimum and the maximum.
\<close>

lemma query_trials_lats: "query_trials label q i ds lats s = (Inr out, s') \<Longrightarrow> out = lats @ ds"
  by (induction ds arbitrary: i lats s) (fastforce split: prod.splits sum.splits)+

lemma latency_of_line:
  assumes "latency_of trunc lats = Inr l"
  shows "lats \<noteq> [] \<and> ll_n l = length lats \<and> ll_min l \<le> ll_p95 l \<and> ll_p95 l \<le> ll_max l"
proof (cases "lats = []")
  case False
  note r = percentile_rank [OF False, of trunc]
  have "latency_of trunc lats = Inr \<lparr>ll_p95 = percentile trunc lats, ll_min = Min (set lats), ll_max = Max (set lats),
      ll_n = length lats\<rparr>"
    using r by (simp add: latency_of_def)
  with assms have "l = \<lparr>ll_p95 = percentile trunc lats, ll_min = Min (set lats), ll_max = Max (set lats), ll_n = length lats\<rparr>"
    by simp
  with r False show ?thesis by simp
qed (use assms in \<open>simp add: latency_of_def\<close>)

theorem scale_run_latencies:
  assumes "scale_run env srv db fill trunc window_start raw_ms rollup_ms s = (Inr (c, a, b), s')"
  shows "ll_n a = length raw_ms \<and> 0 < ll_n a \<and> ll_min a \<le> ll_p95 a \<and> ll_p95 a \<le> ll_max a \<and>
    ll_n b = length rollup_ms \<and> 0 < ll_n b \<and> ll_min b \<le> ll_p95 b \<and> ll_p95 b \<le> ll_max b"
proof -
  obtain raw roll s1 s2 s3 where "query_trials ''dashboard raw query trial '' (dashboard_raw_query env srv db window_start)
      0 raw_ms [] s1 = (Inr raw, s2)"
    "query_trials ''dashboard rollup query trial '' (dashboard_rollup_query env srv db window_start)
      0 rollup_ms [] s2 = (Inr roll, s3)" "latency_of trunc raw = Inr a" "latency_of trunc roll = Inr b"
    using assms by (auto simp: scale_run_def scale_latencies_def split: prod.splits sum.splits)
  then show ?thesis
    using latency_of_line [of trunc raw a] latency_of_line [of trunc roll b] by (auto dest!: query_trials_lats)
qed

end
