(* ===== verification/Stream_Bench.thy ===== *)
theory Stream_Bench
  imports Corpora Topic
begin

text \<open>
  What cmd/deliveryburst and cmd/segmentbench have in common, and the rest of cmd/deliveryburst: the
  consumer that batches a stream into ClickHouse, the wait for the backlog with its lag, and the
  paced senders.
\<close>

section \<open>The batching consumer\<close>

definition bench_batch_size :: nat where
  "bench_batch_size = 500"

record ('m, 's) batcher =
  bt_batch :: "'m list"
  bt_store :: 's
  bt_consumed :: nat

definition new_batcher :: "'s \<Rightarrow> ('m, 's) batcher" where
  "new_batcher s = \<lparr>bt_batch = [], bt_store = s, bt_consumed = 0\<rparr>"

definition flush_bench ::
  "('m list \<Rightarrow> 's \<Rightarrow> goerror option \<times> 's) \<Rightarrow> ('m, 's) batcher \<Rightarrow> ('m, 's) batcher"
where
  "flush_bench ins b =
     (let batch = bt_batch b; b1 = b\<lparr>bt_batch := []\<rparr>
      in if batch = [] then b1 else b1\<lparr>bt_store := snd (ins batch (bt_store b1))\<rparr>)"

text \<open>What the select of the consumer's loop yields; the second result tells whether the loop goes on.\<close>

datatype 'm turn = Arrived 'm | Ended | Flush_Due | Stopped

definition bench_turn ::
  "('m list \<Rightarrow> 's \<Rightarrow> goerror option \<times> 's) \<Rightarrow> 'm turn \<Rightarrow> ('m, 's) batcher \<Rightarrow> ('m, 's) batcher \<times> bool"
where
  "bench_turn ins t b =
     (case t of
        Arrived m \<Rightarrow>
          (let b1 = b\<lparr>bt_batch := bt_batch b @ [m]\<rparr>;
               full = (length (bt_batch b1) \<ge> bench_batch_size);
               b2 = (if full then flush_bench ins b1 else b1)
           in (b2\<lparr>bt_consumed := bt_consumed b2 + 1\<rparr>, True))
      | Ended \<Rightarrow> (flush_bench ins b, False)
      | Flush_Due \<Rightarrow> (flush_bench ins b, True)
      | Stopped \<Rightarrow> (flush_bench ins b, False))"

fun run_bench ::
  "('m list \<Rightarrow> 's \<Rightarrow> goerror option \<times> 's) \<Rightarrow> 'm turn list \<Rightarrow> ('m, 's) batcher \<Rightarrow> ('m, 's) batcher"
where
  "run_bench ins [] b = b"
| "run_bench ins (t # ts) b =
     (let (b1, go_on) = bench_turn ins t b in if go_on then run_bench ins ts b1 else b1)"

section \<open>Waiting for the backlog\<close>

text \<open>The lag: over the partitions the broker reports, how far the reader is behind; a partition it does not read counts from 0.\<close>

definition partition_lag :: "(nat \<times> int) list \<Rightarrow> int \<times> int \<times> int \<Rightarrow> int" where
  "partition_lag cur p =
     (let c = (case map_of cur (nat (fst p)) of None \<Rightarrow> 0 | Some c \<Rightarrow> c); l = snd (snd p) - c
      in if l > 0 then l else 0)"

definition lag_of :: "(int \<times> int \<times> int) list \<Rightarrow> (nat \<times> int) list \<Rightarrow> int" where
  "lag_of offsets cur = sum_list (map (partition_lag cur) offsets)"

text \<open>
  One round of the wait: whether the deadline lies ahead, what asking for the offsets returned, and the
  offsets of the reader. The loop ends at a deadline or at a lag of zero; the lag starts as -1.
\<close>

type_synonym poll = "bool \<times> (goerror + (int \<times> int \<times> int) list) \<times> (nat \<times> int) list"

fun drain_wait :: "poll list \<Rightarrow> int \<Rightarrow> int" where
  "drain_wait [] final_lag = final_lag"
| "drain_wait ((before, offsets, cur) # polls) final_lag =
     (if \<not> before then final_lag
      else
        (case offsets of
           Inl e \<Rightarrow> drain_wait polls final_lag
         | Inr os \<Rightarrow>
             (let lag = lag_of os cur in if lag \<le> 0 then lag else drain_wait polls lag)))"

section \<open>Paced senders\<close>

definition burst_webhook :: "string \<Rightarrow> nat \<Rightarrow> nat \<Rightarrow> int \<Rightarrow> delivery_webhook" where
  "burst_webhook label w i now =
     (let ch = channels ! (i mod length channels)
      in \<lparr>webhook_id = label @ ''-'' @ fmt_d (int w) @ ''-'' @ fmt_d (int i),
          message_id = label @ ''-msg-'' @ fmt_d (int w) @ ''-'' @ fmt_d (int i),
          channel = fst ch, status = ''delivered'', wh_timestamp_ms = now, provider = snd ch\<rparr>)"

record 'p senders =
  sn_next :: "nat \<Rightarrow> nat"
  sn_count :: nat
  sn_pipeline :: "'p webhook_pipeline"

text \<open>One tick of worker w at a time; a call counts when it returns no error, accepted or not.\<close>

definition send_tick ::
  "string \<Rightarrow> (delivery_webhook, 'p) sender \<Rightarrow> nat \<times> int \<Rightarrow> 'p senders \<Rightarrow> 'p senders"
where
  "send_tick label produce t st =
     (let (w, now) = t; i = sn_next st w;
          (res, p) = webhook_ingest produce (burst_webhook label w i now) (sn_pipeline st)
      in st\<lparr>sn_next := (sn_next st)(w := i + 1), sn_pipeline := p,
            sn_count := sn_count st + (if snd res = None then 1 else 0)\<rparr>)"

text \<open>sendAt: the workers' ticks in any order until the stop; each call starts its counters afresh.\<close>

definition send_at ::
  "string \<Rightarrow> (delivery_webhook, 'p) sender \<Rightarrow> (nat \<times> int) list \<Rightarrow> 'p webhook_pipeline \<Rightarrow>
   nat \<times> 'p webhook_pipeline"
where
  "send_at label produce ticks p =
     (let st = fold (send_tick label produce) ticks \<lparr>sn_next = (\<lambda>_. 0), sn_count = 0, sn_pipeline = p\<rparr>
      in (sn_count st, sn_pipeline st))"

section \<open>Lemmas\<close>

lemma partition_lag_nonneg: "0 \<le> partition_lag cur p"
  by (simp add: partition_lag_def Let_def)

lemma lag_nonneg: "0 \<le> lag_of offsets cur"
  unfolding lag_of_def by (induction offsets) (simp_all add: partition_lag_nonneg)

text \<open>The lags the wait gets to see.\<close>

definition seen_lags :: "poll list \<Rightarrow> int list" where
  "seen_lags polls = List.map_filter
     (\<lambda>p. case fst (snd p) of Inl e \<Rightarrow> None | Inr os \<Rightarrow> Some (lag_of os (snd (snd p)))) (takeWhile fst polls)"

lemma drain_wait_seen:
  "drain_wait polls d =
     (if 0 \<in> set (seen_lags polls) then 0 else if seen_lags polls = [] then d else last (seen_lags polls))"
proof (induction polls arbitrary: d)
  case (Cons p polls)
  obtain b o_s cur where p: "p = (b, o_s, cur)" by (cases p)
  show ?case
  proof (cases "b \<and> (\<exists>os. o_s = Inr os)")
    case False
    then show ?thesis using Cons by (cases o_s) (auto simp: p seen_lags_def map_filter_def)
  next
    case True
    then obtain os where os: "b" "o_s = Inr os" by blast
    then have s: "seen_lags (p # polls) = lag_of os cur # seen_lags polls"
      by (simp add: p seen_lags_def map_filter_def)
    show ?thesis unfolding s using lag_nonneg [of os cur] Cons [of "lag_of os cur"]
      by (auto simp: p os Let_def)
  qed
qed (simp add: seen_lags_def map_filter_def)

text \<open>A store that never refuses a batch.\<close>

definition keeps_batches :: "('m list \<Rightarrow> 's \<Rightarrow> goerror option \<times> 's) \<Rightarrow> ('s \<Rightarrow> 'm list) \<Rightarrow> bool" where
  "keeps_batches ins stored \<longleftrightarrow>
     (\<forall>ms s. fst (ins ms s) = None \<and> stored (snd (ins ms s)) = stored s @ ms)"

text \<open>The same for batches of some messages only, and whatever the insert returns.\<close>

definition keeps_within ::
  "'m set \<Rightarrow> ('m list \<Rightarrow> 's \<Rightarrow> goerror option \<times> 's) \<Rightarrow> ('s \<Rightarrow> 'm list) \<Rightarrow> bool"
where
  "keeps_within E ins stored \<longleftrightarrow> (\<forall>ms s. set ms \<subseteq> E \<longrightarrow> stored (snd (ins ms s)) = stored s @ ms)"

lemma keeps_batches_within: "keeps_batches ins stored \<Longrightarrow> keeps_within E ins stored"
  by (simp add: keeps_batches_def keeps_within_def)

lemma flush_bench_batch [simp]: "bt_batch (flush_bench ins b) = []"
  by (simp add: flush_bench_def Let_def)

lemma flush_bench_consumed [simp]: "bt_consumed (flush_bench ins b) = bt_consumed b"
  by (simp add: flush_bench_def Let_def)

lemma flush_bench_stored:
  "keeps_within E ins stored \<Longrightarrow> set (bt_batch b) \<subseteq> E \<Longrightarrow>
    stored (bt_store (flush_bench ins b)) = stored (bt_store b) @ bt_batch b"
  by (simp add: flush_bench_def Let_def keeps_within_def)

fun arrivals :: "'m turn list \<Rightarrow> 'm list" where
  "arrivals [] = []"
| "arrivals (Arrived m # ts) = m # arrivals ts"
| "arrivals (Flush_Due # ts) = arrivals ts"
| "arrivals (t # ts) = []"

fun loop_ends :: "'m turn list \<Rightarrow> bool" where
  "loop_ends [] = False"
| "loop_ends (Ended # ts) = True"
| "loop_ends (Stopped # ts) = True"
| "loop_ends (t # ts) = loop_ends ts"

lemma bench_arrived:
  assumes "keeps_within E ins stored" and "set (bt_batch b) \<subseteq> E" and "m \<in> E"
  shows "\<exists>b1. bench_turn ins (Arrived m) b = (b1, True) \<and>
    stored (bt_store b1) @ bt_batch b1 = stored (bt_store b) @ bt_batch b @ [m] \<and>
    bt_consumed b1 = bt_consumed b + 1 \<and> length (bt_batch b1) < bench_batch_size \<and> set (bt_batch b1) \<subseteq> E"
  using flush_bench_stored [OF assms(1), of "b\<lparr>bt_batch := bt_batch b @ [m]\<rparr>"] assms(2,3)
  by (auto simp: bench_turn_def Let_def bench_batch_size_def)

lemma run_bench_stores:
  assumes "keeps_within E ins stored" and "set (bt_batch b) \<subseteq> E" and "set (arrivals ts) \<subseteq> E"
  shows "stored (bt_store (run_bench ins ts b)) @ bt_batch (run_bench ins ts b) =
      stored (bt_store b) @ bt_batch b @ arrivals ts \<and>
    bt_consumed (run_bench ins ts b) = bt_consumed b + length (arrivals ts) \<and>
    (loop_ends ts \<longrightarrow> bt_batch (run_bench ins ts b) = []) \<and>
    (length (bt_batch b) < bench_batch_size \<longrightarrow> length (bt_batch (run_bench ins ts b)) < bench_batch_size)"
  using assms(2,3)
proof (induction ts arbitrary: b)
  case (Cons t ts)
  note flushed = flush_bench_stored [OF assms(1) Cons.prems(1)]
  show ?case
  proof (cases t)
    case (Arrived m)
    obtain b1 where "bench_turn ins (Arrived m) b = (b1, True)"
      "stored (bt_store b1) @ bt_batch b1 = stored (bt_store b) @ bt_batch b @ [m]"
      "bt_consumed b1 = bt_consumed b + 1" "length (bt_batch b1) < bench_batch_size" "set (bt_batch b1) \<subseteq> E"
      using bench_arrived [OF assms(1) Cons.prems(1), of m] Cons.prems(2) Arrived by auto
    with Cons.IH [of b1] Cons.prems(2) show ?thesis by (simp add: Arrived flip: append_assoc)
  next
    case Flush_Due
    with Cons.IH [of "flush_bench ins b"] Cons.prems(2) show ?thesis
      by (simp add: bench_turn_def flushed bench_batch_size_def)
  qed (simp_all add: bench_turn_def flushed bench_batch_size_def)
qed simp

text \<open>The webhooks a phase offers, in the order of the ticks.\<close>

definition offered_webhooks :: "string \<Rightarrow> (nat \<Rightarrow> nat) \<Rightarrow> (nat \<times> int) list \<Rightarrow> delivery_webhook list" where
  "offered_webhooks label c ts = map (\<lambda>(w, i, now). burst_webhook label w i now) (numbered c ts)"

lemma send_at_pipeline:
  "sn_pipeline (fold (send_tick label produce) ts st) =
     webhook_ingest_all produce (offered_webhooks label (sn_next st) ts) (sn_pipeline st)"
proof (induction ts arbitrary: st)
  case (Cons t ts)
  obtain w now where t: "t = (w, now)" by (cases t)
  show ?case
    by (simp add: t Cons.IH)
      (simp add: offered_webhooks_def send_tick_def Let_def webhook_ingest_all_def split: prod.split)
qed (simp add: webhook_ingest_all_def offered_webhooks_def)

lemma ingest_no_error: "(\<And>k. fst (produce w k) = None) \<Longrightarrow> snd (fst (webhook_ingest produce w p)) = None"
  by (auto simp: webhook_ingest_def split: prod.split bool.split option.split) (metis fst_conv option.distinct(1))

lemma send_at_count:
  "\<forall>e \<in> set (offered_webhooks label (sn_next st) ts). \<forall>k. fst (produce e k) = None \<Longrightarrow>
     sn_count (fold (send_tick label produce) ts st) = sn_count st + length ts"
proof (induction ts arbitrary: st)
  case (Cons t ts)
  obtain w now where t: "t = (w, now)" by (cases t)
  let ?e = "burst_webhook label w (sn_next st w) now" and ?next = "(sn_next st)(w := sn_next st w + 1)"
  have o: "offered_webhooks label (sn_next st) (t # ts) = ?e # offered_webhooks label ?next ts"
    by (simp add: offered_webhooks_def t)
  obtain a e p where r: "webhook_ingest produce ?e (sn_pipeline st) = ((a, e), p)" by (metis prod.collapse)
  have "snd (fst (webhook_ingest produce ?e (sn_pipeline st))) = None"
    by (rule ingest_no_error) (simp add: Cons.prems o)
  with r have "sn_count (send_tick label produce t st) = sn_count st + 1 \<and> sn_next (send_tick label produce t st) = ?next"
    by (simp add: send_tick_def t)
  with Cons.IH [of "send_tick label produce t st"] Cons.prems show ?case by (simp add: o del: fun_upd_apply)
qed simp

lemma send_at_nil:
  "\<forall>e \<in> set (offered_webhooks label (\<lambda>_. 0) ts). \<forall>k. fst (produce e k) = None \<Longrightarrow>
     send_at label produce ts p = (length ts, webhook_ingest_all produce (offered_webhooks label (\<lambda>_. 0) ts) p)"
  by (simp add: send_at_def Let_def send_at_pipeline send_at_count)

text \<open>Decimal texts and the separators of the ids.\<close>

lemma fmt_d_nat_digits: "list_all is_digit (fmt_d (int n))"
  using show_nat_digits [of n] by (simp add: fmt_d_def list_all_iff)

lemma burst_id_inject:
  "webhook_id (burst_webhook label w i now) = webhook_id (burst_webhook label v j now') \<longleftrightarrow> w = v \<and> i = j"
  using digits_dash [OF fmt_d_nat_digits fmt_d_nat_digits] by (simp add: burst_webhook_def Let_def)

lemma offered_ids:
  "e \<in> set (offered_webhooks label c ts) \<Longrightarrow> \<exists>v i now. e = burst_webhook label v i now"
  by (auto simp: offered_webhooks_def)

lemma offered_distinct: "distinct (map webhook_id (offered_webhooks label c ts))"
  unfolding offered_webhooks_def map_map
  by (rule distinct_map_numbered) (simp add: burst_id_inject)

lemma phases_distinct:
  "distinct (map webhook_id (offered_webhooks ''baseline'' c t1 @ offered_webhooks ''burst'' c' t2))"
proof -
  have "webhook_id e \<noteq> webhook_id e'"
    if "e \<in> set (offered_webhooks ''baseline'' c t1)" "e' \<in> set (offered_webhooks ''burst'' c' t2)" for e e'
    using offered_ids [OF that(1)] offered_ids [OF that(2)] by (elim exE) (simp add: burst_webhook_def Let_def)
  then show ?thesis using offered_distinct by fastforce
qed

lemma new_delivery_readers: "new_delivery_stream_readers broker topic n = new_stream_readers broker topic n"
  by (simp add: new_delivery_stream_readers_def new_stream_readers_def)

text \<open>An edge that sees no id twice forwards everything, however much it is.\<close>

lemma wh_stream_distinct:
  assumes "distinct (map webhook_id ws)"
  shows "wp_producer (webhook_ingest_all produce ws (new_webhook_pipeline new_webhook_dedup k)) =
    fold (\<lambda>w k. snd (produce w k)) ws k"
proof -
  have "accepted webhook_admit webhook_id new_webhook_dedup ws = ws"
    using wh.accepted_distinct [of new_webhook_dedup webhook_id ws] assms
    by (simp add: new_webhook_dedup_def webhook_dedup_ok_def)
  with wh.stream [of produce ws "new_webhook_pipeline new_webhook_dedup k"] show ?thesis
    by (simp add: webhook_ingest_all_def new_webhook_pipeline_def)
qed

section \<open>Properties\<close>

text \<open>
  The burst benchmark loses nothing: both phases count every tick, no id is refused by the edge, and
  when the readers have read the topic out and the consumer's loop has taken what they delivered and ended,
  over a store that refuses no batch, the store holds every webhook of both phases once.
\<close>

theorem burst_everything_stored:
  assumes codec: "codec_ok m u" and ready: "topic_ready part wr logs n" and fresh: "\<forall>i. logs k i = []"
    and produce: "produce = delivery_produce m (wr (new_delivery_producer broker tp))"
    and w1: "w1 = offered_webhooks ''baseline'' (\<lambda>_. 0) t1" and w2: "w2 = offered_webhooks ''burst'' (\<lambda>_. 0) t2"
    and marshals: "\<forall>w \<in> set (w1 @ w2). \<exists>v. m w = Inr v"
    and base: "send_at ''baseline'' produce t1 (new_webhook_pipeline new_webhook_dedup k) = (n1, p1)"
    and burst: "send_at ''burst'' produce t2 p1 = (n2, p2)"
    and read: "read_out u (readers_over (new_delivery_stream_readers broker tp n) (logs (wp_producer p2))) str"
    and store: "keeps_within (set (w1 @ w2)) ins stored" and empty: "stored s = []"
    and ends: "loop_ends turns" and taken: "arrivals turns = map snd (st_out str)"
    and ran: "run_bench ins turns (new_batcher s) = b"
  shows "n1 = length t1 \<and> n2 = length t2 \<and> bt_consumed b = n1 + n2 \<and>
    mset (stored (bt_store b)) = mset (w1 @ w2) \<and> distinct (map webhook_id (stored (bt_store b)))"
proof -
  let ?p0 = "new_webhook_pipeline new_webhook_dedup k"
  have nil: "\<forall>e \<in> set (w1 @ w2). \<forall>k. fst (produce e k) = None"
    using marshals produce_nil [of m _ _ "wr (new_delivery_producer broker tp)" message_id]
      ready_writers(3) [OF ready] by (fastforce simp: produce keyed_producers)
  have n: "n1 = length t1" "n2 = length t2" and p2: "p2 = webhook_ingest_all produce (w1 @ w2) ?p0"
    using base burst nil by (simp_all add: send_at_nil w1 w2) (auto simp: webhook_ingest_all_def)
  have l: "length (offered_webhooks label c ts) = length ts" for label c ts
    by (simp add: offered_webhooks_def)
  have d: "distinct (map webhook_id (w1 @ w2))" unfolding w1 w2 by (rule phases_distinct)
  have ends_at: "wp_producer p2 = fold (\<lambda>w k. snd (keyed_produce message_id m (wr (new_delivery_producer broker tp)) w k)) (w1 @ w2) k"
    using wh_stream_distinct [OF d, of produce k] by (simp add: p2 produce keyed_producers)
  have "merge_of (topic_logs (\<lambda>w. part (str_bytes (message_id w))) n (w1 @ w2)) (map snd (st_out str))"
    using read_out_topic [OF codec ready_writers(2,3) [OF ready] marshals fresh new_delivery_readers read [unfolded ends_at]] .
  from merge_of_mset [OF this] ready have got: "mset (arrivals turns) = mset (w1 @ w2)"
    by (simp add: taken topic_ready_def mset_topic_logs)
  have "set (bt_batch (new_batcher s)) \<subseteq> set (w1 @ w2)" "set (arrivals turns) \<subseteq> set (w1 @ w2)"
    using mset_eq_setD [OF got] by (simp_all add: new_batcher_def)
  note run = run_bench_stores [OF store this, unfolded ran]
  then have st: "stored (bt_store b) = arrivals turns" and c: "bt_consumed b = length (arrivals turns)"
    using ends empty by (auto simp: new_batcher_def)
  have len: "length (arrivals turns) = n1 + n2"
    using mset_eq_length [OF got] n by (simp add: w1 w2 l)
  have "mset (map webhook_id (arrivals turns)) = mset (map webhook_id (w1 @ w2))" using got by simp
  with d have "distinct (map webhook_id (arrivals turns))" by (metis mset_eq_imp_distinct_iff)
  with n st c len got show ?thesis by simp
qed

text \<open>One webhook in each phase, through a topic of one partition.\<close>

theorem burst_everything_stored_witness:
  "mset (bt_store (run_bench (\<lambda>ms s. (None, s @ ms))
     [Arrived (burst_webhook ''baseline'' 0 0 5), Flush_Due, Arrived (burst_webhook ''burst'' 2 0 7), Stopped]
     (new_batcher []))) = {#burst_webhook ''baseline'' 0 0 5, burst_webhook ''burst'' 2 0 7#}"
proof -
  let ?a = "burst_webhook ''baseline'' 0 0 5" and ?b = "burst_webhook ''burst'' 2 0 7"
  let ?m = "table_marshal [(?a, [1 :: byte]), (?b, [2])]" and ?u = "table_unmarshal [(?a, [1 :: byte]), (?b, [2])]"
  let ?produce = "delivery_produce ?m (append_writer (new_delivery_producer ''k'' ''t''))"
  let ?turns = "[Arrived ?a, Flush_Due, Arrived ?b, Stopped]"
  have ne: "?a \<noteq> ?b" "webhook_id ?a \<noteq> webhook_id ?b" by (simp_all add: burst_webhook_def Let_def)
  have codec: "codec_ok ?m ?u" by (rule codec_ok_table) simp
  have me: "?m ?a = Inr [1]" "?m ?b = Inr [2]" "?u [1] = Inr ?a" "?u [2] = Inr ?b"
    using ne(1) by (auto simp: table_marshal_def table_unmarshal_def)
  obtain n1 p1 where s1: "send_at ''baseline'' ?produce [(0, 5)] (new_webhook_pipeline new_webhook_dedup []) = (n1, p1)"
    by (metis prod.collapse)
  obtain n2 p2 where s2: "send_at ''burst'' ?produce [(2, 7)] p1 = (n2, p2)" by (metis prod.collapse)
  have log: "wp_producer p2 = [(str_bytes (message_id ?a), [1]), (str_bytes (message_id ?b), [2])]"
    using s1 s2 ne(2)
    by (auto simp: send_at_def send_tick_def webhook_ingest_def webhook_admit_def new_webhook_pipeline_def
        new_webhook_dedup_def delivery_produce_def me append_writer_def max_webhook_ids_def Let_def)
  let ?rs = "[[Inr [1], Inr [2]]] :: (goerror + bytes) list list"
  let ?s1 = "(new_stream ?rs)\<lparr>st_readers := [[Inr [2]]], st_out := [(0, ?a)]\<rparr>"
  let ?str = "(new_stream ?rs)\<lparr>st_readers := [[]], st_out := [(0, ?a), (0, ?b)]\<rparr>"
  have first: "stream_step ?u (new_stream ?rs) ?s1"
    using stream_step.sent [of 0 "new_stream ?rs" "[1]" "[Inr [2]]" ?u ?a] by (simp add: new_stream_def me)
  have second: "stream_step ?u ?s1 ?str"
    using stream_step.sent [of 0 ?s1 "[2]" "[]" ?u ?b] by (simp add: new_stream_def me)
  have "stream_reach ?u (new_stream ?rs) ?str"
    by (rule stream_reach.step [OF stream_reach.step [OF stream_reach.start first] second])
  then have "read_out ?u ?rs ?str" by (simp add: read_out_def delivered_from_def me)
  then have read: "read_out ?u (readers_over (new_delivery_stream_readers ''k'' ''t'' 1) (one_partition (wp_producer p2))) ?str"
    by (simp add: log readers_over_def new_delivery_stream_readers_def one_partition_def)
  have store: "keeps_within E (\<lambda>ms s. (None, s @ ms)) (\<lambda>s. s)" for E by (simp add: keeps_within_def)
  have o: "offered_webhooks ''baseline'' (\<lambda>_. 0) [(0, 5)] = [?a]" "offered_webhooks ''burst'' (\<lambda>_. 0) [(2, 7)] = [?b]"
    by (simp_all add: offered_webhooks_def)
  show ?thesis
    using burst_everything_stored [OF codec append_ready _ refl refl refl _ s1 s2 read store refl _ _ refl, of ?turns]
    by (simp add: o me one_partition_def add_mset_commute)
qed

text \<open>
  What the wait reports: 0 exactly when a round that got the offsets before the deadline saw no
  partition behind, otherwise the lag of the last such round, and -1 when there was none, which the
  benchmarks print as a drained backlog.
\<close>

theorem drain_wait_report:
  "drain_wait polls (-1) =
     (if 0 \<in> set (seen_lags polls) then 0 else if seen_lags polls = [] then -1 else last (seen_lags polls)) \<and>
   (drain_wait polls (-1) > 0 \<longleftrightarrow> seen_lags polls \<noteq> [] \<and> 0 \<notin> set (seen_lags polls))"
proof -
  have "0 \<le> l" if "l \<in> set (seen_lags polls)" for l
    using that by (auto simp: seen_lags_def map_filter_def lag_nonneg split: sum.splits)
  then have "0 < last (seen_lags polls)" if "seen_lags polls \<noteq> []" "0 \<notin> set (seen_lags polls)"
    using that by (metis last_in_set order_le_less)
  then show ?thesis by (auto simp: drain_wait_seen)
qed

end
