(* ===== verification/Segment_Engine.thy ===== *)
theory Segment_Engine
  imports Segments Messages "HOL-Library.List_Lexorder" "HOL-Library.Char_ord"
    "HOL-Library.Product_Lexorder"
begin

text \<open>
  internal/segment/incremental.go: the engine that keeps every profile's state and segment membership
  in Redis. The engine is modelled as the commands it sends and the decisions it takes on the
  replies. Redis is a parameter; its documented behaviour, on which the theorems rest, is a
  hypothesis given by the meaning of each command on a store of sets, hashes and sorted sets. An
  instant is its number of nanoseconds since the Unix epoch.
\<close>

section \<open>Time\<close>

definition nanos_per_second :: int where
  "nanos_per_second = 1000000000"

definition hour :: int where
  "hour = 3600 * nanos_per_second"

definition unix_milli_time :: "int \<Rightarrow> int" where
  "unix_milli_time ms = ms * 1000000"

text \<open>Time.Unix drops the fraction of a second towards the past.\<close>

definition unix_seconds :: "int \<Rightarrow> int" where
  "unix_seconds t = t div nanos_per_second"

text \<open>Time.Sub saturates at the bounds of an int64 duration.\<close>

definition time_sub :: "int \<Rightarrow> int \<Rightarrow> int" where
  "time_sub t s = max (- (2 ^ 63)) (min (2 ^ 63 - 1) (t - s))"

section \<open>Commands\<close>

datatype redis_cmd =
    SAdd string string
  | SRem string string
  | HIncrBy string string int
  | HSet string string string
  | ZAdd string int string
  | ZRemUpTo string int

datatype zread =
    ZCount string int int
  | ZRangeByScore string int int

datatype zreply =
    Count nat
  | Members "string list"

text \<open>
  The client: a pipeline of writes, which fails or applies, and the reads, which fail or reply.
\<close>

record 'r redis =
  r_exec :: "redis_cmd list \<Rightarrow> 'r \<Rightarrow> goerror option \<times> 'r"
  r_smembers :: "string \<Rightarrow> 'r \<Rightarrow> goerror + string list"
  r_hgetall :: "string \<Rightarrow> 'r \<Rightarrow> goerror + (string \<times> string) list"
  r_reads :: "zread list \<Rightarrow> 'r \<Rightarrow> goerror + zreply list"

text \<open>float64: its parser (zero on an error), its "%.2f" format, its sum and its comparison.\<close>

record 'f float64_ops =
  parse_float :: "string \<Rightarrow> 'f"
  format_2f :: "'f \<Rightarrow> string"
  float_lit :: "int \<Rightarrow> 'f"
  float_add :: "'f \<Rightarrow> 'f \<Rightarrow> 'f"
  float_le :: "'f \<Rightarrow> 'f \<Rightarrow> bool"

definition stats_key :: "string \<Rightarrow> string" where "stats_key p = ''stats:'' @ p"
definition catviews_key :: "string \<Rightarrow> string" where "catviews_key p = ''catviews:'' @ p"
definition purch_key :: "string \<Rightarrow> string" where "purch_key p = ''purch:'' @ p"
definition segments_key :: "string \<Rightarrow> string" where "segments_key p = ''segments:'' @ p"
definition member_key :: "string \<Rightarrow> string" where "member_key i = ''segmember:'' @ i"

lemmas key_defs = stats_key_def catviews_key_def purch_key_def segments_key_def member_key_def

section \<open>ApplyEvent\<close>

text \<open>The pipeline ApplyEvent sends for one event.\<close>

definition event_cmds :: "'f float64_ops \<Rightarrow> storefront_event \<Rightarrow> redis_cmd list" where
  "event_cmds fo ev =
     (let p = profile_id ev;
          ts = unix_milli_time (ev_timestamp_ms ev);
          ms = fmt_d (ev_timestamp_ms ev)
      in [SAdd ''touched_profiles'' p,
          HIncrBy (stats_key p) ''total_events'' 1,
          HSet (stats_key p) ''last_event_ts'' ms] @
         (if event_type ev = ''purchase'' then
            [HIncrBy (stats_key p) ''purchase_count_total'' 1,
             HSet (stats_key p) ''last_purchase_ts'' ms,
             ZAdd (purch_key p) (unix_seconds ts)
               (event_id ev @ ''|'' @ format_2f fo (parse_float fo (attr (attributes ev) ''price''))),
             ZRemUpTo (purch_key p) (unix_seconds (ts - 90 * 24 * hour))]
          else if event_type ev = ''add_to_cart'' then
            [HSet (stats_key p) ''last_cartadd_ts'' ms]
          else if event_type ev = ''page_view'' then
            (if attr (attributes ev) ''category'' \<noteq> [] then
               [HIncrBy (catviews_key p) (attr (attributes ev) ''category'') 1]
             else [])
          else []))"

section \<open>EvaluateProfile\<close>

text \<open>The integers of the stats hash; ParseInt gives 0 for a missing field.\<close>

definition int_field :: "(string \<times> string) list \<Rightarrow> string \<Rightarrow> int" where
  "int_field h f = fst (parse_int64 (attr h f))"

definition window_read :: "string \<Rightarrow> int \<Rightarrow> 'f segment \<Rightarrow> zread option" where
  "window_read p now seg =
     (let start = unix_seconds (now - window_days seg * 24 * hour)
      in case seg_family seg of
           PurchaseCountMin \<Rightarrow> Some (ZCount (purch_key p) start (unix_seconds now))
         | PurchaseValueMin \<Rightarrow> Some (ZRangeByScore (purch_key p) start (unix_seconds now))
         | _ \<Rightarrow> None)"

text \<open>The commands of the batched reads with the id of the segment each is for.\<close>

definition window_reads :: "string \<Rightarrow> int \<Rightarrow> 'f segment list \<Rightarrow> (string \<times> zread) list" where
  "window_reads p now segs =
     concat (map (\<lambda>s. case window_read p now s of Some c \<Rightarrow> [(seg_id s, c)] | None \<Rightarrow> []) segs)"

text \<open>strings.SplitN(m, "|", 2): the part after the first bar, when there is one.\<close>

definition after_bar :: "string \<Rightarrow> string option" where
  "after_bar m = (case dropWhile (\<lambda>c. c \<noteq> CHR ''|'') m of [] \<Rightarrow> None | _ # rest \<Rightarrow> Some rest)"

definition sum_prices :: "'f float64_ops \<Rightarrow> string list \<Rightarrow> 'f" where
  "sum_prices fo ms =
     fold (\<lambda>m s. case after_bar m of Some x \<Rightarrow> float_add fo s (parse_float fo x) | None \<Rightarrow> s) ms
       (float_lit fo 0)"

definition segment_matches ::
  "'f float64_ops \<Rightarrow> (string \<times> string) list \<Rightarrow> (string \<times> string) list \<Rightarrow> (string \<Rightarrow> zreply option) \<Rightarrow>
   int \<Rightarrow> 'f segment \<Rightarrow> bool"
where
  "segment_matches fo stats catviews reply now seg =
     (let total = int_field stats ''total_events'';
          purchases = int_field stats ''purchase_count_total'';
          last_event = int_field stats ''last_event_ts'';
          last_cart = int_field stats ''last_cartadd_ts'';
          last_purchase = int_field stats ''last_purchase_ts''
      in case seg_family seg of
           PurchaseCountMin \<Rightarrow>
             (case reply (seg_id seg) of Some (Count n) \<Rightarrow> min_count seg \<le> int n | _ \<Rightarrow> False)
         | PurchaseValueMin \<Rightarrow>
             (case reply (seg_id seg) of
                Some (Members ms) \<Rightarrow> float_le fo (min_value seg) (sum_prices fo ms) | _ \<Rightarrow> False)
         | CartAbandonDays \<Rightarrow>
             0 < last_cart \<and> last_purchase < last_cart \<and>
             min_days seg * 24 * hour \<le> time_sub now (unix_milli_time last_cart)
         | CategoryViewMin \<Rightarrow> min_count seg \<le> int_field catviews (Segments.category seg)
         | RecentlyActiveHours \<Rightarrow>
             0 < last_event \<and> time_sub now (unix_milli_time last_event) \<le> min_hours seg * hour
         | NeverPurchased \<Rightarrow> 0 < total \<and> purchases = 0
         | ChurnRiskDays \<Rightarrow>
             0 < purchases \<and> 0 < last_event \<and>
             min_days seg * 24 * hour \<le> time_sub now (unix_milli_time last_event)
         | MultiCategoryMin \<Rightarrow> min_distinct seg \<le> int (length catviews)
         | OtherFamily _ \<Rightarrow> False)"

definition evaluate_profile ::
  "'f float64_ops \<Rightarrow> 'r redis \<Rightarrow> 'f segment list \<Rightarrow> string \<Rightarrow> int \<Rightarrow> 'r \<Rightarrow> goerror + string list"
where
  "evaluate_profile fo rd segs p now r =
     (case r_hgetall rd (stats_key p) r of
        Inl e \<Rightarrow> Inl e
      | Inr stats \<Rightarrow>
          (if stats = [] then Inr []
           else
             (case r_hgetall rd (catviews_key p) r of
                Inl e \<Rightarrow> Inl e
              | Inr catviews \<Rightarrow>
                  (let cmds = window_reads p now segs
                   in case (if cmds = [] then Inr [] else r_reads rd (map snd cmds) r) of
                        Inl e \<Rightarrow> Inl (Wrapped ''batched purchase window reads'' e)
                      | Inr replies \<Rightarrow>
                          Inr (map seg_id (filter
                            (segment_matches fo stats catviews
                               (map_of (rev (zip (map fst cmds) replies))) now) segs))))))"

section \<open>reevaluate, ApplyEvent and Finalize\<close>

text \<open>
  The loops over the maps want and haveSet run in an unspecified order; the commands they queue
  concern different segment ids, so the order of the lists is one of the possible ones.
\<close>

definition delta_cmds :: "string \<Rightarrow> string list \<Rightarrow> string list \<Rightarrow> redis_cmd list" where
  "delta_cmds p want have_ids =
     concat (map (\<lambda>i. if i \<in> set have_ids then [] else [SAdd (segments_key p) i, SAdd (member_key i) p])
       (remdups want)) @
     concat (map (\<lambda>i. if i \<in> set want then [] else [SRem (segments_key p) i, SRem (member_key i) p])
       (remdups have_ids))"

definition reevaluate ::
  "'f float64_ops \<Rightarrow> 'r redis \<Rightarrow> 'f segment list \<Rightarrow> string \<Rightarrow> int \<Rightarrow> 'r \<Rightarrow> goerror option \<times> 'r"
where
  "reevaluate fo rd segs p now r =
     (case evaluate_profile fo rd segs p now r of
        Inl e \<Rightarrow> (Some e, r)
      | Inr want \<Rightarrow>
          (case r_smembers rd (segments_key p) r of
             Inl e \<Rightarrow> (Some e, r)
           | Inr have_ids \<Rightarrow>
               (let cmds = delta_cmds p want have_ids
                in if cmds = [] then (None, r)
                   else
                     (case r_exec rd cmds r of
                        (Some e, r') \<Rightarrow> (Some (Wrapped ''write membership delta'' e), r')
                      | (None, r') \<Rightarrow> (None, r')))))"

definition apply_event ::
  "'f float64_ops \<Rightarrow> 'r redis \<Rightarrow> 'f segment list \<Rightarrow> storefront_event \<Rightarrow> 'r \<Rightarrow> goerror option \<times> 'r"
where
  "apply_event fo rd segs ev r =
     (case r_exec rd (event_cmds fo ev) r of
        (Some e, r') \<Rightarrow> (Some (Wrapped ''apply event stats'' e), r')
      | (None, r') \<Rightarrow>
          reevaluate fo rd segs (profile_id ev) (unix_milli_time (ev_timestamp_ms ev)) r')"

fun reevaluate_all ::
  "'f float64_ops \<Rightarrow> 'r redis \<Rightarrow> 'f segment list \<Rightarrow> string list \<Rightarrow> int \<Rightarrow> 'r \<Rightarrow> goerror option \<times> 'r"
where
  "reevaluate_all fo rd segs [] as_of r = (None, r)"
| "reevaluate_all fo rd segs (p # ps) as_of r =
     (case reevaluate fo rd segs p as_of r of
        (Some e, r') \<Rightarrow> (Some e, r')
      | (None, r') \<Rightarrow> reevaluate_all fo rd segs ps as_of r')"

definition finalize ::
  "'f float64_ops \<Rightarrow> 'r redis \<Rightarrow> 'f segment list \<Rightarrow> int \<Rightarrow> 'r \<Rightarrow> (goerror + nat) \<times> 'r"
where
  "finalize fo rd segs as_of r =
     (case r_smembers rd ''touched_profiles'' r of
        Inl e \<Rightarrow> (Inl e, r)
      | Inr profiles \<Rightarrow>
          (case reevaluate_all fo rd segs profiles as_of r of
             (Some e, r') \<Rightarrow> (Inl e, r')
           | (None, r') \<Rightarrow> (Inr (length profiles), r')))"

definition members_of :: "'r redis \<Rightarrow> string \<Rightarrow> 'r \<Rightarrow> goerror + string set" where
  "members_of rd i r =
     (case r_smembers rd (member_key i) r of Inl e \<Rightarrow> Inl e | Inr ms \<Rightarrow> Inr (set ms))"

end
