(* ===== verification/Segment_State.thy ===== *)
theory Segment_State
  imports Segment_Engine
begin

text \<open>
  What Redis is relied on for, and what the engine makes of it: the meaning of the commands on sets,
  hashes and sorted sets, the state ApplyEvent builds from a history of events, and the two indexes
  of membership that reevaluate keeps.
\<close>

section \<open>The documented behaviour of Redis\<close>

record redis_data =
  rd_sets :: "string \<Rightarrow> string set"
  rd_hashes :: "string \<Rightarrow> (string \<rightharpoonup> string)"
  rd_zsets :: "string \<Rightarrow> (string \<rightharpoonup> int)"

definition empty_data :: redis_data where
  "empty_data = \<lparr>rd_sets = (\<lambda>_. {}), rd_hashes = (\<lambda>_. Map.empty), rd_zsets = (\<lambda>_. Map.empty)\<rparr>"

text \<open>The number in a field: a missing field counts as 0.\<close>

definition number_of :: "string option \<Rightarrow> int" where
  "number_of x = (case x of None \<Rightarrow> 0 | Some s \<Rightarrow> fst (parse_int64 s))"

fun apply_cmd :: "redis_cmd \<Rightarrow> redis_data \<Rightarrow> redis_data" where
  "apply_cmd (SAdd k m) d = d\<lparr>rd_sets := (rd_sets d)(k := insert m (rd_sets d k))\<rparr>"
| "apply_cmd (SRem k m) d = d\<lparr>rd_sets := (rd_sets d)(k := rd_sets d k - {m})\<rparr>"
| "apply_cmd (HIncrBy k f n) d =
     d\<lparr>rd_hashes := (rd_hashes d)(k := (rd_hashes d k)(f \<mapsto> fmt_d (number_of (rd_hashes d k f) + n)))\<rparr>"
| "apply_cmd (HSet k f v) d = d\<lparr>rd_hashes := (rd_hashes d)(k := (rd_hashes d k)(f \<mapsto> v))\<rparr>"
| "apply_cmd (ZAdd k s m) d = d\<lparr>rd_zsets := (rd_zsets d)(k := (rd_zsets d k)(m \<mapsto> s))\<rparr>"
| "apply_cmd (ZRemUpTo k mx) d =
     d\<lparr>rd_zsets := (rd_zsets d)(k := (\<lambda>m. case rd_zsets d k m of
        None \<Rightarrow> None | Some s \<Rightarrow> if s \<le> mx then None else Some s))\<rparr>"

definition in_range :: "(string \<rightharpoonup> int) \<Rightarrow> int \<Rightarrow> int \<Rightarrow> (int \<times> string) set" where
  "in_range z lo hi = {(s, m). z m = Some s \<and> lo \<le> s \<and> s \<le> hi}"

fun zread_reply :: "redis_data \<Rightarrow> zread \<Rightarrow> zreply" where
  "zread_reply d (ZCount k lo hi) = Count (card (in_range (rd_zsets d k) lo hi))"
| "zread_reply d (ZRangeByScore k lo hi) =
     Members (map snd (sorted_list_of_set (in_range (rd_zsets d k) lo hi)))"

text \<open>
  The hypothesis on the service: a pipeline that reports no error has applied its commands in order,
  and a read that reports no error tells what is stored, sets and hashes in any order.
\<close>

definition redis_ok :: "'r redis \<Rightarrow> ('r \<Rightarrow> redis_data) \<Rightarrow> bool" where
  "redis_ok rd view \<longleftrightarrow>
     (\<forall>cmds r r'. r_exec rd cmds r = (None, r') \<longrightarrow> view r' = fold apply_cmd cmds (view r)) \<and>
     (\<forall>k r xs. r_smembers rd k r = Inr xs \<longrightarrow> set xs = rd_sets (view r) k \<and> distinct xs) \<and>
     (\<forall>k r kvs. r_hgetall rd k r = Inr kvs \<longrightarrow>
        map_of kvs = rd_hashes (view r) k \<and> distinct (map fst kvs)) \<and>
     (\<forall>cmds r rs. r_reads rd cmds r = Inr rs \<longrightarrow> rs = map (zread_reply (view r)) cmds)"

lemma redis_okD:
  assumes "redis_ok rd view"
  shows "r_exec rd cmds r = (None, r') \<Longrightarrow> view r' = fold apply_cmd cmds (view r)"
    and "r_smembers rd k r = Inr xs \<Longrightarrow> set xs = rd_sets (view r) k"
    and "r_smembers rd k r = Inr xs \<Longrightarrow> distinct xs"
    and "r_hgetall rd k r = Inr kvs \<Longrightarrow> map_of kvs = rd_hashes (view r) k"
    and "r_hgetall rd k r = Inr kvs \<Longrightarrow> distinct (map fst kvs)"
    and "r_reads rd zs r = Inr rs \<Longrightarrow> rs = map (zread_reply (view r)) zs"
  using assms by (auto simp: redis_ok_def)

section \<open>Membership\<close>

text \<open>
  The two indexes say the same, and only touched profiles are members of anything.
\<close>

definition members_consistent :: "redis_data \<Rightarrow> bool" where
  "members_consistent d \<longleftrightarrow>
     (\<forall>p i. p \<in> rd_sets d (member_key i) \<longleftrightarrow> i \<in> rd_sets d (segments_key p)) \<and>
     (\<forall>p. rd_sets d (segments_key p) \<noteq> {} \<longrightarrow> p \<in> rd_sets d ''touched_profiles'')"

lemma key_distinct [simp]:
  "member_key i \<noteq> segments_key p" "segments_key p \<noteq> member_key i"
  "member_key i \<noteq> ''touched_profiles''" "segments_key p \<noteq> ''touched_profiles''"
  "''touched_profiles'' \<noteq> member_key i" "''touched_profiles'' \<noteq> segments_key p"
  "stats_key p \<noteq> catviews_key q" "catviews_key q \<noteq> stats_key p"
  by (simp_all add: key_defs)

lemma key_inject [simp]:
  "member_key i = member_key j \<longleftrightarrow> i = j" "segments_key p = segments_key q \<longleftrightarrow> p = q"
  "stats_key p = stats_key q \<longleftrightarrow> p = q" "catviews_key p = catviews_key q \<longleftrightarrow> p = q"
  "purch_key p = purch_key q \<longleftrightarrow> p = q"
  by (simp_all add: key_defs)

text \<open>The commands that add or remove memberships of one profile.\<close>

definition add_cmds :: "string \<Rightarrow> string list \<Rightarrow> redis_cmd list" where
  "add_cmds p is = concat (map (\<lambda>i. [SAdd (segments_key p) i, SAdd (member_key i) p]) is)"

definition rem_cmds :: "string \<Rightarrow> string list \<Rightarrow> redis_cmd list" where
  "rem_cmds p is = concat (map (\<lambda>i. [SRem (segments_key p) i, SRem (member_key i) p]) is)"

lemma delta_cmds_split:
  "delta_cmds p want have_ids =
     add_cmds p (filter (\<lambda>i. i \<notin> set have_ids) (remdups want)) @
     rem_cmds p (filter (\<lambda>i. i \<notin> set want) (remdups have_ids))"
proof -
  have "concat (map (\<lambda>i. if P i then [] else f i) xs) = concat (map f (filter (\<lambda>i. \<not> P i) xs))"
    for P and f :: "string \<Rightarrow> redis_cmd list" and xs
    by (induction xs) auto
  then show ?thesis by (simp add: delta_cmds_def add_cmds_def rem_cmds_def)
qed

lemma fold_add_cmds:
  "fold apply_cmd (add_cmds p is) d =
     d\<lparr>rd_sets := (\<lambda>k. if k = segments_key p then rd_sets d k \<union> set is
        else rd_sets d k \<union> {q. q = p \<and> (\<exists>i \<in> set is. k = member_key i)})\<rparr>"
proof (induction "is" arbitrary: d)
  case Nil
  show ?case by (rule redis_data.equality) (auto simp: add_cmds_def fun_eq_iff)
next
  case (Cons i "is")
  have e: "add_cmds p (i # is) = SAdd (segments_key p) i # SAdd (member_key i) p # add_cmds p is"
    by (simp add: add_cmds_def)
  show ?case unfolding e fold_Cons comp_def Cons.IH by (rule redis_data.equality) (auto simp: fun_eq_iff)
qed

lemma fold_rem_cmds:
  "fold apply_cmd (rem_cmds p is) d =
     d\<lparr>rd_sets := (\<lambda>k. if k = segments_key p then rd_sets d k - set is
        else rd_sets d k - {q. q = p \<and> (\<exists>i \<in> set is. k = member_key i)})\<rparr>"
proof (induction "is" arbitrary: d)
  case Nil
  show ?case by (rule redis_data.equality) (auto simp: rem_cmds_def fun_eq_iff)
next
  case (Cons i "is")
  have e: "rem_cmds p (i # is) = SRem (segments_key p) i # SRem (member_key i) p # rem_cmds p is"
    by (simp add: rem_cmds_def)
  show ?case unfolding e fold_Cons comp_def Cons.IH by (rule redis_data.equality) (auto simp: fun_eq_iff)
qed

text \<open>What reevaluate does to the store, when nothing fails.\<close>

definition set_membership :: "string \<Rightarrow> string set \<Rightarrow> redis_data \<Rightarrow> redis_data" where
  "set_membership p want d =
     d\<lparr>rd_sets := (\<lambda>k. if k = segments_key p then want
        else if \<exists>i. k = member_key i then
          (rd_sets d k - {p}) \<union> {q. q = p \<and> (\<exists>i \<in> want. k = member_key i)}
        else rd_sets d k)\<rparr>"

lemma fold_delta_cmds:
  assumes "members_consistent d" and "set have_ids = rd_sets d (segments_key p)"
  shows "fold apply_cmd (delta_cmds p want have_ids) d = set_membership p (set want) d"
  unfolding delta_cmds_split fold_append comp_def fold_add_cmds fold_rem_cmds
  using assms
  by (intro redis_data.equality)
    (auto simp: set_membership_def members_consistent_def fun_eq_iff)

lemma set_membership_simps [simp]:
  "rd_hashes (set_membership p w d) = rd_hashes d" "rd_zsets (set_membership p w d) = rd_zsets d"
  "rd_sets (set_membership p w d) ''touched_profiles'' = rd_sets d ''touched_profiles''"
  "rd_sets (set_membership p w d) (segments_key q) = (if q = p then w else rd_sets d (segments_key q))"
  "q \<in> rd_sets (set_membership p w d) (member_key i) \<longleftrightarrow>
     (if q = p then i \<in> w else q \<in> rd_sets d (member_key i))"
  by (auto simp: set_membership_def)

lemma members_consistent_set:
  "members_consistent d \<Longrightarrow> p \<in> rd_sets d ''touched_profiles'' \<Longrightarrow> members_consistent (set_membership p w d)"
  by (auto simp: members_consistent_def)

text \<open>The decision of EvaluateProfile, as a function of what is stored.\<close>

definition stored_match :: "'f float64_ops \<Rightarrow> string \<Rightarrow> int \<Rightarrow> redis_data \<Rightarrow> 'f segment \<Rightarrow> bool" where
  "stored_match fo p now d s =
     (case seg_family s of
        PurchaseCountMin \<Rightarrow>
          min_count s \<le> int (card (in_range (rd_zsets d (purch_key p))
            (unix_seconds (now - window_days s * 24 * hour)) (unix_seconds now)))
      | PurchaseValueMin \<Rightarrow>
          float_le fo (min_value s) (sum_prices fo (map snd (sorted_list_of_set
            (in_range (rd_zsets d (purch_key p))
               (unix_seconds (now - window_days s * 24 * hour)) (unix_seconds now)))))
      | CartAbandonDays \<Rightarrow>
          0 < number_of (rd_hashes d (stats_key p) ''last_cartadd_ts'') \<and>
          number_of (rd_hashes d (stats_key p) ''last_purchase_ts'')
            < number_of (rd_hashes d (stats_key p) ''last_cartadd_ts'') \<and>
          min_days s * 24 * hour
            \<le> time_sub now (unix_milli_time (number_of (rd_hashes d (stats_key p) ''last_cartadd_ts'')))
      | CategoryViewMin \<Rightarrow> min_count s \<le> number_of (rd_hashes d (catviews_key p) (Segments.category s))
      | RecentlyActiveHours \<Rightarrow>
          0 < number_of (rd_hashes d (stats_key p) ''last_event_ts'') \<and>
          time_sub now (unix_milli_time (number_of (rd_hashes d (stats_key p) ''last_event_ts'')))
            \<le> min_hours s * hour
      | NeverPurchased \<Rightarrow>
          0 < number_of (rd_hashes d (stats_key p) ''total_events'') \<and>
          number_of (rd_hashes d (stats_key p) ''purchase_count_total'') = 0
      | ChurnRiskDays \<Rightarrow>
          0 < number_of (rd_hashes d (stats_key p) ''purchase_count_total'') \<and>
          0 < number_of (rd_hashes d (stats_key p) ''last_event_ts'') \<and>
          min_days s * 24 * hour
            \<le> time_sub now (unix_milli_time (number_of (rd_hashes d (stats_key p) ''last_event_ts'')))
      | MultiCategoryMin \<Rightarrow> min_distinct s \<le> int (card (dom (rd_hashes d (catviews_key p))))
      | OtherFamily f \<Rightarrow> False)"

definition matching :: "'f float64_ops \<Rightarrow> 'f segment list \<Rightarrow> string \<Rightarrow> int \<Rightarrow> redis_data \<Rightarrow> string set" where
  "matching fo segs p now d =
     (if rd_hashes d (stats_key p) = Map.empty then {}
      else {seg_id s |s. s \<in> set segs \<and> stored_match fo p now d s})"

lemma int_field_number: "int_field h f = number_of (map_of h f)"
proof -
  have "fst (parse_int64 []) = 0" by (simp add: parse_int64_def parse_uint_def err_syntax_def err_range_def)
  then show ?thesis by (simp add: int_field_def number_of_def attr_def split: option.split)
qed

lemma map_of_zip_replies:
  assumes "distinct (map fst cmds)" and "(i, c) \<in> set cmds"
  shows "map_of (rev (zip (map fst cmds) (map f (map snd cmds)))) i = Some (f c)"
proof -
  have z: "zip (map fst cmds) (map f (map snd cmds)) = map (\<lambda>(i, c). (i, f c)) cmds"
    by (induction cmds) auto
  have "distinct (map fst (rev (map (\<lambda>(i, c). (i, f c)) cmds)))"
    using assms(1) by (simp add: comp_def case_prod_unfold flip: rev_map)
  moreover have "(i, f c) \<in> set (rev (map (\<lambda>(i, c). (i, f c)) cmds))"
    using assms(2) by force
  ultimately show ?thesis unfolding z by (rule map_of_is_SomeI)
qed

lemma fst_window_reads:
  "map fst (window_reads p now segs) = map seg_id (filter (\<lambda>s. window_read p now s \<noteq> None) segs)"
  by (induction segs) (auto simp: window_reads_def split: option.split)

lemma in_window_reads:
  "s \<in> set segs \<Longrightarrow> window_read p now s = Some c \<Longrightarrow> (seg_id s, c) \<in> set (window_reads p now segs)"
  by (force simp: window_reads_def)

text \<open>EvaluateProfile, when no read fails, is the decision on what is stored.\<close>

lemma evaluate_profile_matching:
  assumes "redis_ok rd view" and "distinct (map seg_id segs)"
    and "evaluate_profile fo rd segs p now r = Inr ids"
  shows "set ids = matching fo segs p now (view r)"
proof -
  let ?cmds = "window_reads p now segs"
  from assms(3) obtain stats where st: "r_hgetall rd (stats_key p) r = Inr stats"
    by (auto simp: evaluate_profile_def split: sum.splits)
  note stv = redis_okD(4) [OF assms(1) st]
  show ?thesis
  proof (cases "stats = []")
    case True
    with assms(3) st stv show ?thesis by (simp add: evaluate_profile_def matching_def)
  next
    case False
    then have ne: "rd_hashes (view r) (stats_key p) \<noteq> Map.empty" using stv by auto
    from assms(3) st False obtain cv where cv: "r_hgetall rd (catviews_key p) r = Inr cv"
      by (auto simp: evaluate_profile_def split: sum.splits)
    note cvv = redis_okD(4) [OF assms(1) cv]
    from assms(3) st False cv obtain rs where
      rs: "(if ?cmds = [] then Inr [] else r_reads rd (map snd ?cmds) r) = Inr rs" and
      ids: "ids = map seg_id (filter (segment_matches fo stats cv (map_of (rev (zip (map fst ?cmds) rs))) now) segs)"
      by (auto simp: evaluate_profile_def Let_def split: sum.splits)
    have rsv: "rs = map (zread_reply (view r)) (map snd ?cmds)"
      using rs redis_okD(6) [OF assms(1), of "map snd ?cmds" r rs] by (simp split: if_splits)
    have d: "distinct (map fst ?cmds)"
      using assms(2) by (simp add: fst_window_reads distinct_map_filter)
    have reply: "map_of (rev (zip (map fst ?cmds) rs)) (seg_id s) = Some (zread_reply (view r) c)"
      if "s \<in> set segs" "window_read p now s = Some c" for s c
      unfolding rsv by (rule map_of_zip_replies [OF d in_window_reads [OF that]])
    have len: "length cv = card (dom (rd_hashes (view r) (catviews_key p)))"
      using redis_okD(5) [OF assms(1) cv] cvv
      by (metis dom_map_of_conv_image_fst distinct_card length_map list.set_map)
    have m: "segment_matches fo stats cv (map_of (rev (zip (map fst ?cmds) rs))) now s \<longleftrightarrow>
        stored_match fo p now (view r) s" if "s \<in> set segs" for s
      using reply [OF that]
      by (cases "seg_family s")
        (simp_all add: segment_matches_def stored_match_def window_read_def Let_def int_field_number stv cvv len)
    show ?thesis unfolding ids using m ne by (auto simp: matching_def)
  qed
qed

text \<open>reevaluate, when nothing fails, makes the profile a member of what matches, and only that.\<close>

lemma reevaluate_effect:
  assumes "redis_ok rd view" and "distinct (map seg_id segs)" and "members_consistent (view r)"
    and "reevaluate fo rd segs p now r = (None, r')"
  shows "view r' = set_membership p (matching fo segs p now (view r)) (view r)"
proof -
  from assms(4) obtain want have_ids where
    w: "evaluate_profile fo rd segs p now r = Inr want" and
    h: "r_smembers rd (segments_key p) r = Inr have_ids"
    by (auto simp: reevaluate_def split: sum.splits)
  note hv = redis_okD(2) [OF assms(1) h]
  note wv = evaluate_profile_matching [OF assms(1,2) w]
  note fd = fold_delta_cmds [OF assms(3) hv, of want, unfolded wv]
  show ?thesis
  proof (cases "delta_cmds p want have_ids = []")
    case True
    with assms(4) w h have "r' = r" by (simp add: reevaluate_def)
    with fd True show ?thesis by simp
  next
    case False
    with assms(4) w h have "r_exec rd (delta_cmds p want have_ids) r = (None, r')"
      by (auto simp: reevaluate_def Let_def split: prod.splits option.splits)
    from redis_okD(1) [OF assms(1) this] fd show ?thesis by simp
  qed
qed


section \<open>The state built from a history\<close>

definition stats_step :: "storefront_event \<Rightarrow> (string \<rightharpoonup> string) \<Rightarrow> (string \<rightharpoonup> string)" where
  "stats_step ev m =
     (let ms = fmt_d (ev_timestamp_ms ev);
          m1 = m(''total_events'' \<mapsto> fmt_d (number_of (m ''total_events'') + 1), ''last_event_ts'' \<mapsto> ms)
      in if event_type ev = ''purchase'' then
           m1(''purchase_count_total'' \<mapsto> fmt_d (number_of (m ''purchase_count_total'') + 1),
              ''last_purchase_ts'' \<mapsto> ms)
         else if event_type ev = ''add_to_cart'' then m1(''last_cartadd_ts'' \<mapsto> ms)
         else m1)"

definition viewed :: "storefront_event \<Rightarrow> string" where
  "viewed ev = (if event_type ev = ''page_view'' then attr (attributes ev) ''category'' else [])"

definition catviews_step :: "storefront_event \<Rightarrow> (string \<rightharpoonup> string) \<Rightarrow> (string \<rightharpoonup> string)" where
  "catviews_step ev m =
     (if viewed ev = [] then m else m(viewed ev \<mapsto> fmt_d (number_of (m (viewed ev)) + 1)))"

definition event_seconds :: "storefront_event \<Rightarrow> int" where
  "event_seconds ev = unix_seconds (unix_milli_time (ev_timestamp_ms ev))"

definition purchase_member :: "'f float64_ops \<Rightarrow> storefront_event \<Rightarrow> string" where
  "purchase_member fo ev =
     event_id ev @ ''|'' @ format_2f fo (parse_float fo (attr (attributes ev) ''price''))"

definition drop_up_to :: "int \<Rightarrow> (string \<rightharpoonup> int) \<Rightarrow> (string \<rightharpoonup> int)" where
  "drop_up_to mx z = (\<lambda>m. case z m of None \<Rightarrow> None | Some s \<Rightarrow> if s \<le> mx then None else Some s)"

definition purch_step :: "'f float64_ops \<Rightarrow> storefront_event \<Rightarrow> (string \<rightharpoonup> int) \<Rightarrow> (string \<rightharpoonup> int)" where
  "purch_step fo ev z =
     (if event_type ev = ''purchase'' then
        drop_up_to (unix_seconds (unix_milli_time (ev_timestamp_ms ev) - 90 * 24 * hour))
          (z(purchase_member fo ev \<mapsto> event_seconds ev))
      else z)"

text \<open>The pipeline of one event changes the state of its profile by these steps, and nothing else.\<close>

lemma event_cmds_effect:
  "fold apply_cmd (event_cmds fo ev) d =
     d\<lparr>rd_sets := (rd_sets d)(''touched_profiles'' := insert (profile_id ev) (rd_sets d ''touched_profiles'')),
       rd_hashes := (rd_hashes d)(stats_key (profile_id ev) := stats_step ev (rd_hashes d (stats_key (profile_id ev))),
         catviews_key (profile_id ev) := catviews_step ev (rd_hashes d (catviews_key (profile_id ev)))),
       rd_zsets := (rd_zsets d)(purch_key (profile_id ev) := purch_step fo ev (rd_zsets d (purch_key (profile_id ev))))\<rparr>"
proof -
  consider (purchase) "event_type ev = ''purchase''" | (cart) "event_type ev = ''add_to_cart''"
    | (view) "event_type ev = ''page_view''" "attr (attributes ev) ''category'' \<noteq> []"
    | (other) "event_type ev \<noteq> ''purchase''" "event_type ev \<noteq> ''add_to_cart''"
        "event_type ev = ''page_view'' \<Longrightarrow> attr (attributes ev) ''category'' = []"
    by blast
  then show ?thesis
  proof cases
    case purchase
    then show ?thesis
      by (intro redis_data.equality)
        (simp_all add: event_cmds_def Let_def stats_step_def catviews_step_def viewed_def purch_step_def
          purchase_member_def event_seconds_def drop_up_to_def fun_eq_iff)
  next
    case cart
    then show ?thesis
      by (intro redis_data.equality)
        (simp_all add: event_cmds_def Let_def stats_step_def catviews_step_def viewed_def purch_step_def fun_eq_iff)
  next
    case view
    then show ?thesis
      by (intro redis_data.equality)
        (simp_all add: event_cmds_def Let_def stats_step_def catviews_step_def viewed_def purch_step_def fun_eq_iff)
  next
    case other
    then show ?thesis
      by (intro redis_data.equality)
        (auto simp add: event_cmds_def Let_def stats_step_def catviews_step_def viewed_def purch_step_def fun_eq_iff)
  qed
qed

text \<open>One profile's part of a history, and the store that a history leaves.\<close>

definition events_of :: "string \<Rightarrow> storefront_event list \<Rightarrow> storefront_event list" where
  "events_of p evs = filter (\<lambda>e. profile_id e = p) evs"

definition built_from :: "'f float64_ops \<Rightarrow> storefront_event list \<Rightarrow> redis_data \<Rightarrow> bool" where
  "built_from fo evs d \<longleftrightarrow>
     (\<forall>p. rd_hashes d (stats_key p) = fold stats_step (events_of p evs) Map.empty \<and>
          rd_hashes d (catviews_key p) = fold catviews_step (events_of p evs) Map.empty \<and>
          rd_zsets d (purch_key p) = fold (purch_step fo) (events_of p evs) Map.empty) \<and>
     rd_sets d ''touched_profiles'' = profile_id ` set evs"

lemma built_from_empty: "built_from fo [] empty_data" "members_consistent empty_data"
  by (simp_all add: built_from_def events_of_def empty_data_def members_consistent_def)

lemma built_from_event:
  "built_from fo evs d \<Longrightarrow> built_from fo (evs @ [ev]) (fold apply_cmd (event_cmds fo ev) d)"
  by (auto simp: built_from_def events_of_def event_cmds_effect)

lemma members_consistent_event:
  "members_consistent d \<Longrightarrow> members_consistent (fold apply_cmd (event_cmds fo ev) d)"
  by (auto simp: members_consistent_def event_cmds_effect)

lemma built_from_membership: "built_from fo evs (set_membership p w d) \<longleftrightarrow> built_from fo evs d"
  by (simp add: built_from_def)

lemma matching_membership [simp]: "matching fo segs q now (set_membership p w d) = matching fo segs q now d"
  unfolding matching_def stored_match_def set_membership_simps by (rule refl)

lemma matching_untouched: "built_from fo evs d \<Longrightarrow> p \<notin> profile_id ` set evs \<Longrightarrow> matching fo segs p now d = {}"
proof -
  assume "built_from fo evs d" "p \<notin> profile_id ` set evs"
  moreover from this(2) have "events_of p evs = []" by (auto simp: events_of_def filter_empty_conv)
  ultimately show ?thesis by (simp add: built_from_def matching_def)
qed

text \<open>A stream of events through ApplyEvent, up to the first error.\<close>

fun apply_events ::
  "'f float64_ops \<Rightarrow> 'r redis \<Rightarrow> 'f segment list \<Rightarrow> storefront_event list \<Rightarrow> 'r \<Rightarrow> goerror option \<times> 'r"
where
  "apply_events fo rd segs [] r = (None, r)"
| "apply_events fo rd segs (ev # evs) r =
     (case apply_event fo rd segs ev r of
        (Some e, r') \<Rightarrow> (Some e, r')
      | (None, r') \<Rightarrow> apply_events fo rd segs evs r')"

lemma apply_event_effect:
  assumes "redis_ok rd view" and "distinct (map seg_id segs)" and "members_consistent (view r)"
    and "built_from fo evs (view r)" and "apply_event fo rd segs ev r = (None, r')"
  shows "built_from fo (evs @ [ev]) (view r') \<and> members_consistent (view r') \<and>
    rd_sets (view r') (segments_key (profile_id ev)) =
      matching fo segs (profile_id ev) (unix_milli_time (ev_timestamp_ms ev)) (view r')"
proof -
  let ?now = "unix_milli_time (ev_timestamp_ms ev)"
  from assms(5) obtain r1 where e: "r_exec rd (event_cmds fo ev) r = (None, r1)"
    and re: "reevaluate fo rd segs (profile_id ev) ?now r1 = (None, r')"
    by (auto simp: apply_event_def split: prod.splits option.splits)
  have v1: "view r1 = fold apply_cmd (event_cmds fo ev) (view r)" by (rule redis_okD(1) [OF assms(1) e])
  have c: "members_consistent (view r1)" "built_from fo (evs @ [ev]) (view r1)"
    using v1 members_consistent_event [OF assms(3), of fo ev] built_from_event [OF assms(4), of ev] by simp_all
  have t: "profile_id ev \<in> rd_sets (view r1) ''touched_profiles''"
    using c(2) by (simp add: built_from_def)
  show ?thesis
    using reevaluate_effect [OF assms(1,2) c(1) re] members_consistent_set [OF c(1) t] c(2)
    by (simp add: built_from_membership)
qed

lemma apply_events_effect:
  assumes "redis_ok rd view" and "distinct (map seg_id segs)"
  shows "members_consistent (view r) \<Longrightarrow> built_from fo evs0 (view r) \<Longrightarrow>
    apply_events fo rd segs evs r = (None, r') \<Longrightarrow>
    built_from fo (evs0 @ evs) (view r') \<and> members_consistent (view r')"
proof (induction evs arbitrary: r evs0)
  case (Cons ev evs)
  from Cons.prems(3) obtain r1 where a: "apply_event fo rd segs ev r = (None, r1)"
    and rest: "apply_events fo rd segs evs r1 = (None, r')"
    by (auto split: prod.splits option.splits)
  from apply_event_effect [OF assms Cons.prems(1,2) a]
  have "members_consistent (view r1)" "built_from fo (evs0 @ [ev]) (view r1)" by simp_all
  from Cons.IH [OF this rest] show ?case by simp
qed simp

lemma reevaluate_all_effect:
  assumes "redis_ok rd view" and "distinct (map seg_id segs)"
  shows "members_consistent (view r) \<Longrightarrow> set ps \<subseteq> rd_sets (view r) ''touched_profiles'' \<Longrightarrow>
    built_from fo evs (view r) \<Longrightarrow> reevaluate_all fo rd segs ps now r = (None, r') \<Longrightarrow>
    members_consistent (view r') \<and> built_from fo evs (view r') \<and>
    (\<forall>p. matching fo segs p now (view r') = matching fo segs p now (view r)) \<and>
    (\<forall>p. rd_sets (view r') (segments_key p) =
       (if p \<in> set ps then matching fo segs p now (view r) else rd_sets (view r) (segments_key p)))"
proof (induction ps arbitrary: r)
  case (Cons p ps)
  from Cons.prems(4) obtain r1 where a: "reevaluate fo rd segs p now r = (None, r1)"
    and rest: "reevaluate_all fo rd segs ps now r1 = (None, r')"
    by (auto split: prod.splits option.splits)
  note v1 = reevaluate_effect [OF assms Cons.prems(1) a]
  have "p \<in> rd_sets (view r) ''touched_profiles''" using Cons.prems(2) by simp
  then have c: "members_consistent (view r1)" "set ps \<subseteq> rd_sets (view r1) ''touched_profiles''"
    "built_from fo evs (view r1)"
    using v1 members_consistent_set [OF Cons.prems(1)] Cons.prems(2,3) by (simp_all add: built_from_membership)
  from Cons.IH [OF c rest] v1 show ?case by auto
qed simp

text \<open>Finalize, when nothing fails.\<close>

lemma finalize_effect:
  assumes "redis_ok rd view" and "distinct (map seg_id segs)" and "members_consistent (view r)"
    and "built_from fo evs (view r)" and "finalize fo rd segs as_of r = (Inr n, r')"
  shows "n = card (profile_id ` set evs) \<and>
    (\<forall>p i. p \<in> rd_sets (view r') (member_key i) \<longleftrightarrow> i \<in> matching fo segs p as_of (view r')) \<and>
    built_from fo evs (view r')"
proof -
  from assms(5) obtain ps where ps: "r_smembers rd ''touched_profiles'' r = Inr ps"
    and re: "reevaluate_all fo rd segs ps as_of r = (None, r')" and n: "n = length ps"
    by (auto simp: finalize_def split: sum.splits prod.splits option.splits)
  have t: "set ps = profile_id ` set evs"
    using redis_okD(2) [OF assms(1) ps] assms(4) by (simp add: built_from_def)
  have "set ps \<subseteq> rd_sets (view r) ''touched_profiles''" using redis_okD(2) [OF assms(1) ps] by simp
  note eff = reevaluate_all_effect [OF assms(1,2,3) this assms(4) re]
  have "rd_sets (view r') (segments_key p) = matching fo segs p as_of (view r')" for p
  proof (cases "p \<in> set ps")
    case True
    with eff show ?thesis by simp
  next
    case False
    then have "p \<notin> rd_sets (view r) ''touched_profiles''"
      using redis_okD(2) [OF assms(1) ps] by simp
    then have "rd_sets (view r) (segments_key p) = {}"
      using assms(3) by (auto simp: members_consistent_def)
    with False eff matching_untouched [OF assms(4), of p] t show ?thesis by simp
  qed
  moreover have "n = card (profile_id ` set evs)"
    using n distinct_card [OF redis_okD(3) [OF assms(1) ps]] by (simp add: t)
  ultimately show ?thesis using eff by (auto simp: members_consistent_def)
qed

end
