(* ===== verification/Redis_Memory.thy ===== *)
theory Redis_Memory
  imports Segment_State "HOL-Library.AList"
begin

text \<open>
  An in-memory store that answers as Redis is documented to: it shows that the hypothesis on the
  service can be met, and the concrete instances of the segment properties run on it.
\<close>

record mem_store =
  ms_sets :: "(string \<times> string list) list"
  ms_hashes :: "(string \<times> (string \<times> string) list) list"
  ms_zsets :: "(string \<times> (string \<times> int) list) list"

definition empty_store :: mem_store where
  "empty_store = \<lparr>ms_sets = [], ms_hashes = [], ms_zsets = []\<rparr>"

definition list_at :: "(string \<times> 'a list) list \<Rightarrow> string \<Rightarrow> 'a list" where
  "list_at m k = (case map_of m k of Some xs \<Rightarrow> xs | None \<Rightarrow> [])"

fun mem_cmd :: "redis_cmd \<Rightarrow> mem_store \<Rightarrow> mem_store" where
  "mem_cmd (SAdd k m) s = s\<lparr>ms_sets := AList.update k (m # list_at (ms_sets s) k) (ms_sets s)\<rparr>"
| "mem_cmd (SRem k m) s = s\<lparr>ms_sets := AList.update k (removeAll m (list_at (ms_sets s) k)) (ms_sets s)\<rparr>"
| "mem_cmd (HIncrBy k f n) s =
     (let h = list_at (ms_hashes s) k
      in s\<lparr>ms_hashes := AList.update k ((f, fmt_d (number_of (map_of h f) + n)) # h) (ms_hashes s)\<rparr>)"
| "mem_cmd (HSet k f v) s =
     s\<lparr>ms_hashes := AList.update k ((f, v) # list_at (ms_hashes s) k) (ms_hashes s)\<rparr>"
| "mem_cmd (ZAdd k x m) s =
     s\<lparr>ms_zsets := AList.update k ((m, x) # list_at (ms_zsets s) k) (ms_zsets s)\<rparr>"
| "mem_cmd (ZRemUpTo k mx) s =
     s\<lparr>ms_zsets := AList.update k (filter (\<lambda>p. mx < snd p) (AList.clearjunk (list_at (ms_zsets s) k))) (ms_zsets s)\<rparr>"

definition mem_range :: "(string \<times> int) list \<Rightarrow> int \<Rightarrow> int \<Rightarrow> (int \<times> string) list" where
  "mem_range z lo hi = sort (map (\<lambda>(m, s). (s, m)) (filter (\<lambda>(m, s). lo \<le> s \<and> s \<le> hi) (AList.clearjunk z)))"

fun mem_read :: "mem_store \<Rightarrow> zread \<Rightarrow> zreply" where
  "mem_read s (ZCount k lo hi) = Count (length (mem_range (list_at (ms_zsets s) k) lo hi))"
| "mem_read s (ZRangeByScore k lo hi) = Members (map snd (mem_range (list_at (ms_zsets s) k) lo hi))"

definition mem_redis :: "mem_store redis" where
  "mem_redis =
     \<lparr>r_exec = (\<lambda>cmds s. (None, fold mem_cmd cmds s)),
      r_smembers = (\<lambda>k s. Inr (remdups (list_at (ms_sets s) k))),
      r_hgetall = (\<lambda>k s. Inr (AList.clearjunk (list_at (ms_hashes s) k))),
      r_reads = (\<lambda>zs s. Inr (map (mem_read s) zs))\<rparr>"

definition mem_view :: "mem_store \<Rightarrow> redis_data" where
  "mem_view s =
     \<lparr>rd_sets = (\<lambda>k. set (list_at (ms_sets s) k)),
      rd_hashes = (\<lambda>k. map_of (list_at (ms_hashes s) k)),
      rd_zsets = (\<lambda>k. map_of (list_at (ms_zsets s) k))\<rparr>"

lemma mem_view_simps:
  "rd_sets (mem_view s) k = set (list_at (ms_sets s) k)"
  "rd_hashes (mem_view s) k = map_of (list_at (ms_hashes s) k)"
  "rd_zsets (mem_view s) k = map_of (list_at (ms_zsets s) k)"
  by (simp_all add: mem_view_def)

lemma list_at_update: "list_at (AList.update k v m) k' = (if k' = k then v else list_at m k')"
  by (simp add: list_at_def update_conv')

lemma map_of_filter_value:
  "distinct (map fst z) \<Longrightarrow> map_of (filter (\<lambda>p. mx < snd p) z) m =
     (case map_of z m of None \<Rightarrow> None | Some s \<Rightarrow> if s \<le> mx then None else Some (s :: int))"
proof (induction z)
  case (Cons p z)
  then have "map_of z (fst p) = None" by (simp add: map_of_eq_None_iff)
  with Cons show ?case by (cases p) (auto split: option.splits)
qed simp

lemma mem_cmd_view: "mem_view (mem_cmd c s) = apply_cmd c (mem_view s)"
proof (cases c)
  case (ZRemUpTo k mx)
  have "map_of (filter (\<lambda>p. mx < snd p) (AList.clearjunk z)) =
      (\<lambda>m. case map_of z m of None \<Rightarrow> None | Some s \<Rightarrow> if s \<le> mx then None else Some s)" for z :: "(string \<times> int) list"
    using map_of_filter_value [OF distinct_clearjunk, of mx z] by (simp add: fun_eq_iff map_of_clearjunk)
  with ZRemUpTo show ?thesis
    by (intro redis_data.equality) (auto simp: mem_view_def list_at_update fun_eq_iff)
qed (intro redis_data.equality, auto simp: mem_view_def list_at_update fun_eq_iff Let_def)+

lemma mem_cmds_view: "mem_view (fold mem_cmd cs s) = fold apply_cmd cs (mem_view s)"
  by (induction cs arbitrary: s) (auto simp: mem_cmd_view)

lemma mem_range_sorted: "mem_range z lo hi = sorted_list_of_set (in_range (map_of z) lo hi)"
proof -
  let ?xs = "map (\<lambda>(m, s). (s, m)) (filter (\<lambda>(m, s). lo \<le> s \<and> s \<le> hi) (AList.clearjunk z))"
  have "in_range (map_of z) lo hi = set ?xs"
    by (force simp: in_range_def map_of_clearjunk [of z, symmetric] simp del: map_of_clearjunk
        intro: map_of_is_SomeI dest: map_of_SomeD)
  moreover have "distinct ?xs"
  proof -
    have "distinct (AList.clearjunk z)" using distinct_clearjunk [of z] by (simp add: distinct_map)
    then show ?thesis by (auto simp: distinct_map inj_on_def)
  qed
  ultimately show ?thesis
    using sorted_list_of_set_sort_remdups [of ?xs] by (simp only: mem_range_def distinct_remdups_id)
qed

lemma mem_read_view: "mem_read s c = zread_reply (mem_view s) c"
proof (cases c)
  case (ZCount k lo hi)
  have "finite (in_range (map_of z) lo hi)" for z :: "(string \<times> int) list"
  proof -
    have "in_range (map_of z) lo hi \<subseteq> (\<lambda>(m, s). (s, m)) ` set z"
      by (force simp: in_range_def dest: map_of_SomeD)
    then show ?thesis by (rule finite_subset) simp
  qed
  with ZCount show ?thesis by (simp add: mem_range_sorted mem_view_def)
next
  case (ZRangeByScore k lo hi)
  then show ?thesis by (simp add: mem_range_sorted mem_view_def)
qed

lemma mem_redis_ok: "redis_ok mem_redis mem_view"
  unfolding redis_ok_def
  by (auto simp: mem_redis_def mem_cmds_view mem_read_view mem_view_simps map_of_clearjunk distinct_clearjunk)

lemma mem_view_empty: "mem_view empty_store = empty_data"
  by (simp add: mem_view_def empty_store_def empty_data_def list_at_def)

text \<open>Floats for concrete instances: whole numbers, printed and parsed in decimal.\<close>

definition demo_floats :: "int float64_ops" where
  "demo_floats = \<lparr>parse_float = (\<lambda>s. fst (parse_int64 s)), format_2f = fmt_d, float_lit = (\<lambda>i. i),
     float_add = (+), float_le = (\<le>)\<rparr>"

text \<open>The store after a history and a Finalize, on the in-memory Redis.\<close>

definition demo_run :: "int segment list \<Rightarrow> storefront_event list \<Rightarrow> int \<Rightarrow> (goerror + nat) \<times> mem_store" where
  "demo_run segs evs as_of =
     finalize demo_floats mem_redis segs as_of (snd (apply_events demo_floats mem_redis segs evs empty_store))"


text \<open>The in-memory store never fails, so neither does the engine on it.\<close>

lemma mem_evaluate: "\<exists>ids. evaluate_profile fo mem_redis segs p now s = Inr ids"
  by (simp add: evaluate_profile_def mem_redis_def Let_def split: sum.split)

lemma mem_reevaluate: "\<exists>s'. reevaluate fo mem_redis segs p now s = (None, s')"
proof -
  obtain ids where "evaluate_profile fo mem_redis segs p now s = Inr ids" using mem_evaluate by blast
  then show ?thesis by (simp add: reevaluate_def mem_redis_def Let_def)
qed

lemma mem_apply_event: "\<exists>s'. apply_event fo mem_redis segs ev s = (None, s')"
proof -
  obtain s' where "reevaluate fo mem_redis segs (profile_id ev) (unix_milli_time (ev_timestamp_ms ev))
      (fold mem_cmd (event_cmds fo ev) s) = (None, s')" using mem_reevaluate by blast
  then show ?thesis by (simp add: apply_event_def) (simp add: mem_redis_def)
qed

lemma mem_apply_events: "\<exists>s'. apply_events fo mem_redis segs evs s = (None, s')"
proof (induction evs arbitrary: s)
  case (Cons ev evs)
  obtain s1 where "apply_event fo mem_redis segs ev s = (None, s1)" using mem_apply_event by blast
  with Cons.IH [of s1] show ?case by simp
qed simp

lemma mem_reevaluate_all: "\<exists>s'. reevaluate_all fo mem_redis segs ps now s = (None, s')"
proof (induction ps arbitrary: s)
  case (Cons p ps)
  obtain s1 where "reevaluate fo mem_redis segs p now s = (None, s1)" using mem_reevaluate by blast
  with Cons.IH [of s1] show ?case by simp
qed simp

lemma mem_finalize: "\<exists>n s'. finalize fo mem_redis segs now s = (Inr n, s')"
proof -
  let ?ps = "remdups (list_at (ms_sets s) ''touched_profiles'')"
  have "r_smembers mem_redis ''touched_profiles'' s = Inr ?ps" by (simp add: mem_redis_def)
  moreover obtain s' where "reevaluate_all fo mem_redis segs ?ps now s = (None, s')"
    using mem_reevaluate_all by blast
  ultimately show ?thesis by (simp add: finalize_def)
qed

text \<open>Membership after a run, by the decision on the state built from the history.\<close>

lemma demo_run_members:
  assumes "distinct (map seg_id segs)"
  shows "\<exists>d. built_from demo_floats evs d \<and>
    (\<forall>p i. p \<in> rd_sets (mem_view (snd (demo_run segs evs now))) (member_key i) \<longleftrightarrow>
       i \<in> matching demo_floats segs p now d)"
proof -
  obtain s1 where s1: "apply_events demo_floats mem_redis segs evs empty_store = (None, s1)"
    using mem_apply_events by blast
  obtain n s2 where s2: "finalize demo_floats mem_redis segs now s1 = (Inr n, s2)"
    using mem_finalize by blast
  have "members_consistent (mem_view empty_store)" "built_from demo_floats [] (mem_view empty_store)"
    by (simp_all add: mem_view_empty built_from_empty)
  from apply_events_effect [OF mem_redis_ok assms this s1]
  have b: "members_consistent (mem_view s1)" "built_from demo_floats evs (mem_view s1)" by simp_all
  from finalize_effect [OF mem_redis_ok assms b s2] s1 s2 show ?thesis
    by (intro exI [of _ "mem_view s2"]) (simp add: demo_run_def)
qed

end
