(* ===== verification/Segment_Agreement.thy ===== *)
theory Segment_Agreement
  imports Segment_State Redis_Memory
begin

text \<open>
  internal/segment/recompute.go, the SQL of each family as the set it selects from the event log, and
  the comparison with what the engine keeps incrementally: closed forms of the engine's state for a
  history, agreement of the two evaluators, and concrete histories on which they differ.
\<close>

section \<open>The recompute queries\<close>

text \<open>
  SELECT profile_id FROM events WHERE wh GROUP BY profile_id HAVING hv. Timestamps are DateTime64(3),
  milliseconds; INTERVAL days and hours are in UTC.
\<close>

definition group_having ::
  "(storefront_event \<Rightarrow> bool) \<Rightarrow> (storefront_event list \<Rightarrow> bool) \<Rightarrow> storefront_event list \<Rightarrow> string set"
where
  "group_having wh hv evs =
     {p \<in> profile_id ` set (filter wh evs). hv (filter (\<lambda>e. profile_id e = p) (filter wh evs))}"

definition ms_per_day :: int where
  "ms_per_day = 86400000"

text \<open>dateDiff('second', t, s) counts the second boundaries between the two.\<close>

definition date_diff_seconds :: "int \<Rightarrow> int \<Rightarrow> int" where
  "date_diff_seconds t s = s div 1000 - t div 1000"

text \<open>max(if(event_type = ty, timestamp, toDateTime64(0,3)))\<close>

definition max_ts_of :: "string \<Rightarrow> storefront_event list \<Rightarrow> int" where
  "max_ts_of ty g = Max ((\<lambda>e. if event_type e = ty then ev_timestamp_ms e else 0) ` set g)"

fun recompute :: "'f float64_ops \<Rightarrow> 'f segment \<Rightarrow> int \<Rightarrow> storefront_event list \<Rightarrow> goerror + string set" where
  "recompute fo seg as_of evs =
     (let a = as_of div 1000000;
          upto = (\<lambda>e. ev_timestamp_ms e \<le> a);
          within = (\<lambda>e. ev_timestamp_ms e \<le> a \<and> a - window_days seg * ms_per_day \<le> ev_timestamp_ms e)
      in case seg_family seg of
           PurchaseCountMin \<Rightarrow>
             Inr (group_having (\<lambda>e. event_type e = ''purchase'' \<and> within e)
               (\<lambda>g. min_count seg \<le> int (length g)) evs)
         | PurchaseValueMin \<Rightarrow>
             Inr (group_having (\<lambda>e. event_type e = ''purchase'' \<and> within e)
               (\<lambda>g. float_le fo (min_value seg)
                 (fold (\<lambda>e s. float_add fo s (parse_float fo (attr (attributes e) ''price''))) g (float_lit fo 0)))
               evs)
         | CartAbandonDays \<Rightarrow>
             Inr (group_having upto
               (\<lambda>g. max_ts_of ''purchase'' g < max_ts_of ''add_to_cart'' g \<and>
                    min_days seg * 86400 \<le> date_diff_seconds (max_ts_of ''add_to_cart'' g) a) evs)
         | CategoryViewMin \<Rightarrow>
             Inr (group_having
               (\<lambda>e. event_type e = ''page_view'' \<and> attr (attributes e) ''category'' = Segments.category seg \<and> upto e)
               (\<lambda>g. min_count seg \<le> int (length g)) evs)
         | RecentlyActiveHours \<Rightarrow>
             Inr (group_having (\<lambda>e. upto e \<and> a - min_hours seg * 3600000 \<le> ev_timestamp_ms e) (\<lambda>g. True) evs)
         | NeverPurchased \<Rightarrow>
             Inr (group_having upto (\<lambda>g. length (filter (\<lambda>e. event_type e = ''purchase'') g) = 0) evs)
         | ChurnRiskDays \<Rightarrow>
             Inr (group_having upto
               (\<lambda>g. 1 \<le> length (filter (\<lambda>e. event_type e = ''purchase'') g) \<and>
                    min_days seg * 86400 \<le> date_diff_seconds (Max (ev_timestamp_ms ` set g)) a) evs)
         | MultiCategoryMin \<Rightarrow>
             Inr (group_having (\<lambda>e. event_type e = ''page_view'' \<and> upto e)
               (\<lambda>g. min_distinct seg \<le> int (card ((\<lambda>e. attr (attributes e) ''category'') ` set g))) evs)
         | OtherFamily f \<Rightarrow> Inl (Errno (''unknown family '' @ f)))"

declare recompute.simps [simp del]

section \<open>Closed forms of the engine's state\<close>

text \<open>The bounds of int64 for a history's timestamps and counts.\<close>

definition int64 :: "int \<Rightarrow> bool" where
  "int64 i \<longleftrightarrow> - (2 ^ 63) \<le> i \<and> i < 2 ^ 63"

definition fits_int64 :: "storefront_event list \<Rightarrow> bool" where
  "fits_int64 es \<longleftrightarrow> int64 (int (length es)) \<and> list_all (\<lambda>e. int64 (ev_timestamp_ms e)) es"

lemma fits_int64_snoc: "fits_int64 (es @ [e]) \<Longrightarrow> fits_int64 es \<and> int64 (ev_timestamp_ms e) \<and> int64 (int (length es) + 1)"
  by (auto simp: fits_int64_def int64_def)

lemma number_of_simps [simp]:
  "number_of None = 0" "int64 i \<Longrightarrow> number_of (Some (fmt_d i)) = i"
  using parse_int64_fmt_d by (simp_all add: number_of_def int64_def)

definition last_ts :: "(storefront_event \<Rightarrow> bool) \<Rightarrow> storefront_event list \<Rightarrow> int" where
  "last_ts P es = (if filter P es = [] then 0 else ev_timestamp_ms (last (filter P es)))"

lemma last_ts_snoc: "last_ts P (es @ [e]) = (if P e then ev_timestamp_ms e else last_ts P es)"
  by (simp add: last_ts_def)

definition of_type :: "string \<Rightarrow> storefront_event \<Rightarrow> bool" where
  "of_type ty e \<longleftrightarrow> event_type e = ty"

lemma count_fits: "fits_int64 es \<Longrightarrow> int64 (int (length (filter P es)))"
  using le_less_trans [OF length_filter_le [of P es], of "2 ^ 63"] by (simp add: fits_int64_def int64_def)

lemma int64_count_snoc:
  "fits_int64 (es @ [e]) \<Longrightarrow> int64 (int (length (filter P es)) + 1)"
  using le_less_trans [OF length_filter_le [of P es], of "2 ^ 63 - 1"] by (simp add: fits_int64_def int64_def)

lemma stats_step_fields:
  "stats_step e m ''total_events'' = Some (fmt_d (number_of (m ''total_events'') + 1))"
  "stats_step e m ''last_event_ts'' = Some (fmt_d (ev_timestamp_ms e))"
  "stats_step e m ''purchase_count_total'' =
     (if of_type ''purchase'' e then Some (fmt_d (number_of (m ''purchase_count_total'') + 1))
      else m ''purchase_count_total'')"
  "stats_step e m ''last_purchase_ts'' =
     (if of_type ''purchase'' e then Some (fmt_d (ev_timestamp_ms e)) else m ''last_purchase_ts'')"
  "stats_step e m ''last_cartadd_ts'' =
     (if of_type ''add_to_cart'' e then Some (fmt_d (ev_timestamp_ms e)) else m ''last_cartadd_ts'')"
  by (simp_all add: stats_step_def Let_def of_type_def)

lemma stats_closed:
  "fits_int64 es \<Longrightarrow>
   number_of (fold stats_step es Map.empty ''total_events'') = int (length es) \<and>
   number_of (fold stats_step es Map.empty ''last_event_ts'') = last_ts (\<lambda>_. True) es \<and>
   number_of (fold stats_step es Map.empty ''purchase_count_total'')
     = int (length (filter (of_type ''purchase'') es)) \<and>
   number_of (fold stats_step es Map.empty ''last_purchase_ts'') = last_ts (of_type ''purchase'') es \<and>
   number_of (fold stats_step es Map.empty ''last_cartadd_ts'') = last_ts (of_type ''add_to_cart'') es"
proof (induction es rule: rev_induct)
  case Nil
  then show ?case by (simp add: last_ts_def)
next
  case (snoc e es)
  note f = fits_int64_snoc [OF snoc.prems]
  from snoc.IH f int64_count_snoc [OF snoc.prems, of "of_type ''purchase''"] show ?case
    by (simp add: stats_step_fields last_ts_snoc add.commute)
qed

lemma stats_nonempty: "fold stats_step es Map.empty = Map.empty \<longleftrightarrow> es = []"
  by (cases es rule: rev_cases) (auto simp: stats_step_def Let_def fun_eq_iff)

lemma catviews_closed:
  "fits_int64 es \<Longrightarrow>
   (\<forall>c. c \<noteq> [] \<longrightarrow> number_of (fold catviews_step es Map.empty c) = int (length (filter (\<lambda>e. viewed e = c) es))) \<and>
   dom (fold catviews_step es Map.empty) = viewed ` set es - {[]}"
proof (induction es rule: rev_induct)
  case Nil
  then show ?case by simp
next
  case (snoc e es)
  note f = fits_int64_snoc [OF snoc.prems]
  from snoc.IH f int64_count_snoc [OF snoc.prems, of "\<lambda>x. viewed x = viewed e"] show ?case
    by (auto simp: catviews_step_def add.commute)
qed


text \<open>Seconds of an instant given in milliseconds.\<close>

lemma unix_seconds_milli [simp]: "unix_seconds (unix_milli_time t) = t div 1000"
proof -
  have "t * 1000000 div (1000 * 1000000) = t div 1000" by (rule div_mult_mult2) simp
  then show ?thesis by (simp add: unix_seconds_def unix_milli_time_def nanos_per_second_def)
qed

lemma unix_seconds_minus_days [simp]:
  "unix_seconds (unix_milli_time t - d * 24 * hour) = t div 1000 - d * 86400"
proof -
  have "unix_milli_time t - d * 24 * hour = unix_milli_time t + (- (d * 86400)) * nanos_per_second"
    by (simp add: hour_def nanos_per_second_def)
  then have "unix_seconds (unix_milli_time t - d * 24 * hour) =
      (unix_milli_time t + (- (d * 86400)) * nanos_per_second) div nanos_per_second"
    by (simp only: unix_seconds_def)
  also have "\<dots> = - (d * 86400) + unix_milli_time t div nanos_per_second"
    by (rule div_mult_self1) (simp add: nanos_per_second_def)
  finally show ?thesis using unix_seconds_milli [of t] by (simp add: unix_seconds_def)
qed

lemma event_seconds_div: "event_seconds e = ev_timestamp_ms e div 1000"
  by (simp add: event_seconds_def)

abbreviation purchases :: "storefront_event list \<Rightarrow> storefront_event list" where
  "purchases es \<equiv> filter (of_type ''purchase'') es"

definition in_order :: "storefront_event list \<Rightarrow> bool" where
  "in_order es \<longleftrightarrow> sorted (map ev_timestamp_ms es)"

lemma in_order_snoc: "in_order (es @ [e]) \<Longrightarrow> in_order es \<and> (\<forall>x \<in> set es. ev_timestamp_ms x \<le> ev_timestamp_ms e)"
  by (auto simp: in_order_def sorted_append)

text \<open>The sorted set keeps the purchases of the 90 days before the last one.\<close>

lemma purch_closed:
  "in_order es \<Longrightarrow> distinct (map (purchase_member fo) (purchases es)) \<Longrightarrow>
   fold (purch_step fo) es Map.empty m = Some s \<longleftrightarrow>
   (\<exists>e \<in> set (purchases es). purchase_member fo e = m \<and> event_seconds e = s \<and>
      last_ts (of_type ''purchase'') es div 1000 - 90 * 86400 < s)"
proof (induction es arbitrary: m s rule: rev_induct)
  case Nil
  then show ?case by simp
next
  case (snoc e es)
  let ?z = "fold (purch_step fo) es Map.empty"
  have o: "in_order es" "\<forall>x \<in> set es. ev_timestamp_ms x \<le> ev_timestamp_ms e"
    using in_order_snoc [OF snoc.prems(1)] by blast+
  have d: "distinct (map (purchase_member fo) (purchases es))" using snoc.prems(2) by auto
  note ih = snoc.IH [OF o(1) d]
  show ?case
  proof (cases "of_type ''purchase'' e")
    case False
    with ih show ?thesis by (simp add: purch_step_def of_type_def last_ts_snoc)
  next
    case True
    then have "purchase_member fo e \<notin> purchase_member fo ` set (purchases es)"
      using snoc.prems(2) by simp
    then have new: "\<forall>x \<in> set (purchases es). purchase_member fo x \<noteq> purchase_member fo e"
      by (metis imageI)
    let ?cut = "ev_timestamp_ms e div 1000 - 90 * 86400"
    have "last_ts (of_type ''purchase'') es div 1000 \<le> ev_timestamp_ms e div 1000" if "purchases es \<noteq> []"
    proof -
      have "last (purchases es) \<in> set es" using last_in_set [OF that] by simp
      with o(2) that show ?thesis by (simp add: last_ts_def zdiv_mono1)
    qed
    then have mono: "last_ts (of_type ''purchase'') es div 1000 - 90 * 86400 < s" if "?cut < s" "purchases es \<noteq> []" for s
      using that by fastforce
    have step: "fold (purch_step fo) (es @ [e]) Map.empty m = Some s \<longleftrightarrow>
        (?z(purchase_member fo e \<mapsto> event_seconds e)) m = Some s \<and> ?cut < s" for m s
      using True unix_seconds_minus_days [of "ev_timestamp_ms e" 90]
      by (auto simp: purch_step_def of_type_def drop_up_to_def split: option.splits if_splits)
    have rhs: "(\<exists>x \<in> set (purchases (es @ [e])). purchase_member fo x = m \<and> event_seconds x = s \<and>
          last_ts (of_type ''purchase'') (es @ [e]) div 1000 - 90 * 86400 < s) \<longleftrightarrow>
        (?z(purchase_member fo e \<mapsto> event_seconds e)) m = Some s \<and> ?cut < s"
    proof (cases "m = purchase_member fo e")
      case True': True
      with new True show ?thesis by (auto simp: last_ts_snoc)
    next
      case False
      then have "(?z(purchase_member fo e \<mapsto> event_seconds e)) m = Some s \<and> ?cut < s \<longleftrightarrow>
          ?z m = Some s \<and> ?cut < s" by simp
      also have "\<dots> \<longleftrightarrow> (\<exists>x \<in> set (purchases es). purchase_member fo x = m \<and> event_seconds x = s \<and> ?cut < s)"
        unfolding ih using mono by (cases "purchases es = []") auto
      finally show ?thesis using False True by (auto simp: last_ts_snoc)
    qed
    show ?thesis unfolding step rhs by (rule refl)
  qed
qed

lemma card_in_range_purchases:
  assumes "in_order es" and "distinct (map (purchase_member fo) (purchases es))"
    and "\<forall>e \<in> set es. ev_timestamp_ms e div 1000 \<le> hi"
    and "purchases es \<noteq> [] \<Longrightarrow> last_ts (of_type ''purchase'') es div 1000 - 90 * 86400 < lo"
  shows "card (in_range (fold (purch_step fo) es Map.empty) lo hi) =
    length (filter (\<lambda>e. of_type ''purchase'' e \<and> lo \<le> event_seconds e) es)"
proof -
  let ?f = "\<lambda>e. (event_seconds e, purchase_member fo e)"
  let ?w = "filter (\<lambda>e. lo \<le> event_seconds e) (purchases es)"
  have "in_range (fold (purch_step fo) es Map.empty) lo hi = ?f ` set ?w"
  proof (rule set_eqI, rule prod.induct)
    fix s m
    have "(s, m) \<in> in_range (fold (purch_step fo) es Map.empty) lo hi \<longleftrightarrow>
        (\<exists>e \<in> set (purchases es). purchase_member fo e = m \<and> event_seconds e = s \<and>
           last_ts (of_type ''purchase'') es div 1000 - 90 * 86400 < s) \<and> lo \<le> s \<and> s \<le> hi"
      by (simp add: in_range_def purch_closed [OF assms(1,2)])
    also have "\<dots> \<longleftrightarrow> (s, m) \<in> ?f ` set ?w"
      using assms(3,4) by (fastforce simp: event_seconds_div image_iff)
    finally show "(s, m) \<in> in_range (fold (purch_step fo) es Map.empty) lo hi \<longleftrightarrow> (s, m) \<in> ?f ` set ?w" .
  qed
  moreover have "distinct (map ?f ?w)"
  proof -
    have "distinct (map (purchase_member fo) ?w)" using assms(2) by (rule distinct_map_filter)
    then show ?thesis by (auto simp: distinct_map inj_on_def)
  qed
  ultimately have "card (in_range (fold (purch_step fo) es Map.empty) lo hi) = length ?w"
    using distinct_card [of "map ?f ?w"] by simp
  then show ?thesis by (simp add: conj_commute)
qed


section \<open>One profile, family by family\<close>

lemma in_group_having:
  "p \<in> group_having wh hv evs \<longleftrightarrow> filter wh (events_of p evs) \<noteq> [] \<and> hv (filter wh (events_of p evs))"
proof -
  have "filter (\<lambda>e. profile_id e = p) (filter wh evs) = filter wh (events_of p evs)"
    by (simp add: events_of_def conj_commute)
  moreover have "p \<in> profile_id ` set (filter wh evs) \<longleftrightarrow> filter wh (events_of p evs) \<noteq> []"
    by (auto simp: events_of_def filter_empty_conv)
  ultimately show ?thesis by (simp add: group_having_def)
qed

text \<open>
  Histories on which the two evaluators can be compared: a profile's events arrive in the order of
  their timestamps, and timestamps are positive, at most the evaluation time, and whole seconds.
\<close>

definition comparable :: "int \<Rightarrow> storefront_event list \<Rightarrow> bool" where
  "comparable a es \<longleftrightarrow> in_order es \<and> int64 (int (length es)) \<and> a < 9 * 10 ^ 12 \<and> a mod 1000 = 0 \<and>
     list_all (\<lambda>e. 0 < ev_timestamp_ms e \<and> ev_timestamp_ms e \<le> a \<and> ev_timestamp_ms e mod 1000 = 0) es"

lemma comparableD:
  assumes "comparable a es"
  shows "in_order es" and "fits_int64 es" and "a mod 1000 = 0" and "a < 9 * 10 ^ 12"
    and "e \<in> set es \<Longrightarrow> 0 < ev_timestamp_ms e"
    and "e \<in> set es \<Longrightarrow> ev_timestamp_ms e \<le> a"
    and "e \<in> set es \<Longrightarrow> ev_timestamp_ms e mod 1000 = 0"
  using assms by (auto simp: comparable_def fits_int64_def int64_def list_all_iff)

lemma time_sub_milli:
  assumes "0 \<le> t" and "t \<le> a" and "a < 9 * 10 ^ 12"
  shows "time_sub (unix_milli_time a) (unix_milli_time t) = (a - t) * 1000000"
proof -
  have "a < 9000000000000" using assms(3) by simp
  then have "a * 1000000 - t * 1000000 < 9223372036854775807" using assms(1) by linarith
  moreover have "0 \<le> a * 1000000 - t * 1000000" using assms by simp
  ultimately show ?thesis by (simp add: time_sub_def unix_milli_time_def)
qed

lemma last_ts_in:
  assumes "filter P es \<noteq> []"
  shows "\<exists>e \<in> set es. P e \<and> last_ts P es = ev_timestamp_ms e"
  using last_in_set [OF assms] assms by (auto simp: last_ts_def)

lemma last_ts_bounds:
  assumes "comparable a es"
  shows "0 \<le> last_ts P es" and "last_ts P es mod 1000 = 0" and "filter P es \<noteq> [] \<Longrightarrow> 0 < last_ts P es"
    and "filter P es \<noteq> [] \<Longrightarrow> last_ts P es \<le> a"
  using comparableD [OF assms] last_ts_in [of P es] by (cases "filter P es = []"; force simp: last_ts_def)+

text \<open>In order of time the last timestamp of a kind is the largest.\<close>

lemma max_ts_last:
  assumes "comparable a es" and "es \<noteq> []"
  shows "max_ts_of ty es = last_ts (of_type ty) es"
  using assms
proof (induction es rule: rev_induct)
  case (snoc e es)
  have o: "in_order es" "\<forall>x \<in> set es. ev_timestamp_ms x \<le> ev_timestamp_ms e"
    using in_order_snoc [of es e] comparableD(1) [OF snoc.prems(1)] by blast+
  have pos: "0 < ev_timestamp_ms e" using comparableD(5) [OF snoc.prems(1)] by simp
  let ?f = "\<lambda>x. if event_type x = ty then ev_timestamp_ms x else 0"
  show ?case
  proof (cases "es = []")
    case True
    with pos show ?thesis by (simp add: max_ts_of_def last_ts_def of_type_def)
  next
    case False
    have c: "comparable a es" using snoc.prems(1) o(1) by (simp add: comparable_def int64_def)
    from snoc.IH [OF c False] have ih: "Max (?f ` set es) = last_ts (of_type ty) es"
      by (simp add: max_ts_of_def)
    have "?f ` set (es @ [e]) = insert (?f e) (?f ` set es)"
      by (simp only: set_append image_Un list.set image_insert image_empty Un_insert_right Un_empty_right)
    moreover have "Max (insert (?f e) (?f ` set es)) = max (?f e) (Max (?f ` set es))"
      using False by (intro Max_insert finite_imageI finite_set) (simp only: image_is_empty set_empty not_False_eq_True)
    ultimately have "max_ts_of ty (es @ [e]) = max (?f e) (Max (?f ` set es))"
      by (simp only: max_ts_of_def)
    also have "\<dots> = last_ts (of_type ty) (es @ [e])"
    proof (cases "event_type e = ty")
      case True
      have "Max (?f ` set es) \<le> ev_timestamp_ms e"
      proof (rule Max.boundedI)
        show "?f ` set es \<noteq> {}" using False by (simp only: image_is_empty set_empty not_False_eq_True)
        fix y assume "y \<in> ?f ` set es"
        then obtain x where "x \<in> set es" "y = ?f x" by (rule imageE)
        with o(2) pos show "y \<le> ev_timestamp_ms e" by auto
      qed simp
      with True show ?thesis by (simp add: last_ts_snoc of_type_def)
    next
      case neq: False
      have "0 \<le> last_ts (of_type ty) es" by (rule last_ts_bounds(1) [OF c])
      with neq ih show ?thesis by (simp add: last_ts_snoc of_type_def)
    qed
    finally show ?thesis .
  qed
qed simp

lemma max_last:
  assumes "comparable a es" and "es \<noteq> []"
  shows "Max (ev_timestamp_ms ` set es) = last_ts (\<lambda>_. True) es"
proof -
  obtain xs e where es: "es = xs @ [e]" using assms(2) by (cases es rule: rev_cases) auto
  have "\<forall>x \<in> set xs. ev_timestamp_ms x \<le> ev_timestamp_ms e"
    using in_order_snoc comparableD(1) [OF assms(1)] es by blast
  then have "Max (ev_timestamp_ms ` set es) = ev_timestamp_ms e"
    using es by (intro Max_eqI) auto
  then show ?thesis by (simp add: es last_ts_snoc)
qed

text \<open>Days between whole seconds: nanoseconds and truncated seconds agree.\<close>

lemma days_agree:
  assumes "t mod 1000 = 0" and "a mod 1000 = 0"
  shows "d * 24 * hour \<le> (a - t) * 1000000 \<longleftrightarrow> d * 86400 \<le> date_diff_seconds t a"
proof -
  obtain t' a' where e: "t = 1000 * t'" "a = 1000 * a'"
    using assms by (metis add.right_neutral mult_div_mod_eq)
  have "d * 24 * hour = (d * 86400) * 1000000000" by (simp add: hour_def nanos_per_second_def)
  moreover have "(a - t) * 1000000 = (a' - t') * 1000000000" by (simp add: e)
  moreover have "(d * 86400) * 1000000000 \<le> (a' - t') * (1000000000 :: int) \<longleftrightarrow> d * 86400 \<le> a' - t'"
    by (rule mult_le_cancel_right_pos) simp
  ultimately show ?thesis by (simp only:) (simp add: date_diff_seconds_def e)
qed

text \<open>What a family needs beyond comparable histories.\<close>

definition family_cond :: "'f float64_ops \<Rightarrow> 'f segment \<Rightarrow> int \<Rightarrow> storefront_event list \<Rightarrow> bool" where
  "family_cond fo seg a es \<longleftrightarrow>
     (case seg_family seg of
        PurchaseCountMin \<Rightarrow> 1 \<le> min_count seg \<and> distinct (map (purchase_member fo) (purchases es)) \<and>
          (window_days seg < 90 \<or> window_days seg = 90 \<and> last_ts (of_type ''purchase'') es < a)
      | CategoryViewMin \<Rightarrow> 1 \<le> min_count seg \<and> Segments.category seg \<noteq> []
      | MultiCategoryMin \<Rightarrow> 1 \<le> min_distinct seg \<and>
          list_all (\<lambda>e. event_type e = ''page_view'' \<longrightarrow> viewed e \<noteq> []) es
      | PurchaseValueMin \<Rightarrow> False
      | OtherFamily f \<Rightarrow> False
      | _ \<Rightarrow> True)"


lemma filter_upto:
  assumes "comparable a es"
  shows "filter (\<lambda>e. P e \<and> ev_timestamp_ms e \<le> a) es = filter P es"
    and "filter (\<lambda>e. ev_timestamp_ms e \<le> a) es = es"
    and "filter (\<lambda>e. P e \<and> ev_timestamp_ms e \<le> a \<and> Q e) es = filter (\<lambda>e. P e \<and> Q e) es"
    and "filter (\<lambda>e. P e \<and> Q e \<and> ev_timestamp_ms e \<le> a) es = filter (\<lambda>e. P e \<and> Q e) es"
    and "filter (\<lambda>e. ev_timestamp_ms e \<le> a \<and> Q e) es = filter Q es"
  using comparableD(6) [OF assms] by (auto intro!: filter_cong simp: filter_id_conv)

lemma viewed_category:
  "c \<noteq> [] \<Longrightarrow> viewed e = c \<longleftrightarrow> event_type e = ''page_view'' \<and> attr (attributes e) ''category'' = c"
  by (auto simp: viewed_def)

lemma whole_seconds_less:
  assumes "(x :: int) mod 1000 = 0" and "y mod 1000 = 0" and "x < y"
  shows "x div 1000 < y div 1000"
proof -
  obtain x' y' where "x = 1000 * x'" "y = 1000 * y'"
    using assms(1,2) by (metis add.right_neutral mult_div_mod_eq)
  with assms(3) show ?thesis by simp
qed

lemma whole_seconds_days:
  assumes "t mod 1000 = 0" and "a mod 1000 = 0"
  shows "a div 1000 - d * 86400 \<le> t div 1000 \<longleftrightarrow> a - d * ms_per_day \<le> t"
proof -
  obtain t' a' where "t = 1000 * t'" "a = 1000 * a'"
    using assms by (metis add.right_neutral mult_div_mod_eq)
  then show ?thesis by (simp add: ms_per_day_def) linarith
qed

text \<open>The decision on the stored state, when the state was built from a history.\<close>

lemma matching_single:
  assumes "distinct (map seg_id segs)" and "seg \<in> set segs"
  shows "seg_id seg \<in> matching fo segs p now d \<longleftrightarrow>
    rd_hashes d (stats_key p) \<noteq> Map.empty \<and> stored_match fo p now d seg"
proof -
  have "s = seg" if "s \<in> set segs" "seg_id s = seg_id seg" for s
    using that assms by (simp add: distinct_map inj_on_def)
  then have "(\<exists>s. seg_id seg = seg_id s \<and> s \<in> set segs \<and> stored_match fo p now d s) \<longleftrightarrow>
      stored_match fo p now d seg" using assms(2) by metis
  then show ?thesis by (simp add: matching_def)
qed

text \<open>
  The heart of the comparison: for one profile and one segment, what the engine decides from its
  bounded state is what the query selects from the whole history.
\<close>

lemma stored_match_recompute:
  assumes "built_from fo evs d" and "comparable a (events_of p evs)"
    and "family_cond fo seg a (events_of p evs)"
    and "recompute fo seg (unix_milli_time a) evs = Inr members"
  shows "(rd_hashes d (stats_key p) \<noteq> Map.empty \<and> stored_match fo p (unix_milli_time a) d seg) \<longleftrightarrow>
    p \<in> members"
proof -
  define es where "es = events_of p evs"
  note c = assms(2) [folded es_def] and fc = assms(3) [folded es_def]
  note cD = comparableD [OF c] and lb = last_ts_bounds [OF c] and up = filter_upto [OF c]
  have h: "rd_hashes d (stats_key p) = fold stats_step es Map.empty"
    "rd_hashes d (catviews_key p) = fold catviews_step es Map.empty"
    "rd_zsets d (purch_key p) = fold (purch_step fo) es Map.empty"
    using assms(1) by (simp_all add: built_from_def es_def)
  note st = stats_closed [OF cD(2)] and cv = catviews_closed [OF cD(2)]
  have ne: "rd_hashes d (stats_key p) \<noteq> Map.empty \<longleftrightarrow> es \<noteq> []" by (simp add: h stats_nonempty)
  have a: "unix_milli_time a div 1000000 = a" by (simp add: unix_milli_time_def)
  note g = in_group_having [of p _ _ evs, folded es_def]
  have ot: "of_type ty = (\<lambda>e. event_type e = ty)" for ty by (simp add: fun_eq_iff of_type_def)
  note goal = recompute.simps Let_def a g up stored_match_def h st
  show ?thesis
  proof (cases "seg_family seg")
    case NeverPurchased
    with assms(4) show ?thesis unfolding ne by (auto simp: goal ot)
  next
    case RecentlyActiveHours
    have m: "p \<in> members \<longleftrightarrow> (\<exists>e \<in> set es. a - min_hours seg * 3600000 \<le> ev_timestamp_ms e)"
      using assms(4) RecentlyActiveHours by (auto simp: goal filter_empty_conv)
    show ?thesis
    proof (cases "es = []")
      case True
      with m ne show ?thesis by simp
    next
      case False
      then have F: "filter (\<lambda>_. True) es \<noteq> []" by simp
      let ?t = "last_ts (\<lambda>_. True) es"
      have "time_sub (unix_milli_time a) (unix_milli_time ?t) = (a - ?t) * 1000000"
        by (rule time_sub_milli [OF lb(1) lb(4) [OF F] cD(4)])
      then have "stored_match fo p (unix_milli_time a) d seg \<longleftrightarrow> a - min_hours seg * 3600000 \<le> ?t"
        using RecentlyActiveHours lb(3) [OF F] by (simp add: stored_match_def h st hour_def nanos_per_second_def) linarith
      moreover have "\<forall>e \<in> set es. ev_timestamp_ms e \<le> ?t"
        using max_last [OF c False] by (metis List.finite_set Max_ge finite_imageI imageI)
      moreover obtain e where "e \<in> set es" "ev_timestamp_ms e = ?t" using last_ts_in [OF F] by metis
      ultimately show ?thesis using ne False m by fastforce
    qed
  next
    case PurchaseCountMin
    let ?lo = "a div 1000 - window_days seg * 86400"
    let ?w = "filter (\<lambda>e. event_type e = ''purchase'' \<and> a - window_days seg * ms_per_day \<le> ev_timestamp_ms e) es"
    have o: "\<forall>e \<in> set es. ev_timestamp_ms e div 1000 \<le> a div 1000" using cD(6) by (simp add: zdiv_mono1)
    have lo: "last_ts (of_type ''purchase'') es div 1000 - 90 * 86400 < ?lo" if "purchases es \<noteq> []"
    proof -
      have "last_ts (of_type ''purchase'') es \<le> a" by (rule lb(4) [OF that])
      moreover have "last_ts (of_type ''purchase'') es div 1000 < a div 1000" if "last_ts (of_type ''purchase'') es < a"
        by (rule whole_seconds_less [OF lb(2) cD(3) that])
      moreover have "last_ts (of_type ''purchase'') es div 1000 \<le> a div 1000"
        using calculation(1) by (rule zdiv_mono1) simp
      moreover have "window_days seg < 90 \<or> window_days seg = 90 \<and> last_ts (of_type ''purchase'') es < a"
        using fc PurchaseCountMin by (simp add: family_cond_def)
      ultimately show ?thesis by linarith
    qed
    have d: "distinct (map (purchase_member fo) (purchases es))" using fc PurchaseCountMin by (simp add: family_cond_def)
    have w: "?lo \<le> event_seconds e \<longleftrightarrow> a - window_days seg * ms_per_day \<le> ev_timestamp_ms e" if "e \<in> set es" for e
      using whole_seconds_days [OF cD(7) [OF that] cD(3)] by (simp add: event_seconds_div)
    have "filter (\<lambda>e. of_type ''purchase'' e \<and> ?lo \<le> event_seconds e) es =
        filter (\<lambda>e. event_type e = ''purchase'' \<and> a - window_days seg * ms_per_day \<le> ev_timestamp_ms e) es"
      using w by (auto intro!: filter_cong simp: of_type_def)
    with card_in_range_purchases [OF cD(1) d o lo]
    have k: "card (in_range (fold (purch_step fo) es Map.empty) ?lo (a div 1000)) =
        length (filter (\<lambda>e. event_type e = ''purchase'' \<and> a - window_days seg * ms_per_day \<le> ev_timestamp_ms e) es)"
      by simp
    have "1 \<le> min_count seg" using fc PurchaseCountMin by (simp add: family_cond_def)
    have "stored_match fo p (unix_milli_time a) d seg \<longleftrightarrow> min_count seg \<le> int (length ?w)"
      using PurchaseCountMin k by (simp add: stored_match_def h)
    moreover have "p \<in> members \<longleftrightarrow> ?w \<noteq> [] \<and> min_count seg \<le> int (length ?w)"
      using assms(4) PurchaseCountMin by (auto simp: recompute.simps Let_def a g up)
    moreover have "es \<noteq> []" if "?w \<noteq> []" using that by auto
    ultimately show ?thesis unfolding ne using \<open>1 \<le> min_count seg\<close> by (cases "?w = []") simp_all
  next
    case CartAbandonDays
    show ?thesis
    proof (cases "es = []")
      case True
      with assms(4) CartAbandonDays ne show ?thesis by (auto simp: goal)
    next
      case False
      let ?c = "last_ts (of_type ''add_to_cart'') es" and ?q = "last_ts (of_type ''purchase'') es"
      note mx = max_ts_last [OF c False]
      have "?c \<le> a" if "0 < ?c"
      proof -
        have "filter (of_type ''add_to_cart'') es \<noteq> []" using that by (auto simp: last_ts_def)
        then show ?thesis by (rule lb(4))
      qed
      then have "min_days seg * 24 * hour \<le> time_sub (unix_milli_time a) (unix_milli_time ?c) \<longleftrightarrow>
          min_days seg * 86400 \<le> date_diff_seconds ?c a" if "0 < ?c"
        using that time_sub_milli [OF lb(1) _ cD(4)] days_agree [OF lb(2) cD(3)] by simp
      moreover have "0 < ?c" if "?q < ?c" using that lb(1) [of "of_type ''purchase''"] by simp
      ultimately show ?thesis using assms(4) CartAbandonDays ne False by (auto simp: goal mx)
    qed
  next
    case CategoryViewMin
    then have "Segments.category seg \<noteq> []" "1 \<le> min_count seg" using fc by (simp_all add: family_cond_def)
    with assms(4) CategoryViewMin cv show ?thesis unfolding ne
      by (auto simp: goal viewed_category)
  next
    case PurchaseValueMin
    with fc show ?thesis by (simp add: family_cond_def)
  next
    case ChurnRiskDays
    show ?thesis
    proof (cases "es = []")
      case True
      with assms(4) ChurnRiskDays ne show ?thesis by (auto simp: goal)
    next
      case False
      then have F: "filter (\<lambda>_. True) es \<noteq> []" by simp
      have "min_days seg * 24 * hour \<le> time_sub (unix_milli_time a) (unix_milli_time (last_ts (\<lambda>_. True) es)) \<longleftrightarrow>
          min_days seg * 86400 \<le> date_diff_seconds (last_ts (\<lambda>_. True) es) a"
        using time_sub_milli [OF lb(1) lb(4) [OF F] cD(4)] days_agree [OF lb(2) cD(3)] by simp
      with assms(4) ChurnRiskDays ne False lb(3) [OF F] max_last [OF c False] show ?thesis
        by (auto simp: goal ot Suc_le_eq)
    qed
  next
    case MultiCategoryMin
    have v: "viewed ` set es - {[]} = (\<lambda>e. attr (attributes e) ''category'') ` set (filter (\<lambda>e. event_type e = ''page_view'') es)"
      using fc MultiCategoryMin by (force simp: family_cond_def viewed_def list_all_iff)
    have "1 \<le> min_distinct seg" using fc MultiCategoryMin by (simp add: family_cond_def)
    with assms(4) MultiCategoryMin cv v show ?thesis unfolding ne
      by (cases "filter (\<lambda>e. event_type e = ''page_view'') es = []") (auto simp: goal)
  next
    case (OtherFamily f)
    with fc show ?thesis by (simp add: family_cond_def)
  qed
qed


text \<open>A whole run: all events, then Finalize.\<close>

lemma finalize_members:
  assumes "redis_ok rd view" and "distinct (map seg_id segs)" and "view r = empty_data"
    and "apply_events fo rd segs evs r = (None, r1)"
    and "finalize fo rd segs (unix_milli_time a) r1 = (Inr n, r2)"
  shows "n = card (profile_id ` set evs)"
    and "seg \<in> set segs \<Longrightarrow> recompute fo seg (unix_milli_time a) evs = Inr members \<Longrightarrow>
      (\<And>p. comparable a (events_of p evs)) \<Longrightarrow> (\<And>p. family_cond fo seg a (events_of p evs)) \<Longrightarrow>
      rd_sets (view r2) (member_key (seg_id seg)) = members"
proof -
  have "members_consistent (view r)" "built_from fo [] (view r)" by (simp_all add: assms(3) built_from_empty)
  from apply_events_effect [OF assms(1,2) this assms(4)]
  have b: "members_consistent (view r1)" "built_from fo evs (view r1)" by simp_all
  note fin = finalize_effect [OF assms(1,2) b assms(5)]
  then show "n = card (profile_id ` set evs)" by blast
  assume s: "seg \<in> set segs" and r: "recompute fo seg (unix_milli_time a) evs = Inr members"
    and c: "\<And>p. comparable a (events_of p evs)" and f: "\<And>p. family_cond fo seg a (events_of p evs)"
  have "p \<in> rd_sets (view r2) (member_key (seg_id seg)) \<longleftrightarrow> p \<in> members" for p
    using fin stored_match_recompute [OF _ c f r, of "view r2" p] matching_single [OF assms(2) s]
    by blast
  then show "rd_sets (view r2) (member_key (seg_id seg)) = members" by blast
qed

section \<open>Properties\<close>

text \<open>
  C14. The membership indexes: after any stream of events through ApplyEvent on an empty store, with no
  error reported, the per-profile and the per-segment index say the same, and the profile of the last
  event belongs to exactly the segments its state matches at the time of that event.
\<close>

theorem apply_events_membership:
  assumes "redis_ok rd view" and "distinct (map seg_id segs)" and "view r = empty_data"
    and "apply_events fo rd segs (evs @ [ev]) r = (None, r')"
  shows "(\<forall>p i. p \<in> rd_sets (view r') (member_key i) \<longleftrightarrow> i \<in> rd_sets (view r') (segments_key p)) \<and>
    rd_sets (view r') (segments_key (profile_id ev)) =
      matching fo segs (profile_id ev) (unix_milli_time (ev_timestamp_ms ev)) (view r')"
proof -
  have split: "apply_events fo rd segs (xs @ [ev]) r = (None, r') \<Longrightarrow>
      \<exists>r1. apply_events fo rd segs xs r = (None, r1) \<and> apply_event fo rd segs ev r1 = (None, r')" for xs r
    by (induction xs arbitrary: r) (auto split: prod.splits option.splits)
  from split [OF assms(4)] obtain r1 where
    r1: "apply_events fo rd segs evs r = (None, r1)" "apply_event fo rd segs ev r1 = (None, r')" by blast
  have "members_consistent (view r)" "built_from fo [] (view r)" by (simp_all add: assms(3) built_from_empty)
  from apply_events_effect [OF assms(1,2) this r1(1)]
  have "members_consistent (view r1)" "built_from fo evs (view r1)" by simp_all
  from apply_event_effect [OF assms(1,2) this r1(2)] show ?thesis by (simp add: members_consistent_def)
qed



definition demo_ev :: "string \<Rightarrow> string \<Rightarrow> int \<Rightarrow> (string \<times> string) list \<Rightarrow> storefront_event" where
  "demo_ev i ty ms at = \<lparr>event_id = i, profile_id = ''p'', event_type = ty, ev_timestamp_ms = ms, attributes = at\<rparr>"

definition demo_seg :: "family \<Rightarrow> int segment" where
  "demo_seg f = blank_segment 0 ''s'' f"

theorem apply_events_membership_witness:
  "\<exists>s. apply_events demo_floats mem_redis [demo_seg NeverPurchased]
      ([] @ [demo_ev ''e1'' ''page_view'' 1000 []]) empty_store = (None, s) \<and>
    (\<forall>p i. p \<in> rd_sets (mem_view s) (member_key i) \<longleftrightarrow> i \<in> rd_sets (mem_view s) (segments_key p))"
proof -
  obtain s where s: "apply_events demo_floats mem_redis [demo_seg NeverPurchased]
      ([] @ [demo_ev ''e1'' ''page_view'' 1000 []]) empty_store = (None, s)" using mem_apply_events by blast
  have "distinct (map seg_id [demo_seg NeverPurchased])" by simp
  from apply_events_membership [OF mem_redis_ok this mem_view_empty s] s show ?thesis by blast
qed


text \<open>The verdicts of the two evaluators on profile p, for one segment and a history of p.\<close>

definition incremental_verdict :: "int segment \<Rightarrow> storefront_event list \<Rightarrow> int \<Rightarrow> bool" where
  "incremental_verdict seg evs a \<longleftrightarrow>
     ''p'' \<in> rd_sets (mem_view (snd (demo_run [seg] evs (unix_milli_time a)))) (member_key (seg_id seg))"

definition recompute_verdict :: "int segment \<Rightarrow> storefront_event list \<Rightarrow> int \<Rightarrow> bool" where
  "recompute_verdict seg evs a \<longleftrightarrow>
     (case recompute demo_floats seg (unix_milli_time a) evs of Inr ms \<Rightarrow> ''p'' \<in> ms | Inl e \<Rightarrow> False)"

lemma incremental_verdict_stored:
  "\<exists>d. built_from demo_floats evs d \<and>
     (incremental_verdict seg evs a \<longleftrightarrow> rd_hashes d (stats_key ''p'') \<noteq> Map.empty \<and>
        stored_match demo_floats ''p'' (unix_milli_time a) d seg)"
proof -
  have d: "distinct (map seg_id [seg])" by simp
  from demo_run_members [OF d, of evs "unix_milli_time a"] obtain d where
    "built_from demo_floats evs d" "incremental_verdict seg evs a \<longleftrightarrow>
       seg_id seg \<in> matching demo_floats [seg] ''p'' (unix_milli_time a) d"
    by (auto simp: incremental_verdict_def)
  then show ?thesis using matching_single [OF d, of seg demo_floats "''p''" "unix_milli_time a" d] by auto
qed


text \<open>Evaluating a verdict on a history of p: the stored state is the fold over the history.\<close>

lemma incremental_verdict_unfold:
  assumes "list_all (\<lambda>e. profile_id e = ''p'') evs" and "evs \<noteq> []"
    and "\<And>d. rd_hashes d (stats_key ''p'') = fold stats_step evs Map.empty \<Longrightarrow>
      rd_hashes d (catviews_key ''p'') = fold catviews_step evs Map.empty \<Longrightarrow>
      rd_zsets d (purch_key ''p'') = fold (purch_step demo_floats) evs Map.empty \<Longrightarrow>
      stored_match demo_floats ''p'' (unix_milli_time a) d seg \<longleftrightarrow> b"
  shows "incremental_verdict seg evs a \<longleftrightarrow> b"
proof -
  obtain d where d: "built_from demo_floats evs d"
    "incremental_verdict seg evs a \<longleftrightarrow> rd_hashes d (stats_key ''p'') \<noteq> Map.empty \<and>
       stored_match demo_floats ''p'' (unix_milli_time a) d seg"
    using incremental_verdict_stored by blast
  have e: "events_of ''p'' evs = evs" using assms(1) by (simp add: events_of_def list_all_iff)
  with d(1) have h: "rd_hashes d (stats_key ''p'') = fold stats_step evs Map.empty"
    "rd_hashes d (catviews_key ''p'') = fold catviews_step evs Map.empty"
    "rd_zsets d (purch_key ''p'') = fold (purch_step demo_floats) evs Map.empty"
    unfolding built_from_def by metis+
  from assms(3) [OF h] d(2) h(1) assms(2) show ?thesis by (simp add: stats_nonempty)
qed

lemma recompute_verdict_unfold:
  "recompute demo_floats seg (unix_milli_time a) evs = Inr (group_having wh hv evs) \<Longrightarrow>
   list_all (\<lambda>e. profile_id e = ''p'') evs \<Longrightarrow>
   recompute_verdict seg evs a \<longleftrightarrow> filter wh evs \<noteq> [] \<and> hv (filter wh evs)"
  by (simp add: recompute_verdict_def in_group_having events_of_def list_all_iff)

text \<open>A purchase exactly 90 days before another: the window read includes it, the trim removed it.\<close>

definition boundary_history :: "storefront_event list" where
  "boundary_history = [demo_ev ''e1'' ''purchase'' 1000 [], demo_ev ''e2'' ''purchase'' 7776001000 []]"

definition boundary_segment :: "int segment" where
  "boundary_segment = (demo_seg PurchaseCountMin)\<lparr>min_count := 2, window_days := 90\<rparr>"

lemma boundary_disagreement:
  "\<not> incremental_verdict boundary_segment boundary_history 7776001000 \<and>
   recompute_verdict boundary_segment boundary_history 7776001000"
proof
  let ?z = "fold (purch_step demo_floats) boundary_history Map.empty"
  have o: "in_order boundary_history" by (simp add: in_order_def boundary_history_def demo_ev_def)
  have d: "distinct (map (purchase_member demo_floats) (purchases boundary_history))"
    by (simp add: boundary_history_def demo_ev_def purchase_member_def of_type_def)
  have l: "last_ts (of_type ''purchase'') boundary_history = 7776001000"
    by (simp add: last_ts_def boundary_history_def demo_ev_def of_type_def)
  have "in_range ?z lo hi \<subseteq> {(7776001, purchase_member demo_floats (demo_ev ''e2'' ''purchase'' 7776001000 []))}" for lo hi
    by (auto simp: in_range_def purch_closed [OF o d] l)
      (auto simp: boundary_history_def demo_ev_def event_seconds_div of_type_def purchase_member_def)
  then have "card (in_range ?z lo hi)
      \<le> card {(7776001 :: int, purchase_member demo_floats (demo_ev ''e2'' ''purchase'' 7776001000 []))}" for lo hi
    by (intro card_mono) simp_all
  then have "card (in_range ?z lo hi) < 2" for lo hi by (simp add: less_Suc_eq_le numeral_2_eq_2)
  then have "\<not> 2 \<le> int (card (in_range ?z lo hi))" for lo hi by (simp add: not_le)
  then have "incremental_verdict boundary_segment boundary_history 7776001000 \<longleftrightarrow> False"
    by (intro incremental_verdict_unfold)
      (simp_all add: stored_match_def boundary_segment_def demo_seg_def blank_segment_def,
       simp_all add: boundary_history_def demo_ev_def)
  then show "\<not> incremental_verdict boundary_segment boundary_history 7776001000" by simp
  have "recompute demo_floats boundary_segment (unix_milli_time 7776001000) boundary_history =
      Inr (group_having (\<lambda>e. event_type e = ''purchase'' \<and> ev_timestamp_ms e \<le> 7776001000 \<and>
          7776001000 - 90 * ms_per_day \<le> ev_timestamp_ms e) (\<lambda>g. 2 \<le> int (length g)) boundary_history)"
    by (simp add: recompute.simps boundary_segment_def demo_seg_def blank_segment_def unix_milli_time_def)
  from recompute_verdict_unfold [OF this]
  show "recompute_verdict boundary_segment boundary_history 7776001000"
    by (simp add: boundary_history_def demo_ev_def ms_per_day_def)
qed

text \<open>An event that arrives late moves the time of the last event back.\<close>

definition late_history :: "storefront_event list" where
  "late_history = [demo_ev ''e2'' ''page_view'' 7200000 [], demo_ev ''e1'' ''page_view'' 1000 []]"

definition late_segment :: "int segment" where
  "late_segment = (demo_seg RecentlyActiveHours)\<lparr>min_hours := 1\<rparr>"

lemma late_disagreement:
  "\<not> incremental_verdict late_segment late_history 7200000 \<and> recompute_verdict late_segment late_history 7200000"
proof
  have f: "fits_int64 late_history" by (simp add: fits_int64_def int64_def late_history_def demo_ev_def)
  have "number_of (fold stats_step late_history Map.empty ''last_event_ts'') = 1000"
    using stats_closed [OF f] by (simp add: last_ts_def) (simp add: late_history_def demo_ev_def)
  then have "incremental_verdict late_segment late_history 7200000 \<longleftrightarrow> False"
    by (intro incremental_verdict_unfold)
      (simp_all add: stored_match_def late_segment_def demo_seg_def blank_segment_def time_sub_def
        unix_milli_time_def hour_def nanos_per_second_def, simp_all add: late_history_def demo_ev_def)
  then show "\<not> incremental_verdict late_segment late_history 7200000" by simp
  have "recompute demo_floats late_segment (unix_milli_time 7200000) late_history =
      Inr (group_having (\<lambda>e. ev_timestamp_ms e \<le> 7200000 \<and> 7200000 - 1 * 3600000 \<le> ev_timestamp_ms e)
        (\<lambda>g. True) late_history)"
    by (simp add: recompute.simps late_segment_def demo_seg_def blank_segment_def unix_milli_time_def)
  from recompute_verdict_unfold [OF this]
  show "recompute_verdict late_segment late_history 7200000" by (simp add: late_history_def demo_ev_def)
qed

text \<open>A page view without a category counts as a category of its own in the query only.\<close>

definition uncategorised_history :: "storefront_event list" where
  "uncategorised_history =
     [demo_ev ''e1'' ''page_view'' 1000 [(''category'', ''home'')], demo_ev ''e2'' ''page_view'' 2000 []]"

definition uncategorised_segment :: "int segment" where
  "uncategorised_segment = (demo_seg MultiCategoryMin)\<lparr>min_distinct := 2\<rparr>"

lemma uncategorised_disagreement:
  "\<not> incremental_verdict uncategorised_segment uncategorised_history 2000 \<and>
   recompute_verdict uncategorised_segment uncategorised_history 2000"
proof
  have f: "fits_int64 uncategorised_history"
    by (simp add: fits_int64_def int64_def uncategorised_history_def demo_ev_def)
  have "viewed ` set uncategorised_history - {[]} = {''home''}"
    by (auto simp: uncategorised_history_def demo_ev_def viewed_def attr_def)
  then have "dom (fold catviews_step uncategorised_history Map.empty) = {''home''}"
    using catviews_closed [OF f] by simp
  then have "incremental_verdict uncategorised_segment uncategorised_history 2000 \<longleftrightarrow> False"
    by (intro incremental_verdict_unfold)
      (simp_all add: stored_match_def uncategorised_segment_def demo_seg_def blank_segment_def,
       simp_all add: uncategorised_history_def demo_ev_def)
  then show "\<not> incremental_verdict uncategorised_segment uncategorised_history 2000" by simp
  have "recompute demo_floats uncategorised_segment (unix_milli_time 2000) uncategorised_history =
      Inr (group_having (\<lambda>e. event_type e = ''page_view'' \<and> ev_timestamp_ms e \<le> 2000)
        (\<lambda>g. 2 \<le> int (card ((\<lambda>e. attr (attributes e) ''category'') ` set g))) uncategorised_history)"
    by (simp add: recompute.simps uncategorised_segment_def demo_seg_def blank_segment_def unix_milli_time_def)
  from recompute_verdict_unfold [OF this]
  show "recompute_verdict uncategorised_segment uncategorised_history 2000"
    by (simp add: uncategorised_history_def demo_ev_def attr_def card_insert_if)
qed

text \<open>Half a second: the engine compares nanoseconds, the query counts second boundaries.\<close>

definition subsecond_history :: "storefront_event list" where
  "subsecond_history = [demo_ev ''e1'' ''purchase'' 1500 []]"

definition subsecond_segment :: "int segment" where
  "subsecond_segment = (demo_seg ChurnRiskDays)\<lparr>min_days := 14\<rparr>"

lemma subsecond_disagreement:
  "\<not> incremental_verdict subsecond_segment subsecond_history 1209601000 \<and>
   recompute_verdict subsecond_segment subsecond_history 1209601000"
proof
  have f: "fits_int64 subsecond_history" by (simp add: fits_int64_def int64_def subsecond_history_def demo_ev_def)
  have "number_of (fold stats_step subsecond_history Map.empty ''last_event_ts'') = 1500"
    using stats_closed [OF f] by (simp add: last_ts_def) (simp add: subsecond_history_def demo_ev_def)
  then have "incremental_verdict subsecond_segment subsecond_history 1209601000 \<longleftrightarrow> False"
    by (intro incremental_verdict_unfold)
      (simp_all add: stored_match_def subsecond_segment_def demo_seg_def blank_segment_def time_sub_def
        unix_milli_time_def hour_def nanos_per_second_def, simp_all add: subsecond_history_def demo_ev_def)
  then show "\<not> incremental_verdict subsecond_segment subsecond_history 1209601000" by simp
  have "recompute demo_floats subsecond_segment (unix_milli_time 1209601000) subsecond_history =
      Inr (group_having (\<lambda>e. ev_timestamp_ms e \<le> 1209601000)
        (\<lambda>g. 1 \<le> length (filter (\<lambda>e. event_type e = ''purchase'') g) \<and>
          14 * 86400 \<le> date_diff_seconds (Max (ev_timestamp_ms ` set g)) 1209601000) subsecond_history)"
    by (simp add: recompute.simps subsecond_segment_def demo_seg_def blank_segment_def unix_milli_time_def)
  from recompute_verdict_unfold [OF this]
  show "recompute_verdict subsecond_segment subsecond_history 1209601000"
    by (simp add: subsecond_history_def demo_ev_def date_diff_seconds_def)
qed


end
