(* ===== verification/Segment_Bench.thy ===== *)
theory Segment_Bench
  imports Stream_Bench Segment_Agreement Delivery_Scale Topic
begin

text \<open>
  cmd/segmentbench: a storefront corpus goes through the edge and a topic, the consumer batches it into
  ClickHouse and feeds the incremental engine, and every segment's members are compared with the
  recompute over the stored events. The corpus is sent by eight workers, each in charge of a run
  of consecutive profiles.
\<close>

section \<open>Sending\<close>

definition send_workers :: nat where
  "send_workers = 8"

definition shard_size :: "nat \<Rightarrow> nat" where
  "shard_size n = (n + send_workers - 1) div send_workers"

definition shard :: "'a list \<Rightarrow> nat \<Rightarrow> 'a list" where
  "shard ps wk =
     (let sz = shard_size (length ps);
          lo = wk * sz;
          hi = (if lo + sz > length ps then length ps else lo + sz)
      in if lo \<ge> hi then [] else drop lo (take hi ps))"

definition shard_events :: "profile_events list \<Rightarrow> nat \<Rightarrow> storefront_event list" where
  "shard_events ps wk = concat (map pe_events (shard ps wk))"

text \<open>The simulated now: the latest timestamp of the corpus, from the zero time of Go on.\<close>

definition sim_now :: "profile_events list \<Rightarrow> int" where
  "sim_now ps =
     fold (\<lambda>p m. fold (\<lambda>e m. if ev_timestamp_ms e > m then ev_timestamp_ms e else m) (pe_events p) m) ps
       (- 62135596800000)"

text \<open>An event of the burst phase, over the profiles in turn.\<close>

definition burst_event :: "nat \<Rightarrow> nat \<Rightarrow> nat \<Rightarrow> nat \<Rightarrow> int \<Rightarrow> storefront_event" where
  "burst_event per_worker profiles w i now =
     \<lparr>event_id = ''burst-'' @ fmt_d (int w) @ ''-'' @ fmt_d (int i),
      profile_id = ''profile-'' @ fmt_0d 8 (int ((w * per_worker + i) mod profiles)),
      event_type = ''page_view'', ev_timestamp_ms = now, attributes = [(''category'', ''electronics'')]\<rparr>"

text \<open>What one worker of the burst sends; the volume is divided among the workers, and the remainder is not sent.\<close>

definition burst_worker :: "nat \<Rightarrow> nat \<Rightarrow> (nat \<Rightarrow> int) \<Rightarrow> nat \<Rightarrow> storefront_event list" where
  "burst_worker burst_count profiles now w =
     (let per_worker = burst_count div send_workers
      in map (\<lambda>i. burst_event per_worker profiles w i (now i)) [0..<per_worker])"

section \<open>The consumer\<close>

record ('s, 'r) seg_bench =
  sb_batcher :: "(storefront_event, 's) batcher"
  sb_redis :: 'r
  sb_lags :: "int list"

text \<open>Duration.Milliseconds of a duration in nanoseconds.\<close>

definition duration_ms :: "int \<Rightarrow> int" where
  "duration_ms d = (if d < 0 then - (- d div 1000000) else d div 1000000)"

text \<open>
  One turn of the loop: an event with the time it was received is batched, applied to the engine,
  whose error is only logged, and timed against the moment its id was sent.
\<close>

definition seg_turn ::
  "'f float64_ops \<Rightarrow> 'r redis \<Rightarrow> 'f segment list \<Rightarrow> (storefront_event list \<Rightarrow> 's \<Rightarrow> goerror option \<times> 's) \<Rightarrow>
   (string \<Rightarrow> int option) \<Rightarrow> (storefront_event \<times> int) turn \<Rightarrow> ('s, 'r) seg_bench \<Rightarrow> ('s, 'r) seg_bench \<times> bool"
where
  "seg_turn fo rd segs ins sent_at t b =
     (case t of
        Arrived (e, at) \<Rightarrow>
          (b\<lparr>sb_batcher := fst (bench_turn ins (Arrived e) (sb_batcher b)),
             sb_redis := snd (apply_event fo rd segs e (sb_redis b)),
             sb_lags := sb_lags b @ (case sent_at (event_id e) of None \<Rightarrow> [] | Some s \<Rightarrow> [duration_ms (at - s)])\<rparr>,
           True)
      | Ended \<Rightarrow> (b\<lparr>sb_batcher := flush_bench ins (sb_batcher b)\<rparr>, False)
      | Flush_Due \<Rightarrow> (b\<lparr>sb_batcher := flush_bench ins (sb_batcher b)\<rparr>, True)
      | Stopped \<Rightarrow> (b\<lparr>sb_batcher := flush_bench ins (sb_batcher b)\<rparr>, False))"

fun run_seg ::
  "'f float64_ops \<Rightarrow> 'r redis \<Rightarrow> 'f segment list \<Rightarrow> (storefront_event list \<Rightarrow> 's \<Rightarrow> goerror option \<times> 's) \<Rightarrow>
   (string \<Rightarrow> int option) \<Rightarrow> (storefront_event \<times> int) turn list \<Rightarrow> ('s, 'r) seg_bench \<Rightarrow> ('s, 'r) seg_bench"
where
  "run_seg fo rd segs ins sent_at [] b = b"
| "run_seg fo rd segs ins sent_at (t # ts) b =
     (let (b1, go_on) = seg_turn fo rd segs ins sent_at t b
      in if go_on then run_seg fo rd segs ins sent_at ts b1 else b1)"

section \<open>The comparison\<close>

text \<open>One segment: the members the engine keeps against the recompute over the stored events.\<close>

definition diff_segment ::
  "'f float64_ops \<Rightarrow> 'r redis \<Rightarrow> int \<Rightarrow> storefront_event list \<Rightarrow> 'r \<Rightarrow> 'f segment \<Rightarrow> goerror + segment_diff"
where
  "diff_segment fo rd as_of evs r seg =
     (case members_of rd (seg_id seg) r of
        Inl e \<Rightarrow> Inl (Wrapped (''members of '' @ seg_id seg) e)
      | Inr incr \<Rightarrow>
          (case recompute fo seg as_of evs of
             Inl e \<Rightarrow> Inl (Wrapped (''recompute '' @ seg_id seg) e)
           | Inr rec \<Rightarrow> Inr (diff_sets (seg_id seg) incr rec)))"

text \<open>What one difference adds to the numbers of exact segments and of mismatched pairs.\<close>

definition count_diff :: "segment_diff \<Rightarrow> nat \<times> nat \<Rightarrow> nat \<times> nat" where
  "count_diff d c =
     (if diff_exact d then (fst c + 1, snd c) else (fst c, snd c + (only_incremental d + only_recompute d)))"

text \<open>The loop over the segments; the first failing read is fatal.\<close>

fun diff_loop ::
  "'f float64_ops \<Rightarrow> 'r redis \<Rightarrow> int \<Rightarrow> storefront_event list \<Rightarrow> 'r \<Rightarrow> 'f segment list \<Rightarrow> nat \<Rightarrow> nat \<Rightarrow>
   goerror + nat \<times> nat"
where
  "diff_loop fo rd as_of evs r [] exact mismatch = Inr (exact, mismatch)"
| "diff_loop fo rd as_of evs r (seg # segs) exact mismatch =
     (case diff_segment fo rd as_of evs r seg of
        Inl e \<Rightarrow> Inl e
      | Inr d \<Rightarrow>
          (let (exact1, mismatch1) = count_diff d (exact, mismatch)
           in diff_loop fo rd as_of evs r segs exact1 mismatch1))"

definition seg_report ::
  "'f float64_ops \<Rightarrow> 'r redis \<Rightarrow> 'f segment list \<Rightarrow> ('s \<Rightarrow> storefront_event list) \<Rightarrow> int \<Rightarrow>
   ('s, 'r) seg_bench \<Rightarrow> goerror + nat \<times> nat"
where
  "seg_report fo rd segs table a b =
     (case finalize fo rd segs (unix_milli_time a) (sb_redis b) of
        (Inl e, r) \<Rightarrow> Inl (Wrapped ''finalize'' e)
      | (Inr touched, r) \<Rightarrow> diff_loop fo rd (unix_milli_time a) (table (bt_store (sb_batcher b))) r segs 0 0)"

text \<open>The 99th percentile of the lags, by the code that cmd/deliveryscale has as a function.\<close>

definition lag_p99 :: "(nat \<Rightarrow> int) \<Rightarrow> int list \<Rightarrow> int" where
  "lag_p99 trunc samples = percentile trunc samples"

section \<open>Lemmas\<close>

text \<open>The shards are the corpus, in order.\<close>

lemma shards_prefix:
  "concat (map (\<lambda>wk. drop (wk * n) (take (wk * n + n) ps)) [0..<k]) = take (k * n) ps"
proof (induction k)
  case (Suc k)
  have "take (Suc k * n) ps = take (k * n) ps @ drop (k * n) (take (k * n + n) ps)"
    by (metis add.commute append_take_drop_id le_add1 min.absorb1 mult_Suc take_take)
  with Suc show ?case by simp
qed simp

lemma shard_slice:
  "shard ps wk = drop (wk * shard_size (length ps)) (take (wk * shard_size (length ps) + shard_size (length ps)) ps)"
  by (auto simp: shard_def Let_def)

lemma shards_cover: "concat (map (shard ps) [0..<send_workers]) = ps"
proof -
  have "length ps \<le> send_workers * shard_size (length ps)" by (simp add: shard_size_def send_workers_def)
  then show ?thesis unfolding shard_slice [abs_def] shards_prefix by simp
qed

lemma shard_events_cover: "concat (map (shard_events ps) [0..<send_workers]) = flatten_profiles ps"
proof -
  have "concat (map (shard_events ps) wks) = concat (map pe_events (concat (map (shard ps) wks)))" for wks
    by (induction wks) (simp_all add: shard_events_def)
  then show ?thesis by (simp add: shards_cover flatten_profiles_concat)
qed

lemma burst_volume:
  "length (concat (map (burst_worker burst_count profiles now) [0..<send_workers])) = burst_count - burst_count mod 8"
  by (simp add: length_concat comp_def burst_worker_def Let_def send_workers_def sum_list_triv
      minus_mod_eq_mult_div [symmetric])

text \<open>
  A profile's events are in one shard and keep their order: whatever the interleaving of the workers,
  the profile's events are sent in the order of the corpus.
\<close>

lemma concat_single:
  "i < length xss \<Longrightarrow> (\<And>j. j < length xss \<Longrightarrow> j \<noteq> i \<Longrightarrow> xss ! j = []) \<Longrightarrow> concat xss = xss ! i"
proof (induction xss arbitrary: i)
  case (Cons xs xss)
  show ?case
  proof (cases i)
    case 0
    have "ys = []" if "ys \<in> set xss" for ys
      using that Cons.prems(2) [of "Suc _"] by (metis 0 Suc_less_eq in_set_conv_nth length_Cons nat.distinct(1) nth_Cons_Suc)
    with 0 show ?thesis by (simp add: concat_eq_Nil_conv)
  next
    case (Suc k)
    from Cons.prems(2) [of 0] Suc have "xs = []" by simp
    moreover have "concat xss = xss ! k"
      using Cons.prems Suc by (intro Cons.IH) (metis Suc_less_eq length_Cons, metis Suc_inject Suc_less_eq length_Cons nth_Cons_Suc)
    ultimately show ?thesis using Suc by simp
  qed
qed simp

definition own_events :: "profile_events list \<Rightarrow> bool" where
  "own_events ps \<longleftrightarrow> distinct (map pe_profile_id ps) \<and>
     (\<forall>pe \<in> set ps. \<forall>e \<in> set (pe_events pe). profile_id e = pe_profile_id pe)"

lemma events_of_flatten:
  assumes "own_events ps" and "i < length ps"
  shows "events_of (pe_profile_id (ps ! i)) (concat (map pe_events ps)) = pe_events (ps ! i)"
proof -
  have other: "filter (\<lambda>e. profile_id e = pe_profile_id (ps ! i)) (pe_events (ps ! j)) =
      (if j = i then pe_events (ps ! i) else [])" if "j < length ps" for j
  proof -
    have "\<forall>e \<in> set (pe_events (ps ! j)). profile_id e = pe_profile_id (ps ! j)"
      using assms(1) nth_mem [OF that] by (simp add: own_events_def)
    moreover have "pe_profile_id (ps ! j) = pe_profile_id (ps ! i) \<longleftrightarrow> j = i"
      using assms that by (auto simp: own_events_def distinct_conv_nth)
    ultimately show ?thesis by (auto simp: filter_empty_conv filter_id_conv)
  qed
  have "events_of (pe_profile_id (ps ! i)) (concat (map pe_events ps)) =
      concat (map (\<lambda>pe. filter (\<lambda>e. profile_id e = pe_profile_id (ps ! i)) (pe_events pe)) ps)"
    by (simp add: events_of_def filter_concat comp_def)
  also have "\<dots> = map (\<lambda>pe. filter (\<lambda>e. profile_id e = pe_profile_id (ps ! i)) (pe_events pe)) ps ! i"
    using assms(2) other by (intro concat_single) simp_all
  finally show ?thesis using assms(2) other by simp
qed

lemma events_of_shard:
  assumes "own_events ps" and "i < length ps" and "wk \<noteq> i div shard_size (length ps)"
  shows "events_of (pe_profile_id (ps ! i)) (shard_events ps wk) = []"
proof -
  have "pe_profile_id pe \<noteq> pe_profile_id (ps ! i)" if "pe \<in> set (shard ps wk)" for pe
  proof -
    from that obtain k where k: "k < length (shard ps wk)" "pe = shard ps wk ! k" by (metis in_set_conv_nth)
    let ?n = "wk * shard_size (length ps) + k"
    from k have b: "?n < length ps" "k < shard_size (length ps)" "pe = ps ! ?n" by (auto simp: shard_slice)
    then have "?n div shard_size (length ps) = wk" by simp
    with assms(3) have "?n \<noteq> i" by metis
    with assms(1,2) b show ?thesis unfolding own_events_def distinct_conv_nth by (metis length_map nth_map)
  qed
  moreover have "set (shard ps wk) \<subseteq> set ps"
    unfolding shard_slice using set_drop_subset set_take_subset by fast
  ultimately show ?thesis
    using assms(1) unfolding events_of_def shard_events_def own_events_def
    by (fastforce simp: filter_empty_conv)
qed

lemma sent_profile:
  assumes "own_events ps" and "i < length ps" and "merge_of (map (shard_events ps) [0..<send_workers]) sent"
  shows "events_of (pe_profile_id (ps ! i)) sent = pe_events (ps ! i)"
proof -
  let ?p = "pe_profile_id (ps ! i)" and ?w = "i div shard_size (length ps)"
  let ?xss = "map (shard_events ps) [0..<send_workers]"
  have "i < send_workers * shard_size (length ps)"
    using assms(2) by (simp add: shard_size_def send_workers_def)
  then have w: "?w < send_workers" by (simp add: less_mult_imp_div_less)
  have "filter (\<lambda>e. profile_id e = ?p) sent = filter (\<lambda>e. profile_id e = ?p) (?xss ! ?w)"
    using w events_of_shard [OF assms(1,2)] by (intro merge_of_filter [OF assms(3)]) (simp_all add: events_of_def)
  also have "\<dots> = concat (map (filter (\<lambda>e. profile_id e = ?p)) ?xss)"
    using w events_of_shard [OF assms(1,2)]
    by (subst concat_single [of ?w]) (simp_all add: events_of_def)
  also have "\<dots> = events_of ?p (concat ?xss)" by (simp add: events_of_def filter_concat)
  finally show ?thesis
    using events_of_flatten [OF assms(1,2)] by (simp add: events_of_def shard_events_cover flatten_profiles_concat)
qed

text \<open>The consumer's batches and engine, each on its own.\<close>

lemma run_seg_batcher:
  "sb_batcher (run_seg fo rd segs ins sent_at ts b) = run_bench ins (map (map_turn fst) ts) (sb_batcher b)"
proof (induction ts arbitrary: b)
  case (Cons t ts)
  then show ?case by (cases t) (auto simp: seg_turn_def bench_turn_def Let_def)
qed simp

lemma run_seg_redis:
  "sb_redis (run_seg fo rd segs ins sent_at ts b) =
     fold (\<lambda>e r. snd (apply_event fo rd segs e r)) (map fst (arrivals ts)) (sb_redis b)"
proof (induction ts arbitrary: b)
  case (Cons t ts)
  then show ?case by (cases t) (auto simp: seg_turn_def)
qed simp

lemma arrivals_map: "arrivals (map (map_turn f) ts) = map f (arrivals ts)"
proof (induction ts)
  case (Cons t ts)
  then show ?case by (cases t) simp_all
qed simp

lemma loop_ends_map: "loop_ends (map (map_turn f) ts) = loop_ends ts"
proof (induction ts)
  case (Cons t ts)
  then show ?case by (cases t) simp_all
qed simp

lemma apply_events_fold:
  "apply_events fo rd segs evs r = (None, r1) \<Longrightarrow> fold (\<lambda>e r. snd (apply_event fo rd segs e r)) evs r = r1"
  by (induction evs arbitrary: r) (auto split: prod.splits option.splits)

text \<open>The simulated now is the largest timestamp.\<close>

lemma sim_now_flat:
  "sim_now ps = fold (\<lambda>e m. if ev_timestamp_ms e > m then ev_timestamp_ms e else m) (flatten_profiles ps) (- 62135596800000)"
proof -
  have "fold (\<lambda>p m. fold f (pe_events p) m) ps z = fold f (concat (map pe_events ps)) z"
    for f :: "storefront_event \<Rightarrow> int \<Rightarrow> int" and z
    by (induction ps arbitrary: z) simp_all
  then show ?thesis by (simp add: sim_now_def flatten_profiles_concat)
qed

lemma fold_latest:
  "m \<le> fold (\<lambda>e m. if ev_timestamp_ms e > m then ev_timestamp_ms e else m) es m \<and>
   (\<forall>e \<in> set es. ev_timestamp_ms e \<le> fold (\<lambda>e m. if ev_timestamp_ms e > m then ev_timestamp_ms e else m) es m) \<and>
   fold (\<lambda>e m. if ev_timestamp_ms e > m then ev_timestamp_ms e else m) es m \<in> insert m (ev_timestamp_ms ` set es)"
proof (induction es arbitrary: m)
  case (Cons e es)
  from Cons [of "if ev_timestamp_ms e > m then ev_timestamp_ms e else m"] show ?case
    by (auto split: if_splits)
qed simp

lemma sim_now_bounds:
  "e \<in> set (flatten_profiles ps) \<Longrightarrow> ev_timestamp_ms e \<le> sim_now ps"
  "list_all (\<lambda>e. ev_timestamp_ms e mod 1000 = 0) (flatten_profiles ps) \<Longrightarrow> sim_now ps mod 1000 = 0"
  using fold_latest [of "- 62135596800000" "flatten_profiles ps"] unfolding sim_now_flat
  by (auto simp: list_all_iff)

text \<open>When every segment's sets agree, all of them are exact.\<close>

lemma diff_loop_exact:
  assumes "redis_ok rd view"
  shows "\<forall>seg \<in> set segs. \<forall>ms. recompute fo seg as_of evs = Inr ms \<longrightarrow> rd_sets (view r) (member_key (seg_id seg)) = ms \<Longrightarrow>
    diff_loop fo rd as_of evs r segs exact mismatch = Inr (x, y) \<Longrightarrow> x = exact + length segs \<and> y = mismatch"
proof (induction segs arbitrary: exact)
  case (Cons seg segs)
  from Cons.prems(2) obtain incr ms where
    i: "members_of rd (seg_id seg) r = Inr incr" and m: "recompute fo seg as_of evs = Inr ms"
    by (auto simp: diff_segment_def split: sum.splits)
  from i redis_okD(2) [OF assms] have "incr = rd_sets (view r) (member_key (seg_id seg))"
    by (auto simp: members_of_def split: sum.splits)
  with Cons.prems(1) m have "incr = ms" by simp
  then have "diff_exact (diff_sets (seg_id seg) incr ms)" by (simp add: diff_exact_def diff_sets_def)
  with Cons.prems i m have "diff_loop fo rd as_of evs r segs (exact + 1) mismatch = Inr (x, y)"
    by (simp add: diff_segment_def count_diff_def)
  from Cons.IH [OF _ this] Cons.prems(1) show ?case by simp
qed simp

lemma built_own_events:
  assumes "rand_ok rnd" and "build_storefront rnd fl profiles avg days now r0 = Some ps"
  shows "own_events ps" and "i < length ps \<Longrightarrow> sorted (map ev_timestamp_ms (pe_events (ps ! i)))"
proof -
  obtain r' where "build_profiles rnd fl avg days now 0 profiles r0 = Some (ps, r')"
    using assms(2) by (auto simp: build_storefront_def)
  from build_profiles_ok [OF assms(1) this]
  have ok: "profile_ok avg i (ps ! i)" if "i < length ps" for i using that by auto
  then have ids: "pe_profile_id (ps ! i) = ''profile-'' @ fmt_0d 8 (int i)" if "i < length ps" for i
    using that by (simp add: profile_ok_def)
  then have "distinct (map pe_profile_id ps)" by (auto simp: distinct_conv_nth)
  moreover have "\<forall>pe \<in> set ps. \<forall>e \<in> set (pe_events pe). profile_id e = pe_profile_id pe"
  proof
    fix pe assume "pe \<in> set ps"
    then obtain i where "i < length ps" "pe = ps ! i" by (auto simp: in_set_conv_nth)
    with ok show "\<forall>e \<in> set (pe_events pe). profile_id e = pe_profile_id pe" by (simp add: profile_ok_def)
  qed
  ultimately show "own_events ps" by (simp add: own_events_def)
  show "i < length ps \<Longrightarrow> sorted (map ev_timestamp_ms (pe_events (ps ! i)))"
    using ok by (simp add: profile_ok_def)
qed

lemma sent_distinct:
  assumes rnd: "rand_ok rnd" and built: "build_storefront rnd fl profiles avg days now r0 = Some ps"
    and sent: "merge_of (map (shard_events ps) [0..<send_workers]) sent"
  shows "distinct (map event_id sent)"
proof -
  obtain r1 where "build_profiles rnd fl avg days now 0 profiles r0 = Some (ps, r1)"
    using built by (auto simp: build_storefront_def)
  from build_profiles_ok [OF rnd this] profiles_distinct [of ps avg 0]
  have "distinct (map event_id (flatten_profiles ps))" by (simp add: flatten_profiles_concat)
  moreover have "mset (map event_id sent) = mset (map event_id (flatten_profiles ps))"
    using merge_of_mset [OF sent] shard_events_cover [of ps] by simp
  ultimately show ?thesis using mset_eq_imp_distinct_iff by blast
qed

text \<open>
  Through the topic: a profile is one partition's, and the reader goroutines merge the partitions, so
  a profile's events are consumed in the order they were sent.
\<close>

lemma consumed_profile:
  assumes "through_topic m u part wr logs broker topic n k sent str" and "distinct (map event_id sent)"
  shows "events_of p (map snd (st_out str)) = events_of p sent"
proof -
  let ?part = "\<lambda>e. part (str_bytes (profile_id e))" and ?got = "map snd (st_out str)" and ?i = "part (str_bytes p)"
  note m = through_topic_merges [OF assms]
  have "filter (\<lambda>e. profile_id e = p) ?got = filter (\<lambda>e. profile_id e = p) (topic_logs ?part n sent ! ?i)"
    using m(2) by (intro merge_of_filter [OF m(1)]) (auto simp: topic_logs_def filter_empty_conv)
  also have "\<dots> = filter (\<lambda>e. profile_id e = p) sent"
    using m(2) by (auto simp: topic_logs_def intro!: filter_cong)
  finally show ?thesis by (simp add: events_of_def)
qed

text \<open>
  The verdict: when the engine and the store both have the events in the order the readers delivered
  them, and the corpus has whole-second timestamps after 1970 and before 2255, the loop over the
  segments finds every one exact.
\<close>

lemma verdict_exact:
  assumes rnd: "rand_ok rnd" and built: "build_storefront rnd fl profiles avg days now r0 = Some ps"
    and seconds: "list_all (\<lambda>e. 0 < ev_timestamp_ms e \<and> ev_timestamp_ms e mod 1000 = 0) (flatten_profiles ps)"
    and range: "sim_now ps < 9 * 10 ^ 12" and fits: "length (flatten_profiles ps) < 2 ^ 63"
    and sent: "merge_of (map (shard_events ps) [0..<send_workers]) sent"
    and topic: "through_topic m u part wr logs broker tp n k sent str" and evs: "evs = map snd (st_out str)"
    and redis: "redis_ok rd view" and fresh: "view r = empty_data" and ids: "distinct (map seg_id segs)"
    and applied: "apply_events fo rd segs evs r = (None, r1)"
    and conds: "\<And>seg pe. seg \<in> set segs \<Longrightarrow> pe \<in> set ps \<Longrightarrow> family_cond fo seg (sim_now ps) (pe_events pe)"
    and none: "\<And>seg. seg \<in> set segs \<Longrightarrow> family_cond fo seg (sim_now ps) []"
    and fin: "finalize fo rd segs (unix_milli_time (sim_now ps)) r1 = (Inr touched, r2)"
    and loop: "diff_loop fo rd (unix_milli_time (sim_now ps)) evs r2 segs 0 0 = Inr (exact, mismatch)"
  shows "exact = length segs \<and> mismatch = 0"
proof -
  note own = built_own_events [OF rnd built]
  have "mset sent = mset (flatten_profiles ps)"
    using merge_of_mset [OF sent] shard_events_cover [of ps] by simp
  then have sset: "set sent = set (flatten_profiles ps)" by (metis set_mset_mset)
  have ev: "events_of p evs = events_of p sent" for p
    unfolding evs by (rule consumed_profile [OF topic sent_distinct [OF rnd built sent]])
  have prof: "events_of p evs = [] \<or> (\<exists>i < length ps. events_of p evs = pe_events (ps ! i))" for p
  proof (cases "\<exists>i < length ps. pe_profile_id (ps ! i) = p")
    case True
    then obtain i where i: "i < length ps" "pe_profile_id (ps ! i) = p" by blast
    with sent_profile [OF own(1) i(1) sent] ev show ?thesis by auto
  next
    case False
    then have "\<forall>e \<in> set sent. profile_id e \<noteq> p"
      using own(1) unfolding sset flatten_profiles_concat own_events_def by (auto simp: in_set_conv_nth)
    then have "events_of p sent = []" by (simp add: events_of_def filter_empty_conv)
    then show ?thesis by (simp add: ev)
  qed
  have comp: "comparable (sim_now ps) (events_of p evs)" for p
  proof -
    have sub: "set (events_of p evs) \<subseteq> set (flatten_profiles ps)"
      unfolding ev by (auto simp: events_of_def sset)
    have "sorted (map ev_timestamp_ms (events_of p evs))" using prof [of p] own(2) by auto
    moreover have "length (events_of p evs) \<le> length sent" unfolding ev by (simp add: events_of_def)
    moreover have "length sent = length (flatten_profiles ps)"
      using merge_of_mset [OF sent] shard_events_cover [of ps] by (metis mset_eq_length)
    moreover have "sim_now ps mod 1000 = 0" using seconds by (intro sim_now_bounds(2)) (simp add: list_all_iff)
    ultimately show ?thesis
      using sub seconds range fits sim_now_bounds(1)
      by (auto simp: comparable_def in_order_def int64_def list_all_iff)
  qed
  have fam: "family_cond fo seg (sim_now ps) (events_of p evs)" if "seg \<in> set segs" for seg p
    using prof [of p] conds [OF that] none [OF that] by (metis nth_mem)
  have "\<forall>seg \<in> set segs. \<forall>ms. recompute fo seg (unix_milli_time (sim_now ps)) evs = Inr ms \<longrightarrow>
      rd_sets (view r2) (member_key (seg_id seg)) = ms"
    using finalize_members(2) [OF redis ids fresh applied fin _ _ comp fam] by blast
  from diff_loop_exact [OF redis this loop] show ?thesis by simp
qed

section \<open>Properties\<close>

text \<open>
  Ordering end to end: the events go through the edge to the keyed writer of the topic and are read by
  one goroutine per partition. Whatever the interleaving of the eight send workers and of the partition
  readers, when the topic was read out each profile's events have reached the consumer complete and in
  the order of their timestamps.
\<close>

theorem profile_order_end_to_end:
  assumes rnd: "rand_ok rnd" and built: "build_storefront rnd fl profiles avg days now r0 = Some ps"
    and sent: "merge_of (map (shard_events ps) [0..<send_workers]) sent"
    and topic: "through_topic m u part wr logs broker tp n k sent str"
    and i: "i < length ps"
  shows "events_of (pe_profile_id (ps ! i)) (map snd (st_out str)) = pe_events (ps ! i) \<and>
    sorted (map ev_timestamp_ms (events_of (pe_profile_id (ps ! i)) (map snd (st_out str))))"
  using consumed_profile [OF topic sent_distinct [OF rnd built sent]]
    sent_profile [OF built_own_events(1) [OF rnd built] i sent]
    built_own_events(2) [OF rnd built i] by simp

text \<open>
  The benchmark's verdict: over any corpus with whole-second timestamps after 1970 and before 2255,
  for any interleaving of the workers and the partition readers, when the consumer took what the
  readers delivered and ended, no insert was refused and no engine call failed, a report that is produced counts every
  segment exact, for segments whose family condition holds on the profiles' events.
\<close>

theorem segmentbench_all_exact:
  assumes rnd: "rand_ok rnd" and built: "build_storefront rnd fl profiles avg days now r0 = Some ps"
    and seconds: "list_all (\<lambda>e. 0 < ev_timestamp_ms e \<and> ev_timestamp_ms e mod 1000 = 0) (flatten_profiles ps)"
    and range: "sim_now ps < 9 * 10 ^ 12" and fits: "length (flatten_profiles ps) < 2 ^ 63"
    and sent: "merge_of (map (shard_events ps) [0..<send_workers]) sent"
    and topic: "through_topic m u part wr logs broker tp n k sent str"
    and taken: "map fst (arrivals turns) = map snd (st_out str)"
    and ends: "loop_ends turns" and store: "keeps_batches ins stored" and empty: "stored s = []"
    and redis: "redis_ok rd view" and fresh: "view r = empty_data" and ids: "distinct (map seg_id segs)"
    and applied: "apply_events fo rd segs (map fst (arrivals turns)) r = (None, r1)"
    and conds: "\<And>seg pe. seg \<in> set segs \<Longrightarrow> pe \<in> set ps \<Longrightarrow> family_cond fo seg (sim_now ps) (pe_events pe)"
    and none: "\<And>seg. seg \<in> set segs \<Longrightarrow> family_cond fo seg (sim_now ps) []"
    and ran: "run_seg fo rd segs ins sent_at turns \<lparr>sb_batcher = new_batcher s, sb_redis = r, sb_lags = []\<rparr> = b"
    and report: "seg_report fo rd segs stored (sim_now ps) b = Inr (exact, mismatch)"
  shows "exact = length segs \<and> mismatch = 0 \<and> stored (bt_store (sb_batcher b)) = map fst (arrivals turns)"
proof -
  have st: "stored (bt_store (sb_batcher b)) = map fst (arrivals turns)"
    using run_bench_stores [OF keeps_batches_within [OF store, of UNIV], of "new_batcher s" "map (map_turn fst) turns"]
      ends empty ran
    by (auto simp: run_seg_batcher arrivals_map loop_ends_map new_batcher_def)
  have "sb_redis b = r1"
    using apply_events_fold [OF applied] ran run_seg_redis [of fo rd segs ins sent_at turns] by auto
  with report obtain touched r2 where
    "finalize fo rd segs (unix_milli_time (sim_now ps)) r1 = (Inr touched, r2)"
    "diff_loop fo rd (unix_milli_time (sim_now ps)) (map fst (arrivals turns)) r2 segs 0 0 = Inr (exact, mismatch)"
    by (auto simp: seg_report_def st split: sum.splits prod.splits)
  from verdict_exact [OF rnd built seconds range fits sent topic taken redis fresh ids applied conds none this] st
  show ?thesis by simp
qed

definition demo_bench_event :: storefront_event where
  "demo_bench_event = \<lparr>event_id = event_id_text 0 0, profile_id = ''profile-'' @ fmt_0d 8 0, event_type = ''page_view'',
     ev_timestamp_ms = 5000, attributes = [(''category'', categories ! 0)]\<rparr>"

definition demo_bench_corpus :: "profile_events list" where
  "demo_bench_corpus = [\<lparr>pe_profile_id = ''profile-'' @ fmt_0d 8 0, pe_events = [demo_bench_event]\<rparr>]"

lemma demo_bench_built:
  "build_storefront scripted_rand demo_sim_floats 1 1 0 5000000000 [] = Some demo_bench_corpus"
  by (simp add: build_storefront_def scripted_rand_def intn_def draw_event_type_def Let_def categories_def
      demo_sim_floats_def sort_events_def unix_milli_def demo_bench_corpus_def demo_bench_event_def)

lemma demo_bench_sent: "merge_of (map (shard_events demo_bench_corpus) [0..<send_workers]) [demo_bench_event]"
  using merge_of_concat [of "map (shard_events demo_bench_corpus) [0..<send_workers]"]
  by (simp add: shard_events_cover flatten_profiles_def demo_bench_corpus_def)

text \<open>A codec for the one event.\<close>

definition demo_marshal :: "storefront_event \<Rightarrow> goerror + bytes" where
  "demo_marshal e = (if e = demo_bench_event then Inr [1] else Inl (Errno ''marshal''))"

definition demo_unmarshal :: "bytes \<Rightarrow> goerror + storefront_event" where
  "demo_unmarshal v = (if v = [1] then Inr demo_bench_event else Inl (Errno ''unmarshal''))"

definition demo_stream :: "storefront_event stream" where
  "demo_stream = \<lparr>st_readers = [[]], st_out = [(0, demo_bench_event)]\<rparr>"

lemma demo_bench_topic:
  "through_topic demo_marshal demo_unmarshal (\<lambda>_. 0) append_writer one_partition
     ''broker:9092'' ''storefront'' 1 [] [demo_bench_event] demo_stream"
proof -
  let ?rs = "[[Inr [1]]] :: (goerror + bytes) list list"
  have "stream_step demo_unmarshal (new_stream ?rs) demo_stream"
    using stream_step.sent [of 0 "new_stream ?rs" "[1]" "[]" demo_unmarshal demo_bench_event]
    by (simp add: new_stream_def demo_unmarshal_def demo_stream_def)
  then have "stream_reach demo_unmarshal (new_stream ?rs) demo_stream" by (metis stream_reach.intros)
  then have "read_out demo_unmarshal ?rs demo_stream"
    by (simp add: read_out_def delivered_from_def demo_stream_def demo_unmarshal_def)
  moreover have "ep_producer (event_ingest_all (storefront_produce demo_marshal (append_writer cfg)) [demo_bench_event]
      (new_event_pipeline new_event_dedup [])) = [(str_bytes (profile_id demo_bench_event), [1])]" for cfg
    by (simp add: event_stream_distinct storefront_produce_def demo_marshal_def append_writer_def)
  ultimately show ?thesis
    using append_ready
    by (auto simp: through_topic_def codec_ok_def demo_marshal_def demo_unmarshal_def one_partition_def
        readers_over_def new_stream_readers_def)
qed

lemma demo_diff_segment:
  "\<exists>incr rec. members_of mem_redis ''s'' r = Inr incr \<and>
     recompute demo_floats (demo_seg NeverPurchased) as_of evs = Inr rec \<and>
     diff_segment demo_floats mem_redis as_of evs r (demo_seg NeverPurchased) = Inr (diff_sets ''s'' incr rec)"
  by (simp add: diff_segment_def members_of_def mem_redis_def recompute.simps demo_seg_def blank_segment_def Let_def)

lemma demo_diff_loop:
  "\<exists>x y. diff_loop demo_floats mem_redis as_of evs r [demo_seg NeverPurchased] 0 0 = Inr (x, y)"
proof -
  obtain d where "diff_segment demo_floats mem_redis as_of evs r (demo_seg NeverPurchased) = Inr d"
    using demo_diff_segment [of r as_of evs] by blast
  then show ?thesis by (cases "count_diff d (0, 0)") simp
qed

theorem profile_order_end_to_end_witness:
  "events_of (''profile-'' @ fmt_0d 8 0) [demo_bench_event] = [demo_bench_event]"
  using profile_order_end_to_end [OF scripted_rand_ok demo_bench_built demo_bench_sent demo_bench_topic, of 0]
  by (simp add: demo_bench_corpus_def demo_stream_def)

theorem segmentbench_all_exact_witness:
  "\<exists>b. run_seg demo_floats mem_redis [demo_seg NeverPurchased] (\<lambda>ms s. (None, s @ ms)) (\<lambda>_. Some 0)
       [Arrived (demo_bench_event, 3000000), Stopped]
       \<lparr>sb_batcher = new_batcher [], sb_redis = empty_store, sb_lags = []\<rparr> = b \<and>
     seg_report demo_floats mem_redis [demo_seg NeverPurchased] (\<lambda>s. s) 5000 b = Inr (1, 0) \<and> sb_lags b = [3]"
proof -
  let ?segs = "[demo_seg NeverPurchased]" and ?turns = "[Arrived (demo_bench_event, 3000000 :: int), Stopped]"
  let ?ins = "\<lambda>ms s. (None :: goerror option, s @ ms :: storefront_event list)"
  let ?b = "run_seg demo_floats mem_redis ?segs ?ins (\<lambda>_. Some 0) ?turns
      \<lparr>sb_batcher = new_batcher [], sb_redis = empty_store, sb_lags = []\<rparr>"
  have flat: "flatten_profiles demo_bench_corpus = [demo_bench_event]"
    by (simp add: flatten_profiles_def demo_bench_corpus_def)
  have now: "sim_now demo_bench_corpus = 5000" by (simp add: sim_now_flat flat demo_bench_event_def)
  obtain r1 where r1: "apply_events demo_floats mem_redis ?segs (map fst (arrivals ?turns)) empty_store = (None, r1)"
    using mem_apply_events by blast
  have redis: "sb_redis ?b = r1"
    using apply_events_fold [OF r1] run_seg_redis [of demo_floats mem_redis ?segs ?ins "\<lambda>_. Some 0" ?turns] by auto
  obtain k r2 where fin: "finalize demo_floats mem_redis ?segs (unix_milli_time 5000) r1 = (Inr k, r2)"
    using mem_finalize by blast
  have "\<exists>x y. seg_report demo_floats mem_redis ?segs (\<lambda>s. s) 5000 ?b = Inr (x, y)"
    unfolding seg_report_def redis fin prod.case sum.case by (rule demo_diff_loop)
  then obtain x y where rep: "seg_report demo_floats mem_redis ?segs (\<lambda>s. s) (sim_now demo_bench_corpus) ?b = Inr (x, y)"
    by (auto simp: now)
  have store: "keeps_batches ?ins (\<lambda>s. s)" by (simp add: keeps_batches_def)
  have taken: "map fst (arrivals ?turns) = map snd (st_out demo_stream)" by (simp add: demo_stream_def)
  have "x = length ?segs \<and> y = 0"
    using segmentbench_all_exact [OF scripted_rand_ok demo_bench_built _ _ _ demo_bench_sent demo_bench_topic taken _ store refl
        mem_redis_ok mem_view_empty _ r1 _ _ refl rep]
    by (auto simp: flat now demo_bench_event_def family_cond_def demo_seg_def blank_segment_def)
  with rep show ?thesis
    by (auto simp: now seg_turn_def duration_ms_def)
qed

end
