(* ===== verification/Segment_Run.thy ===== *)
theory Segment_Run
  imports Segment_Bench
begin

text \<open>
  cmd/segmentbench as it runs: the consumer goroutine and main share the batch, the store and Redis.
  Each critical section, insert and engine call is a step of its own, so a flush of the consumer can
  be under way while main flushes, finalizes and compares.
\<close>

section \<open>The goroutines\<close>

text \<open>What the closures of main capture.\<close>

record ('f, 'r, 's) seg_env =
  se_floats :: "'f float64_ops"
  se_redis :: "'r redis"
  se_segments :: "'f segment list"
  se_insert :: "storefront_event list \<Rightarrow> 's \<Rightarrow> goerror option \<times> 's"
  se_table :: "'s \<Rightarrow> storefront_event list"
  se_sent_at :: "string \<Rightarrow> int option"
  se_total :: nat
  se_now :: int

text \<open>Where the consumer is; a flush goes on with the event that filled the batch, or with the loop.\<close>

datatype seg_consumer =
    C_Idle
  | C_Flush "(storefront_event \<times> int) option"
  | C_Insert "storefront_event list" "(storefront_event \<times> int) option"
  | C_Apply storefront_event int
  | C_Lag storefront_event int
  | C_Count

datatype 'f seg_main =
    M_Wait
  | M_Flush
  | M_Insert "storefront_event list"
  | M_Finalize
  | M_Diff "'f segment list" "nat \<times> nat"
  | M_Reported "nat \<times> nat"
  | M_Fatal goerror

text \<open>The field ss_caught_up records that the wait ended by the count and not by its deadline.\<close>

record ('f, 'r, 's) seg_sys =
  ss_left :: "(storefront_event \<times> int) list"
  ss_bench :: "('s, 'r) seg_bench"
  ss_cons :: seg_consumer
  ss_main :: "'f seg_main"
  ss_caught_up :: bool

section \<open>The steps\<close>

text \<open>The critical section of an event: it is appended, and the test whether the batch is full decides what follows.\<close>

definition take_event :: "storefront_event \<Rightarrow> ('s, 'r) seg_bench \<Rightarrow> ('s, 'r) seg_bench \<times> bool" where
  "take_event e b =
     (let bt = (sb_batcher b)\<lparr>bt_batch := bt_batch (sb_batcher b) @ [e]\<rparr>
      in (b\<lparr>sb_batcher := bt\<rparr>, length (bt_batch bt) \<ge> bench_batch_size))"

text \<open>flushCH: the batch is swapped for an empty one under the lock, and inserted outside of it unless it is empty.\<close>

definition swap_batch :: "('s, 'r) seg_bench \<Rightarrow> storefront_event list \<times> ('s, 'r) seg_bench" where
  "swap_batch b = (bt_batch (sb_batcher b), b\<lparr>sb_batcher := (sb_batcher b)\<lparr>bt_batch := []\<rparr>\<rparr>)"

definition store_batch ::
  "('f, 'r, 's) seg_env \<Rightarrow> storefront_event list \<Rightarrow> ('s, 'r) seg_bench \<Rightarrow> ('s, 'r) seg_bench"
where
  "store_batch env batch b =
     b\<lparr>sb_batcher := (sb_batcher b)\<lparr>bt_store := snd (se_insert env batch (bt_store (sb_batcher b)))\<rparr>\<rparr>"

definition apply_step :: "('f, 'r, 's) seg_env \<Rightarrow> storefront_event \<Rightarrow> ('s, 'r) seg_bench \<Rightarrow> ('s, 'r) seg_bench" where
  "apply_step env e b =
     b\<lparr>sb_redis := snd (apply_event (se_floats env) (se_redis env) (se_segments env) e (sb_redis b))\<rparr>"

definition lag_step :: "('f, 'r, 's) seg_env \<Rightarrow> storefront_event \<Rightarrow> int \<Rightarrow> ('s, 'r) seg_bench \<Rightarrow> ('s, 'r) seg_bench" where
  "lag_step env e at b =
     b\<lparr>sb_lags := sb_lags b @ (case se_sent_at env (event_id e) of None \<Rightarrow> [] | Some t \<Rightarrow> [duration_ms (at - t)])\<rparr>"

definition count_step :: "('s, 'r) seg_bench \<Rightarrow> ('s, 'r) seg_bench" where
  "count_step b = b\<lparr>sb_batcher := (sb_batcher b)\<lparr>bt_consumed := bt_consumed (sb_batcher b) + 1\<rparr>\<rparr>"

definition after_flush :: "(storefront_event \<times> int) option \<Rightarrow> seg_consumer" where
  "after_flush k = (case k of None \<Rightarrow> C_Idle | Some (e, at) \<Rightarrow> C_Apply e at)"

definition finalize_step :: "('f, 'r, 's) seg_env \<Rightarrow> ('s, 'r) seg_bench \<Rightarrow> 'f seg_main \<times> ('s, 'r) seg_bench" where
  "finalize_step env b =
     (case finalize (se_floats env) (se_redis env) (se_segments env) (unix_milli_time (se_now env)) (sb_redis b) of
        (Inl e, r) \<Rightarrow> (M_Fatal (Wrapped ''finalize'' e), b\<lparr>sb_redis := r\<rparr>)
      | (Inr touched, r) \<Rightarrow> (M_Diff (se_segments env) (0, 0), b\<lparr>sb_redis := r\<rparr>))"

text \<open>One segment of the comparison, over Redis and the store as they are now.\<close>

definition diff_step ::
  "('f, 'r, 's) seg_env \<Rightarrow> ('s, 'r) seg_bench \<Rightarrow> 'f segment \<Rightarrow> 'f segment list \<Rightarrow> nat \<times> nat \<Rightarrow> 'f seg_main"
where
  "diff_step env b seg segs c =
     (case diff_segment (se_floats env) (se_redis env) (unix_milli_time (se_now env))
             (se_table env (bt_store (sb_batcher b))) (sb_redis b) seg of
        Inl e \<Rightarrow> M_Fatal e
      | Inr d \<Rightarrow> M_Diff segs (count_diff d c))"

inductive seg_step :: "('f, 'r, 's) seg_env \<Rightarrow> ('f, 'r, 's) seg_sys \<Rightarrow> ('f, 'r, 's) seg_sys \<Rightarrow> bool" for env where
  taken: "\<lbrakk>ss_cons s = C_Idle; ss_left s = (e, at) # ms; take_event e (ss_bench s) = (b, full)\<rbrakk> \<Longrightarrow>
     seg_step env s (s\<lparr>ss_left := ms, ss_bench := b,
       ss_cons := if full then C_Flush (Some (e, at)) else C_Apply e at\<rparr>)"
| ticked: "ss_cons s = C_Idle \<Longrightarrow> seg_step env s (s\<lparr>ss_cons := C_Flush None\<rparr>)"
| swapped: "\<lbrakk>ss_cons s = C_Flush k; swap_batch (ss_bench s) = (batch, b)\<rbrakk> \<Longrightarrow>
     seg_step env s (s\<lparr>ss_bench := b, ss_cons := if batch = [] then after_flush k else C_Insert batch k\<rparr>)"
| inserted: "ss_cons s = C_Insert batch k \<Longrightarrow>
     seg_step env s (s\<lparr>ss_bench := store_batch env batch (ss_bench s), ss_cons := after_flush k\<rparr>)"
| applied: "ss_cons s = C_Apply e at \<Longrightarrow>
     seg_step env s (s\<lparr>ss_bench := apply_step env e (ss_bench s), ss_cons := C_Lag e at\<rparr>)"
| lagged: "ss_cons s = C_Lag e at \<Longrightarrow>
     seg_step env s (s\<lparr>ss_bench := lag_step env e at (ss_bench s), ss_cons := C_Count\<rparr>)"
| counted: "ss_cons s = C_Count \<Longrightarrow>
     seg_step env s (s\<lparr>ss_bench := count_step (ss_bench s), ss_cons := C_Idle\<rparr>)"
| caught_up: "\<lbrakk>ss_main s = M_Wait; se_total env \<le> bt_consumed (sb_batcher (ss_bench s))\<rbrakk> \<Longrightarrow>
     seg_step env s (s\<lparr>ss_main := M_Flush, ss_caught_up := True\<rparr>)"
| gave_up: "ss_main s = M_Wait \<Longrightarrow> seg_step env s (s\<lparr>ss_main := M_Flush\<rparr>)"
| main_swapped: "\<lbrakk>ss_main s = M_Flush; swap_batch (ss_bench s) = (batch, b)\<rbrakk> \<Longrightarrow>
     seg_step env s (s\<lparr>ss_bench := b, ss_main := if batch = [] then M_Finalize else M_Insert batch\<rparr>)"
| main_inserted: "ss_main s = M_Insert batch \<Longrightarrow>
     seg_step env s (s\<lparr>ss_bench := store_batch env batch (ss_bench s), ss_main := M_Finalize\<rparr>)"
| finalized: "\<lbrakk>ss_main s = M_Finalize; finalize_step env (ss_bench s) = (m, b)\<rbrakk> \<Longrightarrow>
     seg_step env s (s\<lparr>ss_bench := b, ss_main := m\<rparr>)"
| compared: "ss_main s = M_Diff (seg # segs) c \<Longrightarrow>
     seg_step env s (s\<lparr>ss_main := diff_step env (ss_bench s) seg segs c\<rparr>)"
| reported: "ss_main s = M_Diff [] c \<Longrightarrow> seg_step env s (s\<lparr>ss_main := M_Reported c\<rparr>)"

inductive seg_reach :: "('f, 'r, 's) seg_env \<Rightarrow> ('f, 'r, 's) seg_sys \<Rightarrow> ('f, 'r, 's) seg_sys \<Rightarrow> bool" for env s where
  here: "seg_reach env s s"
| onwards: "\<lbrakk>seg_reach env s s1; seg_step env s1 s2\<rbrakk> \<Longrightarrow> seg_reach env s s2"

definition seg_start :: "(storefront_event \<times> int) list \<Rightarrow> 's \<Rightarrow> 'r \<Rightarrow> ('f, 'r, 's) seg_sys" where
  "seg_start msgs st r =
     \<lparr>ss_left = msgs, ss_bench = \<lparr>sb_batcher = new_batcher st, sb_redis = r, sb_lags = []\<rparr>,
      ss_cons = C_Idle, ss_main = M_Wait, ss_caught_up = False\<rparr>"

section \<open>Lemmas\<close>

lemmas seg_parts = take_event_def swap_batch_def store_batch_def apply_step_def lag_step_def count_step_def Let_def

inductive_cases seg_stepE: "seg_step env s s'"

lemma seg_reach_trans: "seg_reach env s1 s2 \<Longrightarrow> seg_reach env s s1 \<Longrightarrow> seg_reach env s s2"
  by (induction rule: seg_reach.induct) (auto intro: seg_reach.onwards)

lemma seg_reach_step: "seg_step env s s1 \<Longrightarrow> seg_reach env s1 s2 \<Longrightarrow> seg_reach env s s2"
  using seg_reach.onwards [OF seg_reach.here] by (rule seg_reach_trans [rotated])

text \<open>What a flush holds between its swap and the end of its insert.\<close>

definition cons_flight :: "seg_consumer \<Rightarrow> storefront_event list" where
  "cons_flight c = (case c of C_Insert batch k \<Rightarrow> batch | _ \<Rightarrow> [])"

definition main_flight :: "'f seg_main \<Rightarrow> storefront_event list" where
  "main_flight m = (case m of M_Insert batch \<Rightarrow> batch | _ \<Rightarrow> [])"

text \<open>The event taken that the engine has not seen yet, and the one that is not counted yet.\<close>

definition unapplied :: "seg_consumer \<Rightarrow> storefront_event list" where
  "unapplied c =
     (case c of C_Flush (Some (e, at)) \<Rightarrow> [e] | C_Insert _ (Some (e, at)) \<Rightarrow> [e] | C_Apply e at \<Rightarrow> [e] | _ \<Rightarrow> [])"

definition uncounted :: "seg_consumer \<Rightarrow> nat" where
  "uncounted c = (case c of C_Lag _ _ \<Rightarrow> 1 | C_Count \<Rightarrow> 1 | _ \<Rightarrow> length (unapplied c))"

lemmas seg_flights = cons_flight_def main_flight_def unapplied_def uncounted_def after_flush_def

abbreviation batch_of :: "('f, 'r, 's) seg_sys \<Rightarrow> storefront_event list" where
  "batch_of s \<equiv> bt_batch (sb_batcher (ss_bench s))"

abbreviation stored_of :: "('f, 'r, 's) seg_env \<Rightarrow> ('f, 'r, 's) seg_sys \<Rightarrow> storefront_event list" where
  "stored_of env s \<equiv> se_table env (bt_store (sb_batcher (ss_bench s)))"

abbreviation engine_fold :: "('f, 'r, 's) seg_env \<Rightarrow> storefront_event list \<Rightarrow> 'r \<Rightarrow> 'r" where
  "engine_fold env es r \<equiv> fold (\<lambda>e r. snd (apply_event (se_floats env) (se_redis env) (se_segments env) e r)) es r"

definition still_waiting :: "'f seg_main \<Rightarrow> bool" where
  "still_waiting m \<longleftrightarrow> m = M_Wait \<or> m = M_Flush"

definition before_finalize :: "'f seg_main \<Rightarrow> bool" where
  "before_finalize m = (case m of M_Wait \<Rightarrow> True | M_Flush \<Rightarrow> True | M_Insert _ \<Rightarrow> True | M_Finalize \<Rightarrow> True | _ \<Rightarrow> False)"

lemma before_finalize_simps [simp]:
  "before_finalize M_Wait" "before_finalize M_Flush" "before_finalize (M_Insert b)" "before_finalize M_Finalize"
  "\<not> before_finalize (M_Diff segs c)" "\<not> before_finalize (M_Reported c)" "\<not> before_finalize (M_Fatal e)"
  by (simp_all add: before_finalize_def)

lemma finalize_step_main:
  "finalize_step env b = (m, b1) \<Longrightarrow> \<not> before_finalize m \<and> sb_batcher b1 = sb_batcher b \<and> main_flight m = []"
  by (auto simp: finalize_step_def main_flight_def split: prod.splits sum.splits)

lemma diff_step_main: "\<not> before_finalize (diff_step env b seg segs c)" "main_flight (diff_step env b seg segs c) = []"
  "diff_step env b seg segs c \<noteq> M_Wait" "diff_step env b seg segs c \<noteq> M_Flush"
  by (auto simp: diff_step_def main_flight_def split: sum.splits)

text \<open>Every message is counted, about to be, or still to come.\<close>

definition count_inv :: "(storefront_event \<times> int) list \<Rightarrow> ('f, 'r, 's) seg_sys \<Rightarrow> bool" where
  "count_inv msgs s \<longleftrightarrow> bt_consumed (sb_batcher (ss_bench s)) + uncounted (ss_cons s) + length (ss_left s) = length msgs"

text \<open>Every message is in the store, in the batch, in one of the two flushes, or still to come.\<close>

definition account_inv :: "('f, 'r, 's) seg_env \<Rightarrow> (storefront_event \<times> int) list \<Rightarrow> ('f, 'r, 's) seg_sys \<Rightarrow> bool" where
  "account_inv env msgs s \<longleftrightarrow>
     mset (map fst msgs) = mset (stored_of env s) + mset (cons_flight (ss_cons s)) + mset (main_flight (ss_main s)) +
       mset (batch_of s) + mset (map fst (ss_left s))"

text \<open>Until Finalize the engine has what it would have after all the messages, but for the ones it has not seen.\<close>

definition engine_inv ::
  "('f, 'r, 's) seg_env \<Rightarrow> (storefront_event \<times> int) list \<Rightarrow> 'r \<Rightarrow> ('f, 'r, 's) seg_sys \<Rightarrow> bool"
where
  "engine_inv env msgs r s \<longleftrightarrow>
     (before_finalize (ss_main s) \<longrightarrow>
        engine_fold env (unapplied (ss_cons s) @ map fst (ss_left s)) (sb_redis (ss_bench s)) =
        engine_fold env (map fst msgs) r)"

text \<open>
  While main waits, and after it when it caught up, the store, the flushes and the batch are in the order
  of the messages, and at most one of the three is not empty.
\<close>

definition order_inv :: "('f, 'r, 's) seg_env \<Rightarrow> (storefront_event \<times> int) list \<Rightarrow> ('f, 'r, 's) seg_sys \<Rightarrow> bool" where
  "order_inv env msgs s \<longleftrightarrow>
     (ss_caught_up s \<or> still_waiting (ss_main s) \<longrightarrow>
        map fst msgs = stored_of env s @ cons_flight (ss_cons s) @ main_flight (ss_main s) @ batch_of s @ map fst (ss_left s) \<and>
        (cons_flight (ss_cons s) = [] \<or> main_flight (ss_main s) = []) \<and>
        (batch_of s = [] \<or> cons_flight (ss_cons s) = [] \<and> main_flight (ss_main s) = []))"

definition caught_inv :: "('f, 'r, 's) seg_sys \<Rightarrow> bool" where
  "caught_inv s \<longleftrightarrow>
     (ss_caught_up s \<longrightarrow> ss_left s = [] \<and> uncounted (ss_cons s) = 0 \<and> unapplied (ss_cons s) = [] \<and> ss_main s \<noteq> M_Wait \<and>
        (ss_main s \<noteq> M_Flush \<longrightarrow> batch_of s = []))"

abbreviation keeps_events :: "('f, 'r, 's) seg_env \<Rightarrow> storefront_event set \<Rightarrow> bool" where
  "keeps_events env E \<equiv> keeps_within E (se_insert env) (se_table env)"

lemma flights_within:
  assumes "account_inv env msgs s"
  shows "set (cons_flight (ss_cons s)) \<subseteq> fst ` set msgs" "set (main_flight (ss_main s)) \<subseteq> fst ` set msgs"
proof -
  have "set_mset (mset (map fst msgs)) = set (stored_of env s) \<union> set (cons_flight (ss_cons s)) \<union>
      set (main_flight (ss_main s)) \<union> set (batch_of s) \<union> fst ` set (ss_left s)"
    unfolding assms [unfolded account_inv_def] by simp
  then show "set (cons_flight (ss_cons s)) \<subseteq> fst ` set msgs" "set (main_flight (ss_main s)) \<subseteq> fst ` set msgs"
    by auto
qed

lemma count_inv_step: "seg_step env s s' \<Longrightarrow> count_inv msgs s \<Longrightarrow> count_inv msgs s'"
  by (erule seg_step.cases)
    (auto simp: count_inv_def seg_parts seg_flights finalize_step_main split: option.splits dest: finalize_step_main)

lemma account_inv_step:
  assumes "keeps_events env (fst ` set msgs)"
  shows "seg_step env s s' \<Longrightarrow> account_inv env msgs s \<Longrightarrow> account_inv env msgs s'"
  using assms flights_within [of env msgs s] unfolding keeps_within_def
  by (erule_tac seg_step.cases)
    (auto simp: account_inv_def seg_parts seg_flights diff_step_main [unfolded main_flight_def]
      split: option.splits dest: finalize_step_main)

lemma engine_inv_step: "seg_step env s s' \<Longrightarrow> engine_inv env msgs r s \<Longrightarrow> engine_inv env msgs r s'"
  by (erule seg_step.cases)
    (auto simp: engine_inv_def seg_parts seg_flights diff_step_main split: option.splits dest: finalize_step_main)

lemma all_counted:
  assumes "count_inv msgs s" and "length msgs \<le> bt_consumed (sb_batcher (ss_bench s))"
  shows "ss_left s = [] \<and> uncounted (ss_cons s) = 0 \<and> unapplied (ss_cons s) = []"
proof -
  from assms have "length (ss_left s) = 0" "uncounted (ss_cons s) = 0" unfolding count_inv_def by linarith+
  then show ?thesis by (auto simp: seg_flights split: seg_consumer.splits)
qed

lemma caught_inv_step:
  assumes "length msgs \<le> se_total env"
  shows "seg_step env s s' \<Longrightarrow> count_inv msgs s \<Longrightarrow> caught_inv s \<Longrightarrow> caught_inv s'"
  using assms all_counted [of msgs s]
  by (erule_tac seg_step.cases)
    (auto simp: caught_inv_def seg_parts seg_flights diff_step_main split: option.splits
      dest: finalize_step_main)

lemma order_inv_step:
  assumes "keeps_events env (fst ` set msgs)"
  shows "seg_step env s s' \<Longrightarrow> account_inv env msgs s \<Longrightarrow> caught_inv s \<Longrightarrow> caught_inv s' \<Longrightarrow>
    order_inv env msgs s \<Longrightarrow> order_inv env msgs s'"
  using assms flights_within [of env msgs s] unfolding keeps_within_def
  by (erule_tac seg_step.cases)
    (auto simp: order_inv_def caught_inv_def seg_parts seg_flights still_waiting_def diff_step_main(3,4) diff_step_main [unfolded main_flight_def]
      split: option.splits dest: finalize_step_main)

lemmas seg_invs = count_inv_def account_inv_def engine_inv_def caught_inv_def order_inv_def

lemma seg_start_invs:
  assumes "se_table env st = []"
  shows "count_inv msgs (seg_start msgs st r)" "account_inv env msgs (seg_start msgs st r)"
    "engine_inv env msgs r (seg_start msgs st r)" "caught_inv (seg_start msgs st r)"
    "order_inv env msgs (seg_start msgs st r)"
  using assms by (simp_all add: seg_invs seg_start_def new_batcher_def seg_flights)

lemma seg_reach_invs:
  assumes "keeps_events env (fst ` set msgs)" and "se_table env st = []" and "length msgs \<le> se_total env"
  shows "seg_reach env (seg_start msgs st r) s \<Longrightarrow>
    count_inv msgs s \<and> account_inv env msgs s \<and> engine_inv env msgs r s \<and> caught_inv s \<and> order_inv env msgs s"
proof (induction rule: seg_reach.induct)
  case here
  show ?case by (intro conjI seg_start_invs [OF assms(2)])
next
  case (onwards s1 s2)
  then have i: "count_inv msgs s1" "account_inv env msgs s1" "engine_inv env msgs r s1" "caught_inv s1" "order_inv env msgs s1"
    by simp_all
  note step = onwards.hyps(2)
  have c: "caught_inv s2" by (rule caught_inv_step [OF assms(3) step i(1,4)])
  show ?case
    using count_inv_step [OF step i(1)] account_inv_step [OF assms(1) step i(2)] engine_inv_step [OF step i(3)]
      c order_inv_step [OF assms(1) step i(2,4) c i(5)] by simp
qed

text \<open>
  After a wait that ended by the count, when no flush of the consumer is under way: the engine and the
  store have all the messages, in their order, and nothing but empty flushes is left to the consumer.
\<close>

definition quiet :: "('f, 'r, 's) seg_sys \<Rightarrow> bool" where
  "quiet s \<longleftrightarrow> ss_left s = [] \<and> batch_of s = [] \<and> (ss_cons s = C_Idle \<or> ss_cons s = C_Flush None)"

lemma caught_up_quiet:
  assumes "keeps_events env (fst ` set msgs)" and "se_table env st = []" and "length msgs \<le> se_total env"
    and "seg_reach env (seg_start msgs st r) s" and "ss_main s = M_Finalize" and "ss_caught_up s"
    and "\<forall>batch k. ss_cons s \<noteq> C_Insert batch k"
  shows "quiet s \<and> stored_of env s = map fst msgs \<and> sb_redis (ss_bench s) = engine_fold env (map fst msgs) r"
  using seg_reach_invs [OF assms(1-4)] assms(5-)
  by (auto simp: seg_invs quiet_def main_flight_def seg_flights split: seg_consumer.splits option.splits)

text \<open>From there the comparison is the loop over one store and one state of the engine.\<close>

definition compared_so_far ::
  "('f, 'r, 's) seg_env \<Rightarrow> storefront_event list \<Rightarrow> 'r \<Rightarrow> 'f seg_main \<Rightarrow> 'r \<Rightarrow> bool"
where
  "compared_so_far env evs r m r2 =
     (let loop = (\<lambda>segs c. diff_loop (se_floats env) (se_redis env) (unix_milli_time (se_now env)) evs r2 segs (fst c) (snd c));
          ended = (\<exists>touched. finalize (se_floats env) (se_redis env) (se_segments env)
                     (unix_milli_time (se_now env)) r = (Inr touched, r2))
      in case m of
           M_Finalize \<Rightarrow> r2 = r
         | M_Diff segs c \<Rightarrow> ended \<and> loop (se_segments env) (0, 0) = loop segs c
         | M_Reported c \<Rightarrow> ended \<and> loop (se_segments env) (0, 0) = Inr c
         | M_Fatal e \<Rightarrow> True
         | _ \<Rightarrow> False)"

definition compare_inv ::
  "('f, 'r, 's) seg_env \<Rightarrow> storefront_event list \<Rightarrow> 'r \<Rightarrow> ('f, 'r, 's) seg_sys \<Rightarrow> bool"
where
  "compare_inv env evs r s \<longleftrightarrow>
     quiet s \<and> stored_of env s = evs \<and> compared_so_far env evs r (ss_main s) (sb_redis (ss_bench s))"

lemma compared_so_far_finalize:
  "compared_so_far env evs r M_Finalize (sb_redis b) \<Longrightarrow> finalize_step env b = (m, b1) \<Longrightarrow>
    compared_so_far env evs r m (sb_redis b1)"
  by (auto simp: compared_so_far_def finalize_step_def split: prod.splits sum.splits)

lemma compared_so_far_diff:
  "compared_so_far env (se_table env (bt_store (sb_batcher b))) r (M_Diff (seg # segs) c) (sb_redis b) \<Longrightarrow>
    compared_so_far env (se_table env (bt_store (sb_batcher b))) r (diff_step env b seg segs c) (sb_redis b)"
  by (auto simp: compared_so_far_def diff_step_def split: sum.splits prod.splits)

lemma compared_so_far_simps [simp]:
  "\<not> compared_so_far env evs r M_Wait r2" "\<not> compared_so_far env evs r M_Flush r2"
  "\<not> compared_so_far env evs r (M_Insert b) r2"
  "compared_so_far env evs r (M_Diff [] c) r2 \<Longrightarrow> compared_so_far env evs r (M_Reported c) r2"
  by (auto simp: compared_so_far_def)

lemma compare_inv_step: "seg_step env s s' \<Longrightarrow> compare_inv env evs r s \<Longrightarrow> compare_inv env evs r s'"
  by (erule seg_step.cases)
    (auto simp: compare_inv_def quiet_def swap_batch_def after_flush_def compared_so_far_diff
      dest: finalize_step_main intro: compared_so_far_finalize)

lemma compare_inv_reach: "seg_reach env s s' \<Longrightarrow> compare_inv env evs r s \<Longrightarrow> compare_inv env evs r s'"
  by (induction rule: seg_reach.induct) (auto intro: compare_inv_step)

lemma reported_is_loop:
  assumes "keeps_events env (fst ` set msgs)" and "se_table env st = []" and "length msgs \<le> se_total env"
    and "seg_reach env (seg_start msgs st r) s" and "ss_main s = M_Finalize" and "ss_caught_up s"
    and "\<forall>batch k. ss_cons s \<noteq> C_Insert batch k" and "seg_reach env s s'" and "ss_main s' = M_Reported c"
  shows "\<exists>touched r2. finalize (se_floats env) (se_redis env) (se_segments env) (unix_milli_time (se_now env))
      (engine_fold env (map fst msgs) r) = (Inr touched, r2) \<and>
    diff_loop (se_floats env) (se_redis env) (unix_milli_time (se_now env)) (map fst msgs) r2 (se_segments env) 0 0 = Inr c"
proof -
  have "compare_inv env (map fst msgs) (engine_fold env (map fst msgs) r) s"
    using caught_up_quiet [OF assms(1-7)] assms(5) by (simp add: compare_inv_def compared_so_far_def)
  from compare_inv_reach [OF assms(8) this] assms(9) show ?thesis by (auto simp: compare_inv_def compared_so_far_def)
qed

text \<open>The turns of \<open>run_seg\<close> are paths of these steps.\<close>

abbreviation turn_of ::
  "('f, 'r, 's) seg_env \<Rightarrow> (storefront_event \<times> int) turn \<Rightarrow> ('s, 'r) seg_bench \<Rightarrow> ('s, 'r) seg_bench \<times> bool"
where
  "turn_of env \<equiv> seg_turn (se_floats env) (se_redis env) (se_segments env) (se_insert env) (se_sent_at env)"

lemma flush_path:
  assumes "ss_cons s = C_Flush k"
  shows "seg_reach env s (s\<lparr>ss_bench := (ss_bench s)\<lparr>sb_batcher := flush_bench (se_insert env) (sb_batcher (ss_bench s))\<rparr>,
    ss_cons := after_flush k\<rparr>)" (is "seg_reach env s ?end")
proof -
  obtain batch b where sw: "swap_batch (ss_bench s) = (batch, b)" by fastforce
  let ?s1 = "s\<lparr>ss_bench := b, ss_cons := if batch = [] then after_flush k else C_Insert batch k\<rparr>"
  have one: "seg_reach env s ?s1" by (rule seg_reach.onwards [OF seg_reach.here seg_step.swapped [OF assms sw]])
  show ?thesis
  proof (cases "batch = []")
    case True
    with one sw show ?thesis by (simp add: swap_batch_def flush_bench_def Let_def)
  next
    case False
    have "seg_step env ?s1 (?s1\<lparr>ss_bench := store_batch env batch (ss_bench ?s1), ss_cons := after_flush k\<rparr>)"
      using False by (intro seg_step.inserted) simp
    moreover have "?s1\<lparr>ss_bench := store_batch env batch (ss_bench ?s1), ss_cons := after_flush k\<rparr> = ?end"
      using False sw by (auto simp: swap_batch_def store_batch_def flush_bench_def Let_def)
    ultimately show ?thesis using seg_reach.onwards [OF one] by metis
  qed
qed

lemma tick_path:
  assumes "ss_cons s = C_Idle"
  shows "seg_reach env s (s\<lparr>ss_bench := fst (turn_of env Flush_Due (ss_bench s))\<rparr>)"
proof -
  have "seg_reach env (s\<lparr>ss_cons := C_Flush None\<rparr>) (s\<lparr>ss_bench := fst (turn_of env Flush_Due (ss_bench s))\<rparr>)"
    using flush_path [of "s\<lparr>ss_cons := C_Flush None\<rparr>" None env] assms
    by (cases s) (simp add: seg_turn_def after_flush_def)
  from seg_reach_step [OF seg_step.ticked [OF assms] this] show ?thesis .
qed

lemma event_path:
  assumes "ss_cons s = C_Idle" and "ss_left s = (e, at) # ms"
  shows "seg_reach env s (s\<lparr>ss_left := ms, ss_bench := fst (turn_of env (Arrived (e, at)) (ss_bench s))\<rparr>)"
proof -
  obtain b full where t: "take_event e (ss_bench s) = (b, full)" by fastforce
  let ?s1 = "s\<lparr>ss_left := ms, ss_bench := b, ss_cons := if full then C_Flush (Some (e, at)) else C_Apply e at\<rparr>"
  let ?b2 = "if full then b\<lparr>sb_batcher := flush_bench (se_insert env) (sb_batcher b)\<rparr> else b"
  let ?s2 = "s\<lparr>ss_left := ms, ss_bench := ?b2, ss_cons := C_Apply e at\<rparr>"
  let ?s3 = "s\<lparr>ss_left := ms, ss_bench := apply_step env e ?b2, ss_cons := C_Lag e at\<rparr>"
  let ?s4 = "s\<lparr>ss_left := ms, ss_bench := lag_step env e at (apply_step env e ?b2), ss_cons := C_Count\<rparr>"
  let ?s5 = "s\<lparr>ss_left := ms, ss_bench := count_step (lag_step env e at (apply_step env e ?b2)), ss_cons := C_Idle\<rparr>"
  have r1: "seg_reach env s ?s1" by (rule seg_reach.onwards [OF seg_reach.here seg_step.taken [OF assms t]])
  have "seg_reach env ?s1 ?s2"
    using flush_path [of ?s1 "Some (e, at)" env] seg_reach.here [of env ?s1] by (cases full) (simp_all add: after_flush_def)
  from seg_reach_trans [OF this r1] have r2: "seg_reach env s ?s2" .
  have "seg_step env ?s2 ?s3" using seg_step.applied [of ?s2 e at env] by simp
  moreover have "seg_step env ?s3 ?s4" using seg_step.lagged [of ?s3 e at env] by simp
  moreover have "seg_step env ?s4 ?s5" using seg_step.counted [of ?s4 env] by simp
  ultimately have "seg_reach env s ?s5" using r2 by (rule_tac seg_reach.onwards, rule_tac seg_reach.onwards, rule_tac seg_reach.onwards)
  moreover have "?s5 = s\<lparr>ss_left := ms, ss_bench := fst (turn_of env (Arrived (e, at)) (ss_bench s))\<rparr>"
    using t assms(1) by (cases s) (auto simp: seg_turn_def bench_turn_def seg_parts flush_bench_def)
  ultimately show ?thesis by simp
qed

lemma run_seg_path:
  assumes "list_all (\<lambda>t. t \<noteq> Ended \<and> t \<noteq> Stopped) ts" and "ss_cons s = C_Idle" and "ss_left s = arrivals ts @ ms"
  shows "seg_reach env s (s\<lparr>ss_left := ms, ss_bench := run_seg (se_floats env) (se_redis env) (se_segments env)
    (se_insert env) (se_sent_at env) ts (ss_bench s)\<rparr>)"
  using assms
proof (induction ts arbitrary: s)
  case Nil
  then show ?case using seg_reach.here [of env s] by (cases s) simp
next
  case (Cons t ts)
  show ?case
  proof (cases t)
    case (Arrived m)
    obtain e at where m: "m = (e, at)" by fastforce
    let ?s1 = "s\<lparr>ss_left := arrivals ts @ ms, ss_bench := fst (turn_of env (Arrived (e, at)) (ss_bench s))\<rparr>"
    have "seg_reach env s ?s1" using Cons.prems Arrived m by (intro event_path) simp_all
    with Cons.IH [of ?s1] Cons.prems Arrived m show ?thesis
      using seg_reach_trans [of env ?s1 _ s] by (simp add: seg_turn_def)
  next
    case Flush_Due
    let ?s1 = "s\<lparr>ss_bench := fst (turn_of env Flush_Due (ss_bench s))\<rparr>"
    have "seg_reach env s ?s1" using Cons.prems by (intro tick_path) simp
    with Cons.IH [of ?s1] Cons.prems Flush_Due show ?thesis
      using seg_reach_trans [of env ?s1 _ s] by (simp add: seg_turn_def)
  qed (use Cons.prems in simp_all)
qed

text \<open>Without a step of the consumer in between, main reports what the loop over its store and engine returns.\<close>

lemma compare_path:
  assumes "diff_loop (se_floats env) (se_redis env) (unix_milli_time (se_now env)) (stored_of env s)
      (sb_redis (ss_bench s)) segs (fst c) (snd c) = Inr c'" and "ss_main s = M_Diff segs c"
  shows "seg_reach env s (s\<lparr>ss_main := M_Reported c'\<rparr>)"
  using assms
proof (induction segs arbitrary: s c)
  case Nil
  then have "c' = c" by simp
  with seg_reach.onwards [OF seg_reach.here seg_step.reported [OF Nil(2)]] show ?case by simp
next
  case (Cons seg segs)
  from Cons.prems(1) obtain d where
    d: "diff_segment (se_floats env) (se_redis env) (unix_milli_time (se_now env)) (stored_of env s)
          (sb_redis (ss_bench s)) seg = Inr d" and
    rest: "diff_loop (se_floats env) (se_redis env) (unix_milli_time (se_now env)) (stored_of env s)
          (sb_redis (ss_bench s)) segs (fst (count_diff d c)) (snd (count_diff d c)) = Inr c'"
    by (auto split: sum.splits prod.splits)
  let ?s1 = "s\<lparr>ss_main := M_Diff segs (count_diff d c)\<rparr>"
  have "seg_step env s ?s1" using seg_step.compared [OF Cons.prems(2), of env] d by (simp add: diff_step_def)
  moreover have "seg_reach env ?s1 (?s1\<lparr>ss_main := M_Reported c'\<rparr>)" by (rule Cons.IH) (use rest in simp_all)
  ultimately show ?case using seg_reach_step by fastforce
qed

lemma report_path:
  assumes "ss_main s = M_Finalize"
    and "finalize (se_floats env) (se_redis env) (se_segments env) (unix_milli_time (se_now env)) (sb_redis (ss_bench s)) =
      (Inr touched, r2)"
    and "diff_loop (se_floats env) (se_redis env) (unix_milli_time (se_now env)) (stored_of env s) r2
      (se_segments env) 0 0 = Inr c"
  shows "seg_reach env s (s\<lparr>ss_bench := (ss_bench s)\<lparr>sb_redis := r2\<rparr>, ss_main := M_Reported c\<rparr>)"
proof -
  let ?b = "(ss_bench s)\<lparr>sb_redis := r2\<rparr>"
  let ?s1 = "s\<lparr>ss_bench := ?b, ss_main := M_Diff (se_segments env) (0, 0)\<rparr>"
  have "finalize_step env (ss_bench s) = (M_Diff (se_segments env) (0, 0), ?b)"
    using assms(2) by (simp add: finalize_step_def)
  from seg_step.finalized [OF assms(1) this] have "seg_step env s ?s1" .
  moreover have "seg_reach env ?s1 (?s1\<lparr>ss_main := M_Reported c\<rparr>)"
    by (rule compare_path [where c = "(0, 0)"]) (use assms(3) in simp_all)
  ultimately show ?thesis using seg_reach_step by fastforce
qed

text \<open>When the consumer is in an insert as main starts Finalize, the store lacks exactly the events of that insert.\<close>

lemma caught_up_shortfall:
  assumes "keeps_events env (fst ` set msgs)" and "se_table env st = []" and "length msgs \<le> se_total env"
    and "seg_reach env (seg_start msgs st r) s" and "ss_main s = M_Finalize" and "ss_caught_up s"
    and "ss_cons s = C_Insert batch k"
  shows "map fst msgs = stored_of env s @ batch \<and> sb_redis (ss_bench s) = engine_fold env (map fst msgs) r"
  using seg_reach_invs [OF assms(1-4)] assms(5-)
  by (auto simp: seg_invs seg_flights split: option.splits)

section \<open>Properties\<close>

text \<open>
  The benchmark as it runs, over any corpus with whole-second timestamps after 1970 and before 2255:
  whatever the interleaving of the workers, the partition readers, the consumer and main, when main
  caught up and the consumer is not in an insert at the moment main starts Finalize, no insert was
  refused and no engine call failed, the store then has every event and a report counts every segment
  exact, whatever the consumer's timer does meanwhile.
\<close>

theorem segment_report_exact:
  assumes rnd: "rand_ok rnd" and built: "build_storefront rnd fl profiles avg days now r0 = Some ps"
    and seconds: "list_all (\<lambda>e. 0 < ev_timestamp_ms e \<and> ev_timestamp_ms e mod 1000 = 0) (flatten_profiles ps)"
    and range: "sim_now ps < 9 * 10 ^ 12" and fits: "length (flatten_profiles ps) < 2 ^ 63"
    and sent: "merge_of (map (shard_events ps) [0..<send_workers]) sent"
    and topic: "through_topic m u part wr logs broker tp n k sent str" and msgs: "map fst msgs = map snd (st_out str)"
    and env: "se_total env = length (flatten_profiles ps)" "se_now env = sim_now ps"
    and store: "keeps_events env (fst ` set msgs)" and empty: "se_table env st = []"
    and redis: "redis_ok (se_redis env) view" and fresh: "view r = empty_data"
    and ids: "distinct (map seg_id (se_segments env))"
    and applied: "apply_events (se_floats env) (se_redis env) (se_segments env) (map fst msgs) r = (None, r1)"
    and conds: "\<And>seg pe. seg \<in> set (se_segments env) \<Longrightarrow> pe \<in> set ps \<Longrightarrow>
      family_cond (se_floats env) seg (sim_now ps) (pe_events pe)"
    and none: "\<And>seg. seg \<in> set (se_segments env) \<Longrightarrow> family_cond (se_floats env) seg (sim_now ps) []"
    and run: "seg_reach env (seg_start msgs st r) s" and main: "ss_main s = M_Finalize" and caught: "ss_caught_up s"
    and idle: "\<forall>batch c. ss_cons s \<noteq> C_Insert batch c"
    and rest: "seg_reach env s s'" and report: "ss_main s' = M_Reported (exact, mismatch)"
  shows "exact = length (se_segments env) \<and> mismatch = 0 \<and>
    se_table env (bt_store (sb_batcher (ss_bench s))) = map fst msgs"
proof -
  have "length (map fst msgs) = length sent"
    using merge_of_mset [OF through_topic_merges(1) [OF topic sent_distinct [OF rnd built sent]]]
      through_topic_merges(2) [OF topic sent_distinct [OF rnd built sent]] msgs
    by (metis mset_eq_length mset_topic_logs)
  moreover have "length sent = length (flatten_profiles ps)"
    using merge_of_mset [OF sent] shard_events_cover [of ps] by (metis mset_eq_length)
  ultimately have len: "length msgs \<le> se_total env" using env(1) by simp
  have "engine_fold env (map fst msgs) r = r1" using apply_events_fold [OF applied] by simp
  with reported_is_loop [OF store empty len run main caught idle rest report] env(2) obtain touched r2 where
    "finalize (se_floats env) (se_redis env) (se_segments env) (unix_milli_time (sim_now ps)) r1 = (Inr touched, r2)"
    "diff_loop (se_floats env) (se_redis env) (unix_milli_time (sim_now ps)) (map fst msgs) r2 (se_segments env) 0 0 =
       Inr (exact, mismatch)"
    by auto
  from verdict_exact [OF rnd built seconds range fits sent topic msgs redis fresh ids applied conds none this]
    caught_up_quiet [OF store empty len run main caught idle]
  show ?thesis by simp
qed

definition demo_env :: "(int, mem_store, storefront_event list) seg_env" where
  "demo_env = \<lparr>se_floats = demo_floats, se_redis = mem_redis, se_segments = [demo_seg NeverPurchased],
     se_insert = (\<lambda>ms s. (None, s @ ms)), se_table = (\<lambda>s. s), se_sent_at = (\<lambda>_. Some 0), se_total = 1, se_now = 5000\<rparr>"

lemma demo_env_simps [simp]:
  "se_floats demo_env = demo_floats" "se_redis demo_env = mem_redis" "se_segments demo_env = [demo_seg NeverPurchased]"
  "se_insert demo_env = (\<lambda>ms s. (None, s @ ms))" "se_table demo_env = (\<lambda>s. s)" "se_sent_at demo_env = (\<lambda>_. Some 0)"
  "se_total demo_env = 1" "se_now demo_env = 5000"
  by (simp_all add: demo_env_def)

text \<open>Its runs depend on the insert only through the batch of the one event.\<close>

definition demo_like :: "(int, mem_store, storefront_event list) seg_env \<Rightarrow> bool" where
  "demo_like env \<longleftrightarrow> se_floats env = demo_floats \<and> se_redis env = mem_redis \<and>
     se_segments env = [demo_seg NeverPurchased] \<and> se_table env = (\<lambda>s. s) \<and> se_sent_at env = (\<lambda>_. Some 0) \<and>
     se_total env = 1 \<and> se_now env = 5000 \<and>
     (\<forall>s. snd (se_insert env [demo_bench_event] s) = s @ [demo_bench_event])"

lemma demo_like_demo_env: "demo_like demo_env"
  by (simp add: demo_like_def)

text \<open>The one event taken, applied and counted; it is still in the batch.\<close>

definition demo_counted :: "mem_store \<Rightarrow> (int, mem_store, storefront_event list) seg_sys" where
  "demo_counted r1 =
     \<lparr>ss_left = [], ss_bench = \<lparr>sb_batcher = \<lparr>bt_batch = [demo_bench_event], bt_store = [], bt_consumed = 1\<rparr>,
        sb_redis = r1, sb_lags = [3]\<rparr>, ss_cons = C_Idle, ss_main = M_Wait, ss_caught_up = False\<rparr>"

lemma demo_counted_reached:
  assumes "demo_like env"
  shows "seg_reach env (seg_start [(demo_bench_event, 3000000)] [] empty_store)
     (demo_counted (snd (apply_event demo_floats mem_redis [demo_seg NeverPurchased] demo_bench_event empty_store)))"
  using run_seg_path [of "[Arrived (demo_bench_event, 3000000)]" "seg_start [(demo_bench_event, 3000000)] [] empty_store" "[]" env]
    assms
  by (simp add: demo_like_def seg_start_def demo_counted_def seg_turn_def bench_turn_def bench_batch_size_def new_batcher_def duration_ms_def)

text \<open>Main's own flush stores the batch, or finds it taken by the consumer's timer and compares at once.\<close>

definition demo_flushed :: "mem_store \<Rightarrow> (int, mem_store, storefront_event list) seg_sys" where
  "demo_flushed r1 = (demo_counted r1)\<lparr>ss_bench := \<lparr>sb_batcher = \<lparr>bt_batch = [], bt_store = [demo_bench_event],
     bt_consumed = 1\<rparr>, sb_redis = r1, sb_lags = [3]\<rparr>, ss_main := M_Finalize, ss_caught_up := True\<rparr>"

definition demo_racing :: "mem_store \<Rightarrow> (int, mem_store, storefront_event list) seg_sys" where
  "demo_racing r1 = (demo_counted r1)\<lparr>ss_bench := \<lparr>sb_batcher = \<lparr>bt_batch = [], bt_store = [], bt_consumed = 1\<rparr>,
     sb_redis = r1, sb_lags = [3]\<rparr>, ss_cons := C_Insert [demo_bench_event] None, ss_main := M_Finalize,
     ss_caught_up := True\<rparr>"

lemma demo_flushed_reached:
  assumes "demo_like env"
  shows "seg_reach env (demo_counted r1) (demo_flushed r1)"
proof -
  let ?s0 = "demo_counted r1"
  let ?s1 = "?s0\<lparr>ss_main := M_Flush, ss_caught_up := True\<rparr>"
  let ?b = "\<lparr>sb_batcher = \<lparr>bt_batch = [], bt_store = [], bt_consumed = 1\<rparr>, sb_redis = r1, sb_lags = [3]\<rparr>"
  let ?s2 = "?s1\<lparr>ss_bench := ?b, ss_main := M_Insert [demo_bench_event]\<rparr>"
  have "seg_step env ?s0 ?s1" by (rule seg_step.caught_up) (use assms in \<open>simp_all add: demo_like_def demo_counted_def\<close>)
  moreover have "seg_step env ?s1 ?s2"
    using seg_step.main_swapped [of ?s1 "[demo_bench_event]" ?b env] by (simp add: demo_counted_def swap_batch_def)
  moreover have "seg_step env ?s2 (demo_flushed r1)"
    using seg_step.main_inserted [of ?s2 "[demo_bench_event]" env] assms
    by (simp add: demo_like_def demo_counted_def demo_flushed_def store_batch_def)
  ultimately show ?thesis by (meson seg_reach.here seg_reach_step)
qed

lemma demo_racing_reached:
  assumes "demo_like env"
  shows "seg_reach env (demo_counted r1) (demo_racing r1)"
proof -
  let ?s0 = "demo_counted r1"
  let ?s1 = "?s0\<lparr>ss_cons := C_Flush None\<rparr>"
  let ?b = "\<lparr>sb_batcher = \<lparr>bt_batch = [], bt_store = [], bt_consumed = 1\<rparr>, sb_redis = r1, sb_lags = [3]\<rparr>"
  let ?s2 = "?s1\<lparr>ss_bench := ?b, ss_cons := C_Insert [demo_bench_event] None\<rparr>"
  let ?s3 = "?s2\<lparr>ss_main := M_Flush, ss_caught_up := True\<rparr>"
  have "seg_step env ?s0 ?s1" by (rule seg_step.ticked) (simp add: demo_counted_def)
  moreover have "seg_step env ?s1 ?s2"
    using seg_step.swapped [of ?s1 None "[demo_bench_event]" ?b env] by (simp add: demo_counted_def swap_batch_def)
  moreover have "seg_step env ?s2 ?s3" by (rule seg_step.caught_up) (use assms in \<open>simp_all add: demo_like_def demo_counted_def\<close>)
  moreover have "seg_step env ?s3 (demo_racing r1)"
    using seg_step.main_swapped [of ?s3 "[]" ?b env]
    by (simp add: demo_counted_def demo_racing_def swap_batch_def)
  ultimately show ?thesis by (meson seg_reach.here seg_reach_step)
qed

lemma demo_bench_event_fields:
  "event_type demo_bench_event = ''page_view''" "ev_timestamp_ms demo_bench_event = 5000"
  by (simp_all add: demo_bench_event_def)

lemma demo_recompute:
  "recompute demo_floats (demo_seg NeverPurchased) (unix_milli_time 5000) [] = Inr {}"
  "recompute demo_floats (demo_seg NeverPurchased) (unix_milli_time 5000) [demo_bench_event] = Inr {profile_id demo_bench_event}"
  by (auto simp: recompute.simps demo_seg_def blank_segment_def demo_bench_event_fields unix_milli_time_def group_having_def)

lemma demo_members:
  assumes "finalize demo_floats mem_redis [demo_seg NeverPurchased] (unix_milli_time 5000)
      (snd (apply_event demo_floats mem_redis [demo_seg NeverPurchased] demo_bench_event empty_store)) = (Inr touched, r2)"
  shows "members_of mem_redis ''s'' r2 = Inr {profile_id demo_bench_event}"
proof -
  obtain r1 where r1: "apply_events demo_floats mem_redis [demo_seg NeverPurchased] [demo_bench_event] empty_store = (None, r1)"
    using mem_apply_events by blast
  then have "finalize demo_floats mem_redis [demo_seg NeverPurchased] (unix_milli_time 5000) r1 = (Inr touched, r2)"
    using assms apply_events_fold [OF r1] by simp
  from finalize_members(2) [OF mem_redis_ok _ mem_view_empty r1 this _ demo_recompute(2)]
  have "rd_sets (mem_view r2) (member_key ''s'') = {profile_id demo_bench_event}"
    by (auto simp: demo_seg_def blank_segment_def comparable_def events_of_def in_order_def int64_def family_cond_def
        demo_bench_event_fields)
  then show ?thesis by (simp add: members_of_def mem_redis_def mem_view_simps)
qed

text \<open>What main reports for a store with and without the event.\<close>

lemma demo_report:
  fixes evs :: "storefront_event list"
  assumes like: "demo_like env" and "evs = [] \<or> evs = [demo_bench_event]"
    and "ss_main s = M_Finalize" and "bt_store (sb_batcher (ss_bench s)) = evs"
    and "sb_redis (ss_bench s) =
      snd (apply_event demo_floats mem_redis [demo_seg NeverPurchased] demo_bench_event empty_store)"
  shows "\<exists>r2. seg_reach env s (s\<lparr>ss_bench := (ss_bench s)\<lparr>sb_redis := r2\<rparr>,
    ss_main := M_Reported (if evs = [] then (0, 1) else (1, 0))\<rparr>)"
proof -
  obtain touched r2 where fin: "finalize demo_floats mem_redis [demo_seg NeverPurchased] (unix_milli_time 5000)
      (snd (apply_event demo_floats mem_redis [demo_seg NeverPurchased] demo_bench_event empty_store)) = (Inr touched, r2)"
    using mem_finalize by blast
  have "seg_id (demo_seg NeverPurchased) = ''s''" by (simp add: demo_seg_def blank_segment_def)
  then have "diff_loop demo_floats mem_redis (unix_milli_time 5000) evs r2 [demo_seg NeverPurchased] 0 0 =
      Inr (if evs = [] then (0, 1) else (1, 0))"
    using assms(2) demo_members [OF fin] demo_recompute
    by (auto simp: diff_segment_def count_diff_def diff_exact_def diff_sets_def)
  with report_path [of s env touched r2] fin assms show ?thesis by (auto simp: demo_like_def)
qed

text \<open>
  The comparison can come too early: every event is counted as consumed and main has flushed, but the
  batch the consumer's timer took is still being inserted, and the report counts a mismatch that the
  same events in the store would not give.
\<close>

theorem comparison_misses_flight:
  "\<exists>s s'. seg_reach demo_env (seg_start [(demo_bench_event, 3000000)] [] empty_store) s \<and>
     ss_main s = M_Finalize \<and> ss_caught_up s \<and> bt_consumed (sb_batcher (ss_bench s)) = se_total demo_env \<and>
     bt_store (sb_batcher (ss_bench s)) = [] \<and> seg_reach demo_env s s' \<and> ss_main s' = M_Reported (0, 1)"
proof -
  let ?r1 = "snd (apply_event demo_floats mem_redis [demo_seg NeverPurchased] demo_bench_event empty_store)"
  have fields: "ss_main (demo_racing ?r1) = M_Finalize" "ss_caught_up (demo_racing ?r1)"
    "bt_consumed (sb_batcher (ss_bench (demo_racing ?r1))) = se_total demo_env"
    "bt_store (sb_batcher (ss_bench (demo_racing ?r1))) = []" "sb_redis (ss_bench (demo_racing ?r1)) = ?r1"
    by (simp_all add: demo_racing_def)
  from demo_report [OF demo_like_demo_env disjI1 [OF refl] fields(1,4,5)] obtain r2 where
    "seg_reach demo_env (demo_racing ?r1) ((demo_racing ?r1)\<lparr>ss_bench := (ss_bench (demo_racing ?r1))\<lparr>sb_redis := r2\<rparr>,
       ss_main := M_Reported (0, 1)\<rparr>)" by auto
  with fields(1-4) seg_reach_trans [OF demo_racing_reached demo_counted_reached, OF demo_like_demo_env demo_like_demo_env] show ?thesis
    by (intro exI conjI) (assumption | simp)+
qed

theorem segment_report_exact_witness:
  "\<exists>s s' x y. seg_reach demo_env (seg_start [(demo_bench_event, 3000000)] [] empty_store) s \<and>
     seg_reach demo_env s s' \<and> ss_main s' = M_Reported (x, y) \<and> x = 1 \<and> y = 0 \<and>
     bt_store (sb_batcher (ss_bench s)) = [demo_bench_event]"
proof -
  let ?r1 = "snd (apply_event demo_floats mem_redis [demo_seg NeverPurchased] demo_bench_event empty_store)"
  let ?s = "demo_flushed ?r1" and ?msgs = "[(demo_bench_event, 3000000 :: int)]"
  have flat: "flatten_profiles demo_bench_corpus = [demo_bench_event]"
    by (simp add: flatten_profiles_def demo_bench_corpus_def)
  have now: "sim_now demo_bench_corpus = 5000" by (simp add: sim_now_flat flat demo_bench_event_fields)
  obtain r1 where r1: "apply_events (se_floats demo_env) (se_redis demo_env) (se_segments demo_env)
      (map fst ?msgs) empty_store = (None, r1)" unfolding demo_env_simps using mem_apply_events by blast
  have run: "seg_reach demo_env (seg_start ?msgs [] empty_store) ?s"
    by (rule seg_reach_trans [OF demo_flushed_reached demo_counted_reached, OF demo_like_demo_env demo_like_demo_env])
  have fields: "ss_main ?s = M_Finalize" "ss_caught_up ?s" "bt_store (sb_batcher (ss_bench ?s)) = [demo_bench_event]"
    "sb_redis (ss_bench ?s) = ?r1" "\<forall>batch c. ss_cons ?s \<noteq> C_Insert batch c"
    by (simp_all add: demo_flushed_def demo_counted_def)
  from demo_report [OF demo_like_demo_env disjI2 [OF refl] fields(1,3,4)] obtain s' x y where
    rest: "seg_reach demo_env ?s s'" and rep: "ss_main s' = M_Reported (x, y)" by fastforce
  have store: "keeps_events demo_env (fst ` set ?msgs)" by (simp add: keeps_within_def)
  have msgs: "map fst ?msgs = map snd (st_out demo_stream)" by (simp add: demo_stream_def)
  have "x = length (se_segments demo_env) \<and> y = 0 \<and>
      se_table demo_env (bt_store (sb_batcher (ss_bench ?s))) = map fst ?msgs"
    using segment_report_exact [where env = demo_env and view = mem_view and r = empty_store, OF scripted_rand_ok demo_bench_built _ _ _ demo_bench_sent demo_bench_topic msgs _ _ store _
        _ mem_view_empty _ r1 _ _ run fields(1,2,5) rest rep]
    by (auto simp: flat now demo_bench_event_fields family_cond_def demo_seg_def blank_segment_def mem_redis_ok)
  with run rest rep show ?thesis by auto
qed

end
