(* ===== verification/Segment_Server.thy ===== *)
theory Segment_Server
  imports ClickHouse_Server
begin

text \<open>
  The server behind internal/segment/clickhouse.go: how it reads the rows of an INSERT, attributes
  included, what the statements of the store mean on the table of events, and the law of a server that
  executes them.
\<close>

section \<open>Reading an INSERT back\<close>

text \<open>An object of strings with any keys, in their order; every pair takes at least one character.\<close>

fun read_pairs :: "nat \<Rightarrow> char \<Rightarrow> string \<Rightarrow> ((string \<times> string) list \<times> string) option" where
  "read_pairs 0 sep t = None"
| "read_pairs (Suc fuel) sep t =
     (case strip_prefix [sep, quote] t of
        None \<Rightarrow> None
      | Some t1 \<Rightarrow>
          (case json_unescape t1 of
             None \<Rightarrow> None
           | Some (k, t2) \<Rightarrow>
               (case strip_prefix [CHR '':'', quote] t2 of
                  None \<Rightarrow> None
                | Some t3 \<Rightarrow>
                    (case json_unescape t3 of
                       Some (v, c # t4) \<Rightarrow>
                         (if c = CHR ''}'' then Some ([(k, v)], t4)
                          else map_option (apfst (Cons (k, v))) (read_pairs fuel CHR '','' (c # t4)))
                     | _ \<Rightarrow> None))))"

text \<open>A null in the column of a Map is its default, the map without entries.\<close>

definition read_attributes :: "string \<Rightarrow> ((string \<times> string) list \<times> string) option" where
  "read_attributes t =
     (case strip_prefix ''null'' t of Some r \<Rightarrow> Some ([], r) | None \<Rightarrow> read_pairs (length t) CHR ''{'' t)"

definition event_names :: "string list" where
  "event_names = [''event_id'', ''profile_id'', ''event_type'', ''timestamp'']"

definition attributes_key :: string where
  "attributes_key = CHR '','' # json_string ''attributes'' @ '':''"

definition read_event :: "string \<Rightarrow> (storefront_event \<times> string) option" where
  "read_event t =
     (case read_fields CHR ''{'' event_names t of
        Some ([i, p, ty, ts], t1) \<Rightarrow>
          (case strip_prefix attributes_key t1 of
             None \<Rightarrow> None
           | Some t2 \<Rightarrow>
               (case (read_attributes t2, read_time_ms ts) of
                  (Some (attrs, c # d # r), Some ms) \<Rightarrow>
                    (if c = CHR ''}'' \<and> d = CHR 0x0A
                     then Some (\<lparr>event_id = i, profile_id = p, event_type = ty, ev_timestamp_ms = ms,
                                 attributes = attrs\<rparr>, r)
                     else None)
                | _ \<Rightarrow> None))
      | _ \<Rightarrow> None)"

text \<open>The rows of an INSERT, one object to a line; at most one row for each character of the text.\<close>

fun read_events :: "nat \<Rightarrow> string \<Rightarrow> storefront_event list option" where
  "read_events fuel [] = Some []"
| "read_events 0 t = None"
| "read_events (Suc fuel) t =
     (case read_event t of
        None \<Rightarrow> None
      | Some (e, r) \<Rightarrow> map_option (Cons e) (read_events fuel r))"

text \<open>
  Events whose texts are UTF-8, with a time between 1970 and 9999 and the attributes in the order of
  their keys, as they are written.
\<close>

definition storable_event :: "storefront_event \<Rightarrow> bool" where
  "storable_event e \<longleftrightarrow> utf8_ok (event_id e) \<and> utf8_ok (profile_id e) \<and> utf8_ok (event_type e) \<and>
     0 \<le> ev_timestamp_ms e \<and> ev_timestamp_ms e < 253402300800000 \<and>
     sorted (map fst (attributes e)) \<and> list_all (\<lambda>kv. utf8_ok (fst kv) \<and> utf8_ok (snd kv)) (attributes e)"

lemma read_pairs_json:
  "list_all (\<lambda>kv. utf8_ok (fst kv) \<and> utf8_ok (snd kv)) kvs \<Longrightarrow> kvs \<noteq> [] \<Longrightarrow> length kvs \<le> fuel \<Longrightarrow>
    read_pairs fuel sep (json_fields sep (map (apsnd json_string) kvs) @ CHR ''}'' # t) = Some (kvs, t)"
proof (induction kvs arbitrary: sep fuel)
  case (Cons kv kvs)
  obtain k v where kv: "kv = (k, v)" by (cases kv)
  obtain f where f: "fuel = Suc f" using Cons.prems(3) by (cases fuel) auto
  let ?rest = "json_fields CHR '','' (map (apsnd json_string) kvs) @ CHR ''}'' # t"
  have whole: "json_fields sep (map (apsnd json_string) (kv # kvs)) @ CHR ''}'' # t =
      [sep, quote] @ json_chars k @ quote # [CHR '':'', quote] @ json_chars v @ quote # ?rest"
    by (simp add: kv json_string_def)
  have k: "json_unescape (json_chars k @ quote # u) = Some (k, u)"
    and v: "json_unescape (json_chars v @ quote # u) = Some (v, u)" for u
    using Cons.prems(1) by (simp_all add: kv json_unescape_chars)
  show ?case
  proof (cases kvs)
    case Nil
    then show ?thesis unfolding whole f read_pairs.simps strip_prefix_append
      by (simp add: k v kv del: strip_prefix.simps append.simps) (simp add: k v)
  next
    case (Cons kv1 kvs1)
    obtain k1 v1 where kv1: "kv1 = (k1, v1)" by (cases kv1)
    have "read_pairs f CHR '','' ?rest = Some (kvs, t)" using Cons.IH Cons.prems Cons f by simp
    then show ?thesis unfolding whole f read_pairs.simps strip_prefix_append
      by (simp add: k v kv Cons kv1)
  qed
qed simp

lemma read_attributes_json:
  assumes "sorted (map fst kvs)" and "list_all (\<lambda>kv. utf8_ok (fst kv) \<and> utf8_ok (snd kv)) kvs"
  shows "read_attributes (attributes_json kvs @ CHR ''}'' # t) = Some (kvs, CHR ''}'' # t)"
proof (cases "kvs = []")
  case True
  then show ?thesis by (simp add: read_attributes_def attributes_json_def)
next
  case False
  let ?obj = "json_fields CHR ''{'' (map (apsnd json_string) kvs) @ CHR ''}'' # CHR ''}'' # t"
  have obj: "attributes_json kvs @ CHR ''}'' # t = ?obj"
    using False assms(1) by (simp add: attributes_json_def json_object_def sort_key_id_if_sorted)
  obtain k v r where "kvs = (k, v) # r" using False by (cases kvs) auto
  then have "strip_prefix ''null'' ?obj = None" by simp
  moreover have "length kvs \<le> length ?obj"
  proof -
    have "length kvs \<le> length (json_fields sep (map (apsnd json_string) kvs))" for sep
    proof (induction kvs arbitrary: sep)
      case (Cons kv kvs)
      from Cons [of "CHR '',''"] show ?case by (cases kv) simp
    qed simp
    then show ?thesis by (metis length_append trans_le_add1)
  qed
  ultimately show ?thesis
    unfolding read_attributes_def obj using read_pairs_json [OF assms(2) False]
    by (simp del: read_pairs.simps)
qed

text \<open>Round trip of a row and of a batch: the server reads the events the client encoded.\<close>

lemma read_event_row:
  assumes "storable_event e"
  shows "read_event (event_row e @ nl @ t) = Some (e, t)"
proof -
  let ?fields = "[(''event_id'', event_id e), (''profile_id'', profile_id e), (''event_type'', event_type e),
      (''timestamp'', time_text_ms (ev_timestamp_ms e))]"
  let ?tail = "attributes_json (attributes e) @ CHR ''}'' # nl @ t"
  have row: "event_row e @ nl @ t = json_fields CHR ''{'' (map (apsnd json_string) ?fields) @ attributes_key @ ?tail"
    by (simp add: event_row_def json_object_def attributes_key_def)
  have "read_fields CHR ''{'' event_names (event_row e @ nl @ t) = Some (map snd ?fields, attributes_key @ ?tail)"
    unfolding row using read_fields_json [of ?fields "CHR ''{''" "attributes_key @ ?tail"] assms utf8_ok_time_text
    by (simp add: event_names_def storable_event_def)
  moreover have "read_time_ms (time_text_ms (ev_timestamp_ms e)) = Some (ev_timestamp_ms e)"
    using assms by (intro read_time_text_ms) (simp_all add: storable_event_def)
  moreover have "read_attributes ?tail = Some (attributes e, CHR ''}'' # nl @ t)"
    using assms by (intro read_attributes_json) (simp_all add: storable_event_def)
  ultimately show ?thesis by (cases e) (simp add: read_event_def)
qed

lemma read_events_encode:
  assumes "\<forall>e \<in> set es. storable_event e" and "length es \<le> fuel"
  shows "read_events fuel (encode_rows event_row es) = Some es"
  using assms
proof (induction es arbitrary: fuel)
  case (Cons e es)
  then obtain f where f: "fuel = Suc f" by (cases fuel) auto
  have "event_row e @ nl @ encode_rows event_row es \<noteq> []" by simp
  then obtain c cs where "event_row e @ nl @ encode_rows event_row es = c # cs" by (meson neq_Nil_conv)
  with Cons f show ?case
    using read_event_row [of e "encode_rows event_row es"] by (simp add: encode_rows_def)
qed (simp add: encode_rows_def)

section \<open>The meaning of the statements\<close>

definition insert_events_prefix :: string where
  "insert_events_prefix = ''INSERT INTO events FORMAT JSONEachRow'' @ nl"

definition segment_count_sql :: string where
  "segment_count_sql = ''SELECT count() AS c FROM events'' @ json_each_row"

definition distinct_profiles_sql :: string where
  "distinct_profiles_sql = ''SELECT uniqExact(profile_id) AS c FROM events'' @ json_each_row"

definition truncate_table_sql :: string where
  "truncate_table_sql = ''TRUNCATE TABLE IF EXISTS events''"

definition seg_meaning :: "string \<Rightarrow> storefront_event list \<Rightarrow> (ch_row list \<times> storefront_event list) option" where
  "seg_meaning sql T =
     (if sql = events_table_ddl then Some ([], T)
      else if sql = truncate_table_sql then Some ([], [])
      else if sql = segment_count_sql then Some ([count_row (length T)], T)
      else if sql = distinct_profiles_sql then Some ([count_row (length (remdups (map profile_id T)))], T)
      else
        (case strip_prefix insert_events_prefix sql of
           None \<Rightarrow> None
         | Some t \<Rightarrow> map_option (\<lambda>es. ([], T @ es)) (read_events (length t) t)))"

lemmas segment_texts = events_table_ddl_def truncate_table_sql_def segment_count_sql_def distinct_profiles_sql_def
  insert_events_prefix_def

lemma seg_meaning_ddl: "seg_meaning events_table_ddl T = Some ([], T)"
  by (simp add: seg_meaning_def)

lemma seg_meaning_truncate: "seg_meaning truncate_table_sql T = Some ([], [])"
  by (simp add: seg_meaning_def segment_texts)

lemma seg_meaning_insert:
  assumes "\<forall>e \<in> set es. storable_event e"
  shows "seg_meaning (insert_events_prefix @ encode_rows event_row es) T = Some ([], T @ es)"
proof -
  have "read_events (length (encode_rows event_row es)) (encode_rows event_row es) = Some es"
    using assms length_encode_rows by (rule read_events_encode)
  then show ?thesis
    unfolding seg_meaning_def strip_prefix_append option.case
    by (simp add: segment_texts)
qed

text \<open>
  The law: an accepted statement has its meaning, any other outcome leaves the table as it was or as
  the statement makes it.
\<close>

definition seg_executes :: "('s, 'b) server \<Rightarrow> ('s \<Rightarrow> storefront_event list) \<Rightarrow> ('b \<Rightarrow> ch_row list) \<Rightarrow> bool" where
  "seg_executes srv tab view \<longleftrightarrow>
     (\<forall>sql s b s'. srv sql s = (Response 200 (Inr b), s') \<longrightarrow> seg_meaning sql (tab s) = Some (view b, tab s')) \<and>
     (\<forall>sql s r s'. srv sql s = (r, s') \<longrightarrow> tab s' = tab s \<or> (\<exists>rows. seg_meaning sql (tab s) = Some (rows, tab s')))"

lemma seg_exec_ok:
  assumes "seg_executes srv tab view" and "ch_exec env srv sql s = (None, s')"
  shows "\<exists>rows. seg_meaning sql (tab s) = Some (rows, tab s')"
  using assms
  by (auto simp: ch_exec_def ch_raw_def seg_executes_def Let_def split: prod.splits sum.splits option.splits
      http_outcome.splits if_splits)

lemma segment_schema_same:
  assumes "seg_executes srv tab view" and "segment_ensure_schema env srv s = (None, s')"
  shows "tab s' = tab s"
  using seg_exec_ok [OF assms(1)] assms(2) by (fastforce simp: segment_ensure_schema_def seg_meaning_ddl)

lemma truncate_events_empty:
  assumes "seg_executes srv tab view" and "truncate_events env srv s = (None, s')"
  shows "tab s' = []"
  using seg_exec_ok [OF assms(1)] assms(2)
  by (fastforce simp: truncate_events_def seg_meaning_truncate simp flip: truncate_table_sql_def)

lemma insert_events_appends:
  assumes "seg_executes srv tab view" and "\<forall>e \<in> set es. storable_event e"
    and "insert_events env srv es s = (None, s')"
  shows "tab s' = tab s @ es"
proof (cases "es = []")
  case False
  with assms(3) have "ch_exec env srv (insert_events_prefix @ encode_rows event_row es) s = (None, s')"
    by (simp add: insert_events_def insert_events_prefix_def)
  from seg_exec_ok [OF assms(1) this] show ?thesis by (simp add: seg_meaning_insert [OF assms(2)])
qed (use assms(3) in \<open>simp add: insert_events_def\<close>)

end
