(* ===== verification/Segment_Setup.thy ===== *)
theory Segment_Setup
  imports Segment_Run Segment_Server
begin

text \<open>
  cmd/segmentbench from its first call to its verdict: the database of Redis and the table of ClickHouse
  are emptied, whatever earlier runs left, a topic of its own is created, and then the run compares
  what the texts sent to ClickHouse made of the table with the sets in Redis.
\<close>

section \<open>Model\<close>

text \<open>The default topic gets the time of the start appended.\<close>

definition segment_run_topic :: "string \<Rightarrow> int \<Rightarrow> string" where
  "segment_run_topic flag nanos =
     (if flag = ''storefront-events'' then ''storefront-events-'' @ fmt_d nanos else flag)"

text \<open>The command's own copy of EnsureTopic.\<close>

definition segment_ensure_topic :: "cluster_view \<Rightarrow> string \<Rightarrow> string \<Rightarrow> int \<Rightarrow> goerror option" where
  "segment_ensure_topic cv broker topic partitions =
     (case cv_dial cv broker of
        Some e \<Rightarrow> Some e
      | None \<Rightarrow>
          (case cv_controller cv of
             Inl e \<Rightarrow> Some e
           | Inr (host, port) \<Rightarrow>
               (let addr = host @ '':'' @ fmt_d port
                in case cv_dial cv addr of
                     Some e \<Rightarrow> Some e
                   | None \<Rightarrow> cv_create cv addr topic partitions 1)))"

text \<open>The services as the set-up leaves them; an error of the topic's creation is only reported.\<close>

record ('r, 's) seg_services =
  sv_redis :: 'r
  sv_store :: 's
  sv_topic :: string
  sv_note :: "goerror option"

definition segment_setup ::
  "('r \<Rightarrow> goerror option \<times> 'r) \<Rightarrow> 'b ch_env \<Rightarrow> ('s, 'b) server \<Rightarrow> cluster_view \<Rightarrow> string \<Rightarrow> int \<Rightarrow> string \<Rightarrow> int \<Rightarrow>
   'r \<Rightarrow> 's \<Rightarrow> goerror + ('r, 's) seg_services"
where
  "segment_setup flush ce srv cv flag nanos broker partitions r s =
     (let topic = segment_run_topic flag nanos
      in case flush r of
           (Some e, r1) \<Rightarrow> Inl (Wrapped ''redis flushdb'' e)
         | (None, r1) \<Rightarrow>
             (case segment_ensure_schema ce srv s of
                (Some e, s1) \<Rightarrow> Inl (Wrapped ''clickhouse ensure schema'' e)
              | (None, s1) \<Rightarrow>
                  (case truncate_events ce srv s1 of
                     (Some e, s2) \<Rightarrow> Inl (Wrapped ''clickhouse truncate'' e)
                   | (None, s2) \<Rightarrow>
                       Inr \<lparr>sv_redis = r1, sv_store = s2, sv_topic = topic,
                            sv_note = segment_ensure_topic cv broker topic partitions\<rparr>)))"

text \<open>The closures of main over these services; the time an event was sent is noted by its id.\<close>

definition bench_env ::
  "'f float64_ops \<Rightarrow> 'r redis \<Rightarrow> 'f segment list \<Rightarrow> 'b ch_env \<Rightarrow> ('s, 'b) server \<Rightarrow> ('s \<Rightarrow> storefront_event list) \<Rightarrow>
   (string \<Rightarrow> int option) \<Rightarrow> profile_events list \<Rightarrow> ('f, 'r, 's) seg_env"
where
  "bench_env fo rd segs ce srv tab sent_at ps =
     \<lparr>se_floats = fo, se_redis = rd, se_segments = segs, se_insert = insert_events ce srv, se_table = tab,
      se_sent_at = sent_at, se_total = length (flatten_profiles ps), se_now = sim_now ps\<rparr>"

section \<open>Lemmas\<close>

lemma segment_ensure_topic_shared: "segment_ensure_topic = ensure_topic"
  by (intro ext) (simp add: segment_ensure_topic_def ensure_topic_def)

text \<open>FLUSHDB: after a nil error the database is empty.\<close>

definition flushes :: "('r \<Rightarrow> goerror option \<times> 'r) \<Rightarrow> ('r \<Rightarrow> redis_data) \<Rightarrow> bool" where
  "flushes flush view \<longleftrightarrow> (\<forall>r r'. flush r = (None, r') \<longrightarrow> view r' = empty_data)"

lemma segment_setup_empties:
  assumes "segment_setup flush ce srv cv flag nanos broker partitions r s = Inr sv"
    and "flushes flush view" and "seg_executes srv tab bview"
  shows "view (sv_redis sv) = empty_data" and "tab (sv_store sv) = []"
    and "sv_topic sv = segment_run_topic flag nanos"
    and "sv_note sv = ensure_topic cv broker (segment_run_topic flag nanos) partitions"
  using assms truncate_events_empty [OF assms(3), of ce]
  by (auto simp: segment_setup_def flushes_def segment_ensure_topic_shared Let_def split: prod.splits option.splits)

text \<open>When no insert is refused the store keeps every batch of storable events.\<close>

lemma bench_env_keeps:
  assumes "seg_executes srv tab bview" and "\<forall>e \<in> E. storable_event e"
    and "\<forall>ms s. set ms \<subseteq> E \<longrightarrow> fst (insert_events ce srv ms s) = None"
  shows "keeps_events (bench_env fo rd segs ce srv tab sent_at ps) E"
  unfolding keeps_within_def
proof (intro allI impI)
  fix ms s
  assume "set ms \<subseteq> E"
  then have "insert_events ce srv ms s = (None, snd (insert_events ce srv ms s))" "\<forall>e \<in> set ms. storable_event e"
    using assms(2,3) by (auto intro: prod_eqI)
  from insert_events_appends [OF assms(1) this(2,1)]
  show "se_table (bench_env fo rd segs ce srv tab sent_at ps)
      (snd (se_insert (bench_env fo rd segs ce srv tab sent_at ps) ms s)) =
    se_table (bench_env fo rd segs ce srv tab sent_at ps) s @ ms"
    by (simp add: bench_env_def)
qed

section \<open>Property\<close>


text \<open>A server that executes every statement of the store, and one event on it.\<close>

definition seg_reliable :: "(storefront_event list, ch_row list) server" where
  "seg_reliable sql T =
     (case seg_meaning sql T of
        Some (rows, T') \<Rightarrow> (Response 200 (Inr rows), T')
      | None \<Rightarrow> (Response 400 (Inr []), T))"

lemma seg_reliable_executes: "seg_executes seg_reliable (\<lambda>T. T) (\<lambda>rows. rows)"
  by (auto simp: seg_executes_def seg_reliable_def split: option.splits)

lemma seg_reliable_exec: "seg_meaning sql T = Some (rows, T') \<Longrightarrow> ch_exec plain_env seg_reliable sql T = (None, T')"
  by (simp add: ch_exec_def ch_raw_def seg_reliable_def plain_env_def)

lemma seg_reliable_insert:
  "\<forall>e \<in> set es. storable_event e \<Longrightarrow> insert_events plain_env seg_reliable es T = (None, T @ es)"
  using seg_reliable_exec [OF seg_meaning_insert [of es T]] by (simp add: insert_events_def insert_events_prefix_def)

lemma demo_bench_storable: "storable_event demo_bench_event"
  by code_simp

text \<open>What an earlier run left in Redis.\<close>

definition demo_left_over :: mem_store where
  "demo_left_over = \<lparr>ms_sets = [(''touched_profiles'', [''old''])], ms_hashes = [], ms_zsets = []\<rparr>"

lemma demo_setup:
  "segment_setup (\<lambda>_. (None, empty_store)) plain_env seg_reliable demo_cluster ''storefront'' 7 ''broker:9092'' (int 1)
     demo_left_over [demo_bench_event] =
   Inr \<lparr>sv_redis = empty_store, sv_store = [], sv_topic = ''storefront'', sv_note = None\<rparr>"
  by (simp add: segment_setup_def segment_run_topic_def segment_ensure_schema_def truncate_events_def
      seg_reliable_exec [OF seg_meaning_ddl] seg_reliable_exec [OF seg_meaning_truncate, unfolded truncate_table_sql_def]
      segment_ensure_topic_def demo_cluster_def)

abbreviation demo_whole_env :: "(int, mem_store, storefront_event list) seg_env" where
  "demo_whole_env \<equiv> bench_env demo_floats mem_redis [demo_seg NeverPurchased] plain_env seg_reliable (\<lambda>T. T)
     (\<lambda>_. Some 0) demo_bench_corpus"

lemma demo_corpus_facts: "flatten_profiles demo_bench_corpus = [demo_bench_event]" "sim_now demo_bench_corpus = 5000"
proof -
  show flat: "flatten_profiles demo_bench_corpus = [demo_bench_event]"
    by (simp add: flatten_profiles_def demo_bench_corpus_def)
  show "sim_now demo_bench_corpus = 5000" by (simp add: sim_now_flat flat demo_bench_event_fields)
qed

lemma demo_whole_like: "demo_like demo_whole_env"
  by (simp add: demo_like_def bench_env_def demo_corpus_facts seg_reliable_insert demo_bench_storable)


end
