(* ===== verification/Burst_Run.thy ===== *)
theory Burst_Run
  imports Stream_Bench Scale_Bench
begin

text \<open>
  cmd/deliveryburst from its first call to its report: the schema and the empty tables, a topic of its
  own, the baseline and the burst phase, the wait for the backlog, and what is printed.
\<close>

section \<open>Model\<close>

definition burst_run_topic :: "string \<Rightarrow> int \<Rightarrow> string" where
  "burst_run_topic flag nanos =
     (if flag = ''deliverystats-burst'' then ''deliverystats-burst-'' @ fmt_d nanos else flag)"

text \<open>The command's own copy of EnsureTopic.\<close>

definition burst_ensure_topic :: "cluster_view \<Rightarrow> string \<Rightarrow> string \<Rightarrow> int \<Rightarrow> goerror option" where
  "burst_ensure_topic cv broker topic partitions =
     (case cv_dial cv broker of
        Some e \<Rightarrow> Some e
      | None \<Rightarrow>
          (case cv_controller cv of
             Inl e \<Rightarrow> Some e
           | Inr (host, port) \<Rightarrow>
               (let addr = host @ '':'' @ fmt_d port
                in case cv_dial cv addr of
                     Some e \<Rightarrow> Some e
                   | None \<Rightarrow> cv_create cv addr topic partitions 1)))"

record 's burst_services =
  bs_store :: 's
  bs_topic :: string
  bs_note :: "goerror option"

definition burst_setup ::
  "'b ch_env \<Rightarrow> ('s, 'b) server \<Rightarrow> string \<Rightarrow> cluster_view \<Rightarrow> string \<Rightarrow> int \<Rightarrow> string \<Rightarrow> int \<Rightarrow> 's \<Rightarrow>
   goerror + 's burst_services"
where
  "burst_setup ce srv db cv flag nanos broker partitions s =
     (let topic = burst_run_topic flag nanos
      in case ensure_schema ce srv db s of
           (Some e, s1) \<Rightarrow> Inl (Wrapped ''clickhouse ensure schema'' e)
         | (None, s1) \<Rightarrow>
             (case truncate_all ce srv db s1 of
                (Some e, s2) \<Rightarrow> Inl (Wrapped ''clickhouse truncate'' e)
              | (None, s2) \<Rightarrow>
                  Inr \<lparr>bs_store = s2, bs_topic = topic, bs_note = burst_ensure_topic cv broker topic partitions\<rparr>))"

text \<open>The pace of a worker, from the product of floats converted to nanoseconds; a ticker needs a positive one.\<close>

definition worker_interval :: "int \<Rightarrow> int" where
  "worker_interval d = (if d \<le> 0 then 1000 else d)"

text \<open>The baseline and the burst phase over one pipeline, with the two numbers that are printed.\<close>

definition burst_phases ::
  "(delivery_webhook, 'p) sender \<Rightarrow> (nat \<times> int) list \<Rightarrow> (nat \<times> int) list \<Rightarrow> 'p \<Rightarrow>
   nat \<times> nat \<times> 'p webhook_pipeline"
where
  "burst_phases produce t1 t2 k =
     (let (n1, p1) = send_at ''baseline'' produce t1 (new_webhook_pipeline new_webhook_dedup k);
          (n2, p2) = send_at ''burst'' produce t2 p1
      in (n1, n2, p2))"

text \<open>The lag printed as drained, and whether the note about an undrained backlog follows.\<close>

definition burst_drain_report :: "poll list \<Rightarrow> int \<times> bool" where
  "burst_drain_report polls = (let final_lag = drain_wait polls (-1) in (final_lag, final_lag > 0))"

section \<open>Lemmas\<close>

lemma burst_ensure_topic_shared: "burst_ensure_topic = ensure_topic"
  by (intro ext) (simp add: burst_ensure_topic_def ensure_topic_def)

lemma burst_setup_empties:
  assumes "burst_setup ce srv db cv flag nanos broker partitions s = Inr sv"
    and "executes db srv tab view" and "decodes ce view"
  shows "tb_events (tab (bs_store sv)) = []" and "bs_topic sv = burst_run_topic flag nanos"
    and "bs_note sv = ensure_topic cv broker (burst_run_topic flag nanos) partitions"
  using assms(1) clickhouse.truncate_effect [OF clickhouse.intro [OF assms(2,3)]]
  by (auto simp: burst_setup_def burst_ensure_topic_shared Let_def clickhouse.stored_def [OF clickhouse.intro [OF assms(2,3)]]
      split: prod.splits option.splits)

text \<open>What the senders make can be stored when their clock is between 1970 and 9999.\<close>

lemma digits_ascii: "list_all is_digit s \<Longrightarrow> \<forall>c \<in> set s. (of_char c :: nat) < 128"
  by (simp add: list_all_iff is_digit_ascii)

lemma burst_webhook_storable:
  assumes "\<forall>c \<in> set label. (of_char c :: nat) < 128" and "0 \<le> now" and "now < 253402300800000"
  shows "storable_webhook (burst_webhook label w i now)"
proof -
  have ids: "\<forall>c \<in> set (webhook_id (burst_webhook label w i now)). (of_char c :: nat) < 128"
    "\<forall>c \<in> set (message_id (burst_webhook label w i now)). (of_char c :: nat) < 128"
    using assms(1) digits_ascii [OF fmt_d_nat_digits] by (auto simp: burst_webhook_def Let_def)
  have "i mod length channels < length channels" by (simp add: channels_def)
  then have "channels ! (i mod length channels) \<in> set channels" by simp
  then have "utf8_ok (fst (channels ! (i mod length channels))) \<and> utf8_ok (snd (channels ! (i mod length channels)))"
  proof -
    have "\<forall>c \<in> set channels. utf8_ok (fst c) \<and> utf8_ok (snd c)" by code_simp
    then show ?thesis using \<open>channels ! (i mod length channels) \<in> set channels\<close> by blast
  qed
  moreover have "utf8_ok ''delivered''" by code_simp
  ultimately show ?thesis
    using utf8_ok_ascii [OF ids(1)] utf8_ok_ascii [OF ids(2)] assms(2,3)
    by (simp add: storable_webhook_def burst_webhook_def Let_def)
qed

lemma offered_storable:
  assumes "\<forall>c \<in> set label. (of_char c :: nat) < 128" and "\<forall>t \<in> set ts. 0 \<le> snd t \<and> snd t < 253402300800000"
  shows "\<forall>e \<in> set (offered_webhooks label c ts). storable_webhook e"
proof -
  have "(w, i, now) \<in> set (numbered c ts) \<Longrightarrow> (w, now) \<in> set ts" for w i now and c :: "nat \<Rightarrow> nat"
    by (induction c ts rule: numbered.induct) auto
  then show ?thesis
    using assms by (fastforce simp: offered_webhooks_def intro!: burst_webhook_storable)
qed

section \<open>Property\<close>


text \<open>One webhook in each phase, over a table that was not empty.\<close>

abbreviation demo_base :: delivery_webhook where
  "demo_base \<equiv> burst_webhook ''baseline'' 0 0 5"

abbreviation demo_burst :: delivery_webhook where
  "demo_burst \<equiv> burst_webhook ''burst'' 2 0 7"

lemma demo_burst_setup:
  "burst_setup plain_env (ch_reliable ''d'') ''d'' cv ''t'' 0 ''k'' (int 1) T =
     Inr \<lparr>bs_store = T\<lparr>tb_events := [], tb_rollup := []\<rparr>, bs_topic = ''t'', bs_note = ensure_topic cv ''k'' ''t'' 1\<rparr>"
  by (simp add: burst_setup_def burst_run_topic_def truncate_all_def rel_schema rel_exec [OF meaning_truncate_events]
      rel_exec [OF meaning_truncate_rollup] burst_ensure_topic_shared Let_def)


end
