(* ===== verification/Soak.thy ===== *)
theory Soak
  imports Telemetry_Pipeline Go_Format
begin

text \<open>
  cmd/soak: hours of traffic replayed through one pipeline over a producer that always succeeds, with
  the size of the deduplication table sampled on the way and compared with its bound. The float64
  that a sequence number becomes is a parameter, as is the number of readings of a device, which
  the command computes in float64.
\<close>

section \<open>Model\<close>

definition always_succeeds :: "'k producer" where
  "always_succeeds r k = (None, k)"

definition soak_reading :: "(nat \<Rightarrow> uint64) \<Rightarrow> nat \<Rightarrow> nat \<Rightarrow> reading" where
  "soak_reading f sq d =
     \<lparr>device_id = ''soak-dev-'' @ fmt_0d 3 (int d), sequence = of_nat sq, timestamp_ms = int sq * 1000,
      reading_value = f sq\<rparr>"

text \<open>The two nested loops: every device once for each sequence number.\<close>

definition soak_readings :: "(nat \<Rightarrow> uint64) \<Rightarrow> nat \<Rightarrow> nat \<Rightarrow> reading list" where
  "soak_readings f n devices = concat (map (\<lambda>sq. map (soak_reading f sq) [0..<devices]) [0..<n])"

record 'k soak =
  sk_pipeline :: "'k pipeline"
  sk_ingested :: nat
  sk_peak :: nat

datatype soak_failure = Ingest_Failed nat goerror | Divide_By_Zero

definition sample_peak :: "'k soak \<Rightarrow> 'k soak" where
  "sample_peak st =
     (let c = entry_count (pl_dedup (sk_pipeline st)) in if c > sk_peak st then st\<lparr>sk_peak := c\<rparr> else st)"

definition soak_turn ::
  "(reading \<Rightarrow> goerror + bytes) \<Rightarrow> nat \<Rightarrow> reading \<Rightarrow> 'k soak \<Rightarrow> soak_failure + 'k soak"
where
  "soak_turn m every r st =
     (case ingest m always_succeeds r (sk_pipeline st) of
        (Some e, p) \<Rightarrow> Inl (Ingest_Failed (sk_ingested st) e)
      | (None, p) \<Rightarrow>
          (let st1 = st\<lparr>sk_pipeline := p, sk_ingested := sk_ingested st + 1\<rparr>
           in if every = 0 then Inl Divide_By_Zero
              else if sk_ingested st1 mod every = 0 then Inr (sample_peak st1)
              else Inr st1))"

fun soak_loop ::
  "(reading \<Rightarrow> goerror + bytes) \<Rightarrow> nat \<Rightarrow> reading list \<Rightarrow> 'k soak \<Rightarrow> soak_failure + 'k soak"
where
  "soak_loop m every [] st = Inr st"
| "soak_loop m every (r # rs) st =
     (case soak_turn m every r st of Inl e \<Rightarrow> Inl e | Inr st1 \<Rightarrow> soak_loop m every rs st1)"

record soak_report =
  sr_ingested :: nat
  sr_final :: nat
  sr_peak :: nat
  sr_bound :: nat
  sr_pass :: bool

definition soak_bench ::
  "(nat \<Rightarrow> uint64) \<Rightarrow> (reading \<Rightarrow> goerror + bytes) \<Rightarrow> nat \<Rightarrow> nat \<Rightarrow> nat \<Rightarrow> spool \<Rightarrow> 'k \<Rightarrow>
   soak_failure + soak_report"
where
  "soak_bench f m every n devices s k =
     (case soak_loop m every (soak_readings f n devices)
             \<lparr>sk_pipeline = new_pipeline new_dedup s k, sk_ingested = 0, sk_peak = 0\<rparr> of
        Inl e \<Rightarrow> Inl e
      | Inr st \<Rightarrow>
          (let st1 = sample_peak st;
               bound = devices * max_sequences_per_device
           in Inr \<lparr>sr_ingested = sk_ingested st1, sr_final = entry_count (pl_dedup (sk_pipeline st1)),
                sr_peak = sk_peak st1, sr_bound = bound, sr_pass = (sk_peak st1 \<le> bound)\<rparr>))"

text \<open>
  Main before the loops: without a path for the spool a temporary file is made; then the spool is opened
  on the file of that name.
\<close>

definition soak_open ::
  "string \<Rightarrow> goerror + string \<Rightarrow> (string \<Rightarrow> goerror option) \<Rightarrow> (string \<Rightarrow> os_file) \<Rightarrow> goerror + spool"
where
  "soak_open spool_path temp open_err files =
     (case (if spool_path = [] then temp else Inr spool_path) of
        Inl e \<Rightarrow> Inl (Wrapped ''create temp spool'' e)
      | Inr path \<Rightarrow>
          (case new_spool (open_err path) (files path) of
             Inl e \<Rightarrow> Inl (Wrapped ''open spool'' e)
           | Inr s \<Rightarrow> Inr s))"

text \<open>The command: the number of a device's readings is the truncated product of floats.\<close>

definition soak_run ::
  "string \<Rightarrow> goerror + string \<Rightarrow> (string \<Rightarrow> goerror option) \<Rightarrow> (string \<Rightarrow> os_file) \<Rightarrow>
   (nat \<Rightarrow> uint64) \<Rightarrow> (reading \<Rightarrow> goerror + bytes) \<Rightarrow> nat \<Rightarrow> nat \<Rightarrow> nat \<Rightarrow> 'k \<Rightarrow> goerror + soak_failure + soak_report"
where
  "soak_run spool_path temp open_err files f m every n devices k =
     (case soak_open spool_path temp open_err files of
        Inl e \<Rightarrow> Inl e
      | Inr s \<Rightarrow> Inr (soak_bench f m every n devices s k))"

section \<open>The size of the table\<close>

lemma entry_count_sum:
  assumes "dedup_ok d"
  shows "entry_count d = (\<Sum>dev \<in> fst ` set (seen d). length (seen_order (device_state d dev)))"
proof -
  have dist: "distinct (map fst (seen d))" using assms by (simp add: dedup_ok_def)
  have "(\<lambda>(_, ds). card (seen_set ds)) p = length (seen_order (device_state d (fst p)))" if "p \<in> set (seen d)" for p
  proof -
    from that dist have "map_of (seen d) (fst p) = Some (snd p)" by simp
    moreover have "device_ok (snd p)" using that assms by (auto simp: dedup_ok_def list_all_iff)
    ultimately show ?thesis
      by (simp add: case_prod_beta device_state_def device_ok_def distinct_card)
  qed
  then have "entry_count d = (\<Sum>p \<leftarrow> seen d. length (seen_order (device_state d (fst p))))"
    unfolding entry_count_def by (metis (no_types, lifting) map_eq_conv)
  also have "\<dots> = (\<Sum>dev \<leftarrow> map fst (seen d). length (seen_order (device_state d dev)))"
    by (simp add: comp_def)
  also have "\<dots> = (\<Sum>dev \<in> set (map fst (seen d)). length (seen_order (device_state d dev)))"
    by (rule sum_list_distinct_conv_sum_set [OF dist])
  finally show ?thesis by simp
qed

lemma entry_count_distinct:
  assumes "distinct ks"
  shows "entry_count (admit_all ks) =
    (\<Sum>dev \<in> fst ` set ks. min max_sequences_per_device (length (sequences_of dev ks)))"
proof -
  have "admitted ks = ks"
    unfolding admitted_def using assms by (intro tel.accepted_distinct) (simp_all add: tel.known_start)
  moreover have "fst ` set (seen (admit_all ks)) = fst ` set ks"
    by (simp add: admit_all_def keys_cache_after new_dedup_def)
  ultimately show ?thesis
    by (simp add: entry_count_sum order_admit_all)
qed

text \<open>More readings never make the table smaller.\<close>

lemma entry_count_prefix:
  assumes "distinct (ks @ ls)"
  shows "entry_count (admit_all ks) \<le> entry_count (admit_all (ks @ ls))"
proof -
  have "(\<Sum>dev \<in> fst ` set ks. min max_sequences_per_device (length (sequences_of dev ks))) \<le>
      (\<Sum>dev \<in> fst ` set (ks @ ls). min max_sequences_per_device (length (sequences_of dev (ks @ ls))))"
    by (rule order_trans [OF sum_mono sum_mono2]) (auto simp: sequences_of_def)
  with assms show ?thesis by (simp add: entry_count_distinct)
qed

section \<open>The run\<close>

lemma ingest_always_succeeds:
  "ingest m always_succeeds r p = (None, p\<lparr>pl_dedup := snd (admit (device_id r) (sequence r) (pl_dedup p))\<rparr>)"
  by (cases p) (auto simp: ingest_def always_succeeds_def split: prod.split bool.split)

lemma admit_all_snoc: "admit_all (ks @ [k]) = snd (admit (fst k) (snd k) (admit_all ks))"
  by (simp add: admit_all_def cache_after_append admit_key_def)

definition soak_state :: "(string \<times> uint64) list \<Rightarrow> 'k soak \<Rightarrow> bool" where
  "soak_state ks st \<longleftrightarrow> pl_dedup (sk_pipeline st) = admit_all ks \<and> sk_ingested st = length ks \<and>
     sk_peak st \<le> entry_count (admit_all ks)"

lemma soak_turn_ok:
  assumes "0 < every" and "soak_state ks st" and "distinct (ks @ [reading_key r])"
  shows "\<exists>st1. soak_turn m every r st = Inr st1 \<and> soak_state (ks @ [reading_key r]) st1"
proof -
  have "entry_count (admit_all ks) \<le> entry_count (admit_all (ks @ [reading_key r]))"
    by (rule entry_count_prefix [OF assms(3)])
  with assms(1,2) show ?thesis
    by (auto simp: soak_turn_def ingest_always_succeeds soak_state_def sample_peak_def Let_def
        admit_all_snoc reading_key_def)
qed

lemma soak_loop_ok:
  assumes "0 < every"
  shows "soak_state ks st \<Longrightarrow> distinct (ks @ map reading_key rs) \<Longrightarrow>
    \<exists>st1. soak_loop m every rs st = Inr st1 \<and> soak_state (ks @ map reading_key rs) st1"
proof (induction rs arbitrary: ks st)
  case (Cons r rs)
  have "distinct (ks @ [reading_key r])" using Cons.prems(2) by auto
  with soak_turn_ok [OF assms Cons.prems(1), of r m] obtain st1 where
    "soak_turn m every r st = Inr st1" "soak_state (ks @ [reading_key r]) st1" by blast
  with Cons.IH [of "ks @ [reading_key r]" st1] Cons.prems(2) show ?case by simp
qed simp

definition soak_device :: "nat \<Rightarrow> string" where
  "soak_device d = ''soak-dev-'' @ fmt_0d 3 (int d)"

lemma soak_device_inject: "soak_device d = soak_device d' \<longleftrightarrow> d = d'"
  by (simp add: soak_device_def)

lemma soak_keys_0: "map reading_key (soak_readings f 0 devices) = []"
  by (simp add: soak_readings_def)

lemma soak_keys_Suc:
  "map reading_key (soak_readings f (Suc n) devices) =
     map reading_key (soak_readings f n devices) @ map (\<lambda>d. (soak_device d, of_nat n)) [0..<devices]"
  by (simp add: soak_readings_def reading_key_def soak_reading_def soak_device_def)

lemma soak_keys_set:
  "set (map reading_key (soak_readings f n devices)) = (\<lambda>(d, sq). (soak_device d, of_nat sq)) ` ({..<devices} \<times> {..<n})"
proof (induction n)
  case (Suc n)
  have "set (map reading_key (soak_readings f (Suc n) devices)) =
      set (map reading_key (soak_readings f n devices)) \<union> (\<lambda>d. (soak_device d, of_nat n)) ` {..<devices}"
    unfolding soak_keys_Suc set_append by (simp add: lessThan_atLeast0)
  with Suc show ?case by (auto simp: lessThan_Suc simp del: set_map list.set_map)
qed (simp add: soak_keys_0)

lemma soak_keys_distinct: "n < 2 ^ 64 \<Longrightarrow> distinct (map reading_key (soak_readings f n devices))"
proof (induction n)
  case (Suc n)
  have "(of_nat sq :: uint64) \<noteq> of_nat n" if "sq < n" for sq
    using that Suc.prems by (simp add: of_nat_uint64_inject)
  then have "set (map reading_key (soak_readings f n devices)) \<inter> set (map (\<lambda>d. (soak_device d, of_nat n)) [0..<devices]) = {}"
    unfolding soak_keys_set by auto
  moreover have "distinct (map (\<lambda>d. (soak_device d, of_nat n :: uint64)) [0..<devices])"
    by (simp add: distinct_map inj_on_def soak_device_inject)
  ultimately show ?case using Suc by (simp add: soak_keys_Suc del: set_map)
qed (simp add: soak_keys_0)

lemma soak_sequences:
  "d < devices \<Longrightarrow> length (sequences_of (soak_device d) (map reading_key (soak_readings f n devices))) = n"
proof (induction n)
  case (Suc n)
  have "filter (\<lambda>d'. d' = d) [0..<devices] = [d]"
    using Suc.prems by (intro filter_eq_single) simp_all
  with Suc show ?case by (simp add: soak_keys_Suc sequences_of_def filter_map comp_def soak_device_inject)
qed (simp add: soak_keys_0 sequences_of_def)

lemma soak_entry_count:
  assumes "n < 2 ^ 64"
  shows "entry_count (admit_all (map reading_key (soak_readings f n devices))) = devices * min max_sequences_per_device n"
proof (cases "n = 0")
  case True
  then show ?thesis by (simp add: soak_keys_0 entry_count_distinct)
next
  case False
  have "fst ` set (map reading_key (soak_readings f n devices)) = soak_device ` {..<devices}"
    unfolding soak_keys_set using False by (force simp: image_image)
  moreover have "(\<Sum>dev \<in> soak_device ` {..<devices}.
      min max_sequences_per_device (length (sequences_of dev (map reading_key (soak_readings f n devices))))) =
      (\<Sum>d \<in> {..<devices}. min max_sequences_per_device n)"
    by (subst sum.reindex) (simp_all add: inj_on_def soak_device_inject soak_sequences)
  ultimately show ?thesis by (simp only: entry_count_distinct [OF soak_keys_distinct [OF assms]]) simp
qed

lemma length_soak_readings: "length (soak_readings f n devices) = n * devices"
  by (induction n) (simp_all add: soak_readings_def)

text \<open>
  The soak claim: for every number of devices and of readings, whatever the codec and the spool, the
  benchmark ends without a failure, has ingested every reading, and reports a table that filled up to
  4096 entries for each device, was never larger, and passed.
\<close>

theorem soak_stays_bounded:
  assumes "0 < every" and "n < 2 ^ 64" and "soak_open spool_path temp open_err files = Inr s"
  shows "soak_run spool_path temp open_err files f m every n devices k =
    Inr (Inr \<lparr>sr_ingested = n * devices, sr_final = devices * min 4096 n, sr_peak = devices * min 4096 n,
         sr_bound = devices * 4096, sr_pass = True\<rparr>)"
proof -
  let ?st = "\<lparr>sk_pipeline = new_pipeline new_dedup s k, sk_ingested = 0, sk_peak = 0\<rparr>"
  let ?ks = "map reading_key (soak_readings f n devices)"
  have "soak_state [] ?st" by (simp add: soak_state_def new_pipeline_def admit_all_def)
  from soak_loop_ok [OF assms(1) this, of "soak_readings f n devices" m] soak_keys_distinct [OF assms(2)]
  obtain st where st: "soak_loop m every (soak_readings f n devices) ?st = Inr st" "soak_state ?ks st" by auto
  from soak_entry_count [OF assms(2)]
  have c: "entry_count (admit_all ?ks) = devices * min 4096 n" by (simp add: max_sequences_per_device_def)
  with st(2) have "entry_count (pl_dedup (sk_pipeline st)) = devices * min 4096 n"
    "sk_peak st \<le> devices * min 4096 n" "sk_ingested st = n * devices"
    by (simp_all add: soak_state_def length_soak_readings)
  then show ?thesis
    by (simp add: soak_run_def assms(3) soak_bench_def st(1) sample_peak_def Let_def max_sequences_per_device_def)
qed

theorem soak_stays_bounded_witness:
  "soak_run [] (Inr ''tmp'') (\<lambda>_. None) (\<lambda>_. demo_file [] []) (\<lambda>_. 0) (\<lambda>_. Inl (Errno ''unused'')) 2 3 2 () =
    Inr (Inr \<lparr>sr_ingested = 6, sr_final = 6, sr_peak = 6, sr_bound = 8192, sr_pass = True\<rparr>)"
proof -
  obtain s where "soak_open [] (Inr ''tmp'') (\<lambda>_. None) (\<lambda>_. demo_file [] []) = Inr s"
    by (simp add: soak_open_def new_spool_def file_seek_def demo_file_def no_faults_simps no_faults_def)
  from soak_stays_bounded [OF _ _ this, of 2 3 "\<lambda>_. 0" "\<lambda>_. Inl (Errno ''unused'')" 2 "()"] show ?thesis by simp
qed

end
