(* ===== verification/Throughput.thy ===== *)
theory Throughput
  imports Stream_Bench Event_Edge
begin

text \<open>
  The two throughput benchmarks: cmd/throughputbench, whose workers call Ingest of one shared
  storefront pipeline, and cmd/deliverythroughput, whose workers each deduplicate webhooks and hand
  them to a batching producer of their own. A run is a schedule: the list of the workers' turns, in
  any order, with the time each one reads. Rates and elapsed times are not modelled.
\<close>

section \<open>cmd/throughputbench\<close>

definition tb_event :: "nat \<Rightarrow> nat \<Rightarrow> int \<Rightarrow> storefront_event" where
  "tb_event w i now =
     \<lparr>event_id = ''tb-'' @ fmt_d (int w) @ ''-'' @ fmt_d (int i),
      profile_id = ''tb-profile-'' @ fmt_d (int (i mod 1000)), event_type = ''page_view'',
      ev_timestamp_ms = now, attributes = [(''category'', ''electronics'')]\<rparr>"

text \<open>The number of workers, by default half of what the runtime uses.\<close>

definition default_workers :: "int \<Rightarrow> int \<Rightarrow> int" where
  "default_workers workers gomaxprocs =
     (if workers \<le> 0 then (let half = gomaxprocs div 2 in if half < 1 then 1 else half) else workers)"

lemma default_workers_positive: "1 \<le> default_workers workers gomaxprocs"
  by (simp add: default_workers_def Let_def)

record 'p event_bench =
  eb_next :: "nat \<Rightarrow> nat"
  eb_sent :: nat
  eb_errs :: nat
  eb_pipeline :: "'p event_pipeline"

definition new_event_bench :: "'p \<Rightarrow> 'p event_bench" where
  "new_event_bench k =
     \<lparr>eb_next = (\<lambda>_. 0), eb_sent = 0, eb_errs = 0, eb_pipeline = new_event_pipeline new_event_dedup k\<rparr>"

text \<open>One round of a worker's loop that does not see the stop.\<close>

definition event_turn ::
  "(storefront_event, 'p) sender \<Rightarrow> nat \<times> int \<Rightarrow> 'p event_bench \<Rightarrow> 'p event_bench"
where
  "event_turn produce t st =
     (let (w, now) = t; i = eb_next st w;
          (res, p) = event_ingest produce (tb_event w i now) (eb_pipeline st);
          st1 = st\<lparr>eb_pipeline := p, eb_next := (eb_next st)(w := i + 1)\<rparr>
      in if snd res \<noteq> None then st1\<lparr>eb_errs := eb_errs st + 1\<rparr> else st1\<lparr>eb_sent := eb_sent st + 1\<rparr>)"

definition run_event_bench ::
  "(storefront_event, 'p) sender \<Rightarrow> (nat \<times> int) list \<Rightarrow> 'p \<Rightarrow> 'p event_bench"
where
  "run_event_bench produce turns k = fold (event_turn produce) turns (new_event_bench k)"

section \<open>cmd/deliverythroughput\<close>

text \<open>A worker, with its own deduplication, producer and batch, and whether it has returned.\<close>

record 'k batch_worker =
  bw_i :: nat
  bw_batch :: "delivery_webhook list"
  bw_dedup :: webhook_dedup
  bw_producer :: 'k
  bw_stopped :: bool

record 'k batch_bench =
  bb_sent :: nat
  bb_errs :: nat
  bb_workers :: "'k batch_worker list"

definition new_batch_worker :: "'k \<Rightarrow> 'k batch_worker" where
  "new_batch_worker k =
     \<lparr>bw_i = 0, bw_batch = [], bw_dedup = new_webhook_dedup, bw_producer = k, bw_stopped = False\<rparr>"

definition new_batch_bench :: "'k list \<Rightarrow> 'k batch_bench" where
  "new_batch_bench ks = \<lparr>bb_sent = 0, bb_errs = 0, bb_workers = map new_batch_worker ks\<rparr>"

definition tb_webhook :: "nat \<Rightarrow> nat \<Rightarrow> int \<Rightarrow> delivery_webhook" where
  "tb_webhook w i now =
     (let ch = channels ! (i mod length channels)
      in \<lparr>webhook_id = ''tb-'' @ fmt_d (int w) @ ''-'' @ fmt_d (int i),
          message_id = ''tb-msg-'' @ fmt_d (int w) @ ''-'' @ fmt_d (int (i div 2)),
          channel = fst ch, status = ''delivered'', wh_timestamp_ms = now, provider = snd ch\<rparr>)"

type_synonym 'k batch_producer = "delivery_webhook list \<Rightarrow> 'k \<Rightarrow> goerror option \<times> 'k"

text \<open>flush: what it adds to the two shared counters, and the worker after it.\<close>

definition flush_worker :: "'k batch_producer \<Rightarrow> 'k batch_worker \<Rightarrow> (nat \<times> nat) \<times> 'k batch_worker" where
  "flush_worker produce wk =
     (if bw_batch wk = [] then ((0, 0), wk)
      else
        let n = length (bw_batch wk); (err, k) = produce (bw_batch wk) (bw_producer wk);
            wk1 = wk\<lparr>bw_producer := k, bw_batch := []\<rparr>
        in if err \<noteq> None then ((0, n), wk1) else ((n, 0), wk1))"

text \<open>One round of worker w: with the time it reads, or None when it sees the stop.\<close>

definition worker_round ::
  "'k batch_producer \<Rightarrow> nat \<Rightarrow> nat \<Rightarrow> int option \<Rightarrow> 'k batch_worker \<Rightarrow> (nat \<times> nat) \<times> 'k batch_worker"
where
  "worker_round produce bs w t wk =
     (case t of
        None \<Rightarrow> (let (c, wk1) = flush_worker produce wk in (c, wk1\<lparr>bw_stopped := True\<rparr>))
      | Some now \<Rightarrow>
          (let wh = tb_webhook w (bw_i wk) now
           in case webhook_admit (webhook_id wh) (bw_dedup wk) of
                (False, d) \<Rightarrow> ((0, 0), wk\<lparr>bw_dedup := d, bw_i := bw_i wk + 1\<rparr>)
              | (True, d) \<Rightarrow>
                  (let wk1 = wk\<lparr>bw_dedup := d, bw_batch := bw_batch wk @ [wh]\<rparr>;
                       (c, wk2) = (if length (bw_batch wk1) \<ge> bs then flush_worker produce wk1 else ((0, 0), wk1))
                   in (c, wk2\<lparr>bw_i := bw_i wk2 + 1\<rparr>))))"

definition batch_turn ::
  "'k batch_producer \<Rightarrow> nat \<Rightarrow> nat \<times> int option \<Rightarrow> 'k batch_bench \<Rightarrow> 'k batch_bench"
where
  "batch_turn produce bs t st =
     (let (w, x) = t
      in if w \<ge> length (bb_workers st) \<or> bw_stopped (bb_workers st ! w) then st
         else
           let ((ok, bad), wk) = worker_round produce bs w x (bb_workers st ! w)
           in \<lparr>bb_sent = bb_sent st + ok, bb_errs = bb_errs st + bad, bb_workers = (bb_workers st)[w := wk]\<rparr>)"

definition run_batch_bench ::
  "'k batch_producer \<Rightarrow> nat \<Rightarrow> (nat \<times> int option) list \<Rightarrow> 'k list \<Rightarrow> 'k batch_bench"
where
  "run_batch_bench produce bs turns ks = fold (batch_turn produce bs) turns (new_batch_bench ks)"

section \<open>The storefront benchmark\<close>

lemma tb_event_id_inject: "event_id (tb_event w i now) = event_id (tb_event v j now') \<longleftrightarrow> w = v \<and> i = j"
  using digits_dash [OF fmt_d_nat_digits fmt_d_nat_digits] by (simp add: tb_event_def)

definition offered_events :: "(nat \<Rightarrow> nat) \<Rightarrow> (nat \<times> int) list \<Rightarrow> storefront_event list" where
  "offered_events c turns = map (\<lambda>(w, i, now). tb_event w i now) (numbered c turns)"

lemma offered_events_Cons:
  "offered_events c ((w, now) # ts) = tb_event w (c w) now # offered_events (c(w := c w + 1)) ts"
  by (simp add: offered_events_def)

lemma offered_events_distinct: "distinct (map event_id (offered_events c turns))"
  unfolding offered_events_def map_map
  by (rule distinct_map_numbered) (simp add: tb_event_id_inject)

text \<open>What a call returned, counted by the two counters.\<close>

definition nil_results :: "(bool \<times> goerror option) list \<Rightarrow> nat" where
  "nil_results rs = length (filter (\<lambda>r. snd r = None) rs)"

lemma nil_results_Cons [simp]: "nil_results (r # rs) = (if snd r = None then Suc (nil_results rs) else nil_results rs)"
  by (simp add: nil_results_def)

lemma nil_results_le: "nil_results rs \<le> length rs"
  by (simp add: nil_results_def)

lemma event_turns:
  "let st1 = fold (event_turn produce) ts st;
       rs = results (event_ingest produce) (offered_events (eb_next st) ts) (eb_pipeline st)
   in eb_sent st1 = eb_sent st + nil_results rs \<and>
      eb_errs st1 + nil_results rs = eb_errs st + length rs \<and>
      eb_pipeline st1 = fold (\<lambda>e p. snd (event_ingest produce e p)) (offered_events (eb_next st) ts) (eb_pipeline st)"
proof (induction ts arbitrary: st)
  case (Cons t ts)
  obtain w now where t: "t = (w, now)" by (cases t)
  obtain a err p where r: "event_ingest produce (tb_event w (eb_next st w) now) (eb_pipeline st) = ((a, err), p)"
    by (metis prod.collapse)
  define st1 where "st1 = event_turn produce t st"
  have st1: "eb_next st1 = (eb_next st)(w := eb_next st w + 1)" "eb_pipeline st1 = p"
    "eb_sent st1 = eb_sent st + (if err = None then 1 else 0)"
    "eb_errs st1 = eb_errs st + (if err = None then 0 else 1)"
    by (simp_all add: st1_def event_turn_def t r Let_def)
  have "fold (event_turn produce) (t # ts) st = fold (event_turn produce) ts st1"
    by (simp add: st1_def)
  then show ?case
    using Cons [of st1] st1 by (cases err) (simp_all add: t r offered_events_Cons Let_def del: fold_simps fun_upd_apply)
qed (simp add: offered_events_def nil_results_def)

text \<open>
  C27. What the storefront throughput benchmark reports: whatever the number of workers and the order of
  their turns, no event is a duplicate for the edge, so sent counts exactly the calls of the producer
  that returned no error, errors the others, and together they are all the turns; the producer was
  called for every event once.
\<close>

theorem throughput_counts_exact:
  "let es = offered_events (\<lambda>_. 0) turns; st = run_event_bench produce turns k
   in distinct (map event_id es) \<and> length es = length turns \<and>
     eb_sent st = length (filter (\<lambda>r. r = None) (results produce es k)) \<and>
     eb_sent st + eb_errs st = length turns \<and>
     ep_producer (eb_pipeline st) = fold (\<lambda>e k. snd (produce e k)) es k"
proof -
  define es where "es = offered_events (\<lambda>_. 0) turns"
  let ?p = "new_event_pipeline new_event_dedup k"
  have d: "distinct (map event_id es)" by (simp add: es_def offered_events_distinct)
  have l: "length es = length turns" by (simp add: es_def offered_events_def)
  have fresh: "results (event_ingest produce) es ?p = map (Pair True) (results produce es k)"
    "ep_producer (fold (\<lambda>e p. snd (event_ingest produce e p)) es ?p) = fold (\<lambda>e k. snd (produce e k)) es k"
    using ev.stream_fresh [of ?p es produce] d
    by (simp_all add: new_event_pipeline_def new_event_dedup_def event_dedup_ok_def)
  have n: "nil_results (map (Pair True) rs) = length (filter (\<lambda>r. r = None) rs)" for rs :: "goerror option list"
    by (simp add: nil_results_def filter_map comp_def)
  note run = event_turns [of produce turns "new_event_bench k", unfolded Let_def]
  have es: "offered_events (eb_next (new_event_bench k)) turns = es" "eb_pipeline (new_event_bench k) = ?p"
    "eb_sent (new_event_bench k) = 0" "eb_errs (new_event_bench k) = 0"
    by (simp_all add: new_event_bench_def es_def)
  show ?thesis
    using run d l by (simp add: run_event_bench_def es fresh n Let_def flip: es_def)
qed

section \<open>The delivery benchmark\<close>

lemma tb_webhook_id_inject: "webhook_id (tb_webhook w i now) = webhook_id (tb_webhook v j now') \<longleftrightarrow> w = v \<and> i = j"
  using digits_dash [OF fmt_d_nat_digits fmt_d_nat_digits] by (simp add: tb_webhook_def Let_def)

definition tb_id :: "nat \<Rightarrow> nat \<Rightarrow> string" where
  "tb_id w i = webhook_id (tb_webhook w i 0)"

lemma tb_id_inject [simp]: "tb_id w i = tb_id v j \<longleftrightarrow> w = v \<and> i = j"
  by (simp add: tb_id_def tb_webhook_id_inject)

lemma webhook_id_tb [simp]: "webhook_id (tb_webhook w i now) = tb_id w i"
  by (simp add: tb_id_def tb_webhook_def Let_def)

text \<open>
  A batching producer that appends what it reports as written, and nothing otherwise; and what
  is known of a worker while the benchmark runs: every id it has generated is in its batch, landed, or
  in a failed batch, in the order of generation.
\<close>

definition batch_exact :: "'k batch_producer \<Rightarrow> ('k \<Rightarrow> delivery_webhook list) \<Rightarrow> bool" where
  "batch_exact produce landed \<longleftrightarrow>
     (\<forall>ws k. case produce ws k of
        (None, k') \<Rightarrow> landed k' = landed k @ ws
      | (Some e, k') \<Rightarrow> landed k' = landed k)"

definition worker_ok :: "('k \<Rightarrow> delivery_webhook list) \<Rightarrow> nat \<Rightarrow> nat \<Rightarrow> 'k batch_worker \<Rightarrow> bool" where
  "worker_ok landed bs w wk \<longleftrightarrow> webhook_dedup_ok (bw_dedup wk) \<and>
     set (wd_order (bw_dedup wk)) \<subseteq> tb_id w ` {..<bw_i wk} \<and>
     subseq (map webhook_id (landed (bw_producer wk) @ bw_batch wk)) (map (tb_id w) [0..<bw_i wk]) \<and>
     (bs > 0 \<longrightarrow> length (bw_batch wk) < bs) \<and> (bw_stopped wk \<longrightarrow> bw_batch wk = [])"

lemma flush_worker_facts:
  assumes "batch_exact produce landed" and "flush_worker produce wk = ((ok, bad), wk1)"
  shows "bw_batch wk1 = [] \<and> bw_i wk1 = bw_i wk \<and> bw_dedup wk1 = bw_dedup wk \<and> bw_stopped wk1 = bw_stopped wk \<and>
    length (landed (bw_producer wk1)) = length (landed (bw_producer wk)) + ok \<and>
    ok + bad = length (bw_batch wk) \<and>
    subseq (landed (bw_producer wk1)) (landed (bw_producer wk) @ bw_batch wk)"
proof (cases "bw_batch wk = []")
  case False
  obtain err k where p: "produce (bw_batch wk) (bw_producer wk) = (err, k)" by (metis prod.collapse)
  have "case (err, k) of (None, k') \<Rightarrow> landed k' = landed (bw_producer wk) @ bw_batch wk
      | (Some e, k') \<Rightarrow> landed k' = landed (bw_producer wk)"
    using assms(1) unfolding batch_exact_def by (metis p)
  with False assms(2) p show ?thesis
    by (cases err) (auto simp: flush_worker_def Let_def)
qed (use assms in \<open>auto simp: flush_worker_def\<close>)

lemma worker_round_ok:
  assumes prod: "batch_exact produce landed" and ok: "worker_ok landed bs w wk" and run: "\<not> bw_stopped wk"
    and r: "worker_round produce bs w t wk = ((good, bad), wk1)"
  shows "worker_ok landed bs w wk1 \<and>
    length (landed (bw_producer wk1)) = length (landed (bw_producer wk)) + good \<and>
    good + bad + length (bw_batch wk1) + bw_i wk = length (bw_batch wk) + bw_i wk1 \<and>
    bw_i wk1 = bw_i wk + (if t = None then 0 else 1) \<and> bw_stopped wk1 = (t = None)"
proof (cases t)
  case None
  obtain wk2 where f: "flush_worker produce wk = ((good, bad), wk2)" "wk1 = wk2\<lparr>bw_stopped := True\<rparr>"
    using r None by (auto simp: worker_round_def split: prod.splits)
  note facts = flush_worker_facts [OF prod f(1)]
  have "subseq (map webhook_id (landed (bw_producer wk2))) (map (tb_id w) [0..<bw_i wk])"
    using facts ok subseq_map subseq_order.trans unfolding worker_ok_def by blast
  with facts ok None show ?thesis by (auto simp: worker_ok_def f(2))
next
  case (Some now)
  let ?wh = "tb_webhook w (bw_i wk) now"
  let ?d = "snd (webhook_admit (tb_id w (bw_i wk)) (bw_dedup wk))"
  let ?wk1 = "wk\<lparr>bw_dedup := ?d, bw_batch := bw_batch wk @ [?wh]\<rparr>"
  have dk: "webhook_dedup_ok (bw_dedup wk)" and sub: "set (wd_order (bw_dedup wk)) \<subseteq> tb_id w ` {..<bw_i wk}"
    and sq: "subseq (map webhook_id (landed (bw_producer wk) @ bw_batch wk)) (map (tb_id w) [0..<bw_i wk])"
    using ok by (simp_all add: worker_ok_def)
  have "tb_id w (bw_i wk) \<notin> set (wd_order (bw_dedup wk))" using sub by auto
  then have adm: "webhook_admit (tb_id w (bw_i wk)) (bw_dedup wk) = (True, ?d)"
    using wh.fst_admit_iff [OF dk] by (simp add: prod_eq_iff)
  have d1: "webhook_dedup_ok ?d" using wh.wf_admit [OF dk] .
  have d2: "set (wd_order ?d) \<subseteq> tb_id w ` {..<Suc (bw_i wk)}"
    using wh.known_after_admit_subset [OF dk, of "tb_id w (bw_i wk)"] sub by (auto simp: lessThan_Suc)
  obtain wk2 where f: "(if length (bw_batch ?wk1) \<ge> bs then flush_worker produce ?wk1 else ((0, 0), ?wk1)) = ((good, bad), wk2)"
    "wk1 = wk2\<lparr>bw_i := bw_i wk2 + 1\<rparr>"
    using r adm by (auto simp: worker_round_def Some Let_def split: prod.splits if_splits)
  have sq1: "subseq (map webhook_id (landed (bw_producer wk) @ bw_batch wk @ [?wh])) (map (tb_id w) [0..<Suc (bw_i wk)])"
    using list_emb_append_mono [OF sq, of "[tb_id w (bw_i wk)]" "[tb_id w (bw_i wk)]"] by simp
  show ?thesis
  proof (cases "length (bw_batch ?wk1) \<ge> bs")
    case True
    with f(1) have "flush_worker produce ?wk1 = ((good, bad), wk2)" by simp
    note facts = flush_worker_facts [OF prod this]
    have "subseq (landed (bw_producer wk2)) (landed (bw_producer wk) @ bw_batch wk @ [?wh])"
      using facts by simp
    with sq1 have "subseq (map webhook_id (landed (bw_producer wk2))) (map (tb_id w) [0..<Suc (bw_i wk)])"
      using subseq_map subseq_order.trans by blast
    with facts d1 d2 run Some show ?thesis by (simp add: worker_ok_def f(2))
  next
    case False
    with f have wk1: "good = 0" "bad = 0" "wk1 = ?wk1\<lparr>bw_i := bw_i wk + 1\<rparr>" by auto
    with False sq1 d1 d2 run Some show ?thesis by (simp add: worker_ok_def)
  qed
qed

text \<open>The rounds a schedule gives a worker before it sees the stop.\<close>

definition seen_by :: "nat \<Rightarrow> (nat \<times> int option) list \<Rightarrow> int option list" where
  "seen_by w turns = map snd (filter (\<lambda>t. fst t = w) turns)"

definition rounds_of :: "nat \<Rightarrow> (nat \<times> int option) list \<Rightarrow> nat" where
  "rounds_of w turns = length (takeWhile (\<lambda>x. x \<noteq> None) (seen_by w turns))"

definition bench_ok ::
  "('k \<Rightarrow> delivery_webhook list) \<Rightarrow> nat \<Rightarrow> nat \<Rightarrow> (nat \<times> int option) list \<Rightarrow> 'k batch_bench \<Rightarrow> bool"
where
  "bench_ok landed bs n turns st \<longleftrightarrow> length (bb_workers st) = n \<and>
     (\<forall>w < n. worker_ok landed bs w (bb_workers st ! w) \<and> bw_i (bb_workers st ! w) = rounds_of w turns \<and>
        bw_stopped (bb_workers st ! w) = (None \<in> set (seen_by w turns))) \<and>
     bb_sent st = (\<Sum>wk \<leftarrow> bb_workers st. length (landed (bw_producer wk))) \<and>
     bb_sent st + bb_errs st + (\<Sum>wk \<leftarrow> bb_workers st. length (bw_batch wk)) = (\<Sum>wk \<leftarrow> bb_workers st. bw_i wk)"

lemma sum_list_map_update:
  assumes "w < length xs"
  shows "(\<Sum>x \<leftarrow> xs[w := y]. f x) + f (xs ! w) = (\<Sum>x \<leftarrow> xs. f x) + (f y :: nat)"
  using assms
proof (induction xs arbitrary: w)
  case (Cons x xs)
  then show ?case by (cases w) simp_all
qed simp

lemma seen_by_snoc:
  "seen_by w (turns @ [(v, x)]) = (if v = w then seen_by w turns @ [x] else seen_by w turns)"
  by (simp add: seen_by_def)

lemma rounds_of_snoc:
  "rounds_of w (turns @ [(v, x)]) =
     (if v = w \<and> None \<notin> set (seen_by w turns) \<and> x \<noteq> None then rounds_of w turns + 1 else rounds_of w turns)"
proof (cases "None \<in> set (seen_by w turns)")
  case True
  then have "takeWhile (\<lambda>x. x \<noteq> None) (seen_by w turns @ ys) = takeWhile (\<lambda>x. x \<noteq> None) (seen_by w turns)" for ys
    by (intro takeWhile_append1) simp_all
  with True show ?thesis by (simp add: rounds_of_def seen_by_snoc)
next
  case False
  then have all: "\<And>y. y \<in> set (seen_by w turns) \<Longrightarrow> y \<noteq> None" by metis
  then have tw: "takeWhile (\<lambda>x. x \<noteq> None) (seen_by w turns) = seen_by w turns"
    unfolding takeWhile_eq_all_conv by blast
  have ap: "takeWhile (\<lambda>x. x \<noteq> None) (seen_by w turns @ ys) = seen_by w turns @ takeWhile (\<lambda>x. x \<noteq> None) ys" for ys
    by (rule takeWhile_append2) (rule all)
  show ?thesis using False by (simp del: not_None_eq add: rounds_of_def seen_by_snoc ap tw)
qed

lemma map_by_index: "map f xs = map (\<lambda>i. f (xs ! i)) [0..<length xs]"
  by (rule nth_equalityI) simp_all

lemma distinct_concat_blocks:
  assumes "\<And>w. w < n \<Longrightarrow> distinct (f w)" and "\<And>v w. v < n \<Longrightarrow> w < n \<Longrightarrow> v \<noteq> w \<Longrightarrow> set (f v) \<inter> set (f w) = {}"
  shows "distinct (concat (map f [0..<n]))"
  using assms
proof (induction n)
  case (Suc n)
  have "set (f v) \<inter> set (f n) = {}" if "v < n" for v using that by (intro Suc.prems(2)) simp_all
  then have "set (concat (map f [0..<n])) \<inter> set (f n) = {}" by (fastforce simp: disjoint_iff)
  moreover have "distinct (concat (map f [0..<n]))" by (rule Suc.IH) (simp_all add: Suc.prems)
  ultimately show ?case using Suc.prems(1) [of n] by simp
qed simp

lemma batch_turn_ok:
  assumes prod: "batch_exact produce landed" and inv: "bench_ok landed bs n turns st"
  shows "bench_ok landed bs n (turns @ [t]) (batch_turn produce bs t st)"
proof -
  obtain w x where t: "t = (w, x)" by (cases t)
  show ?thesis
  proof (cases "w \<ge> n \<or> bw_stopped (bb_workers st ! w)")
    case True
    then have "batch_turn produce bs t st = st" using inv by (simp add: batch_turn_def t bench_ok_def)
    with True inv show ?thesis by (auto simp: bench_ok_def t rounds_of_snoc seen_by_snoc)
  next
    case False
    let ?wk = "bb_workers st ! w"
    obtain good bad wk1 where r: "worker_round produce bs w x ?wk = ((good, bad), wk1)" by (metis prod.collapse)
    have w: "w < n" "length (bb_workers st) = n" "\<not> bw_stopped ?wk" "worker_ok landed bs w ?wk"
      using False inv by (auto simp: bench_ok_def)
    note one = worker_round_ok [OF prod w(4,3) r]
    have b: "batch_turn produce bs t st =
        \<lparr>bb_sent = bb_sent st + good, bb_errs = bb_errs st + bad, bb_workers = (bb_workers st)[w := wk1]\<rparr>"
      using w by (simp add: batch_turn_def t r)
    have up: "(\<Sum>wk \<leftarrow> (bb_workers st)[w := wk1]. f wk) + f ?wk = (\<Sum>wk \<leftarrow> bb_workers st. f wk) + f wk1"
      for f :: "'a batch_worker \<Rightarrow> nat" using w by (intro sum_list_map_update) simp
    have each: "worker_ok landed bs v ((bb_workers st)[w := wk1] ! v) \<and>
        bw_i ((bb_workers st)[w := wk1] ! v) = rounds_of v (turns @ [t]) \<and>
        bw_stopped ((bb_workers st)[w := wk1] ! v) = (None \<in> set (seen_by v (turns @ [t])))" if "v < n" for v
    proof -
      have old: "worker_ok landed bs v (bb_workers st ! v)" "bw_i (bb_workers st ! v) = rounds_of v turns"
        "bw_stopped (bb_workers st ! v) = (None \<in> set (seen_by v turns))"
        using inv that unfolding bench_ok_def by blast+
      show ?thesis
      proof (cases "v = w")
        case True
        with old one w show ?thesis by (auto simp: t rounds_of_snoc seen_by_snoc)
      next
        case False
        with old show ?thesis by (simp add: t rounds_of_snoc seen_by_snoc)
      qed
    qed
    have "bb_sent st + good = (\<Sum>wk \<leftarrow> (bb_workers st)[w := wk1]. length (landed (bw_producer wk)))"
      using up [of "\<lambda>wk. length (landed (bw_producer wk))"] inv one by (simp add: bench_ok_def)
    moreover have "bb_sent st + good + (bb_errs st + bad) + (\<Sum>wk \<leftarrow> (bb_workers st)[w := wk1]. length (bw_batch wk)) =
        (\<Sum>wk \<leftarrow> (bb_workers st)[w := wk1]. bw_i wk)"
      using up [of "\<lambda>wk. length (bw_batch wk)"] up [of bw_i] inv one by (simp add: bench_ok_def)
    ultimately show ?thesis using each w by (simp add: bench_ok_def b)
  qed
qed

lemma run_batch_bench_ok:
  assumes "batch_exact produce landed" and "\<forall>k \<in> set ks. landed k = []"
  shows "bench_ok landed bs (length ks) turns (run_batch_bench produce bs turns ks)"
proof (induction turns rule: rev_induct)
  case Nil
  have z: "sum_list (map (\<lambda>wk. length (landed (bw_producer wk))) (map new_batch_worker ks)) = 0"
    "sum_list (map (\<lambda>wk. length (bw_batch wk)) (map new_batch_worker ks)) = 0"
    "sum_list (map bw_i (map new_batch_worker ks)) = 0"
    using assms(2) by (simp_all add: new_batch_worker_def)
  show ?case
    using assms(2)
    by (simp del: map_map add: z run_batch_bench_def new_batch_bench_def bench_ok_def worker_ok_def new_batch_worker_def
        rounds_of_def seen_by_def webhook_dedup_ok_def new_webhook_dedup_def)
next
  case (snoc t turns)
  from batch_turn_ok [OF assms(1) this, of t] show ?case by (simp add: run_batch_bench_def)
qed

text \<open>
  C17. What the delivery throughput benchmark reports: for every number of workers, every batch size and
  every schedule in which each worker sees the stop, over producers that write a batch whole or not at
  all, the deduplication refuses nothing, sent is exactly the number of webhooks in Kafka, all of them
  with different ids, sent and errors together are all the rounds, and no worker returns with a webhook
  left in its batch.
\<close>

theorem batch_bench_accounts:
  assumes "batch_exact produce landed" and "\<forall>k \<in> set ks. landed k = []"
    and "\<forall>w < length ks. None \<in> set (seen_by w turns)"
  shows "let st = run_batch_bench produce bs turns ks;
      out = concat (map (\<lambda>wk. landed (bw_producer wk)) (bb_workers st))
    in bb_sent st = length out \<and> distinct (map webhook_id out) \<and>
      bb_sent st + bb_errs st = (\<Sum>w < length ks. rounds_of w turns) \<and>
      (\<forall>wk \<in> set (bb_workers st). bw_batch wk = [])"
proof -
  define st where "st = run_batch_bench produce bs turns ks"
  have inv: "bench_ok landed bs (length ks) turns st"
    unfolding st_def by (rule run_batch_bench_ok [OF assms(1,2)])
  then have n: "length (bb_workers st) = length ks" by (simp add: bench_ok_def)
  have each: "worker_ok landed bs w (bb_workers st ! w)" "bw_i (bb_workers st ! w) = rounds_of w turns"
    "bw_stopped (bb_workers st ! w)" if "w < length ks" for w
    using inv assms(3) that unfolding bench_ok_def by blast+
  then have none: "bw_batch (bb_workers st ! w) = []" if "w < length ks" for w
    using that by (simp add: worker_ok_def)
  have empty: "\<forall>wk \<in> set (bb_workers st). bw_batch wk = []" using none n by (metis in_set_conv_nth)
  then have zero: "(\<Sum>wk \<leftarrow> bb_workers st. length (bw_batch wk)) = 0" by simp
  have "(\<Sum>wk \<leftarrow> bb_workers st. bw_i wk) = (\<Sum>w < length ks. rounds_of w turns)"
    using each(2) n by (simp add: sum_list_sum_nth lessThan_atLeast0)
  moreover have "distinct (map webhook_id (concat (map (\<lambda>wk. landed (bw_producer wk)) (bb_workers st))))"
  proof -
    have sq: "subseq (map webhook_id (landed (bw_producer (bb_workers st ! w)))) (map (tb_id w) [0..<rounds_of w turns])"
      if "w < length ks" for w
      using each [OF that] none [OF that] by (simp add: worker_ok_def)
    have "distinct (map webhook_id (landed (bw_producer (bb_workers st ! w)))) \<and>
        webhook_id ` set (landed (bw_producer (bb_workers st ! w))) \<subseteq> range (tb_id w)" if "w < length ks" for w
    proof -
      have "distinct (map (tb_id w) [0..<rounds_of w turns])" by (simp add: distinct_map inj_on_def)
      moreover from sq [OF that] obtain N where
        "map webhook_id (landed (bw_producer (bb_workers st ! w))) = nths (map (tb_id w) [0..<rounds_of w turns]) N"
        by (auto simp: subseq_conv_nths)
      ultimately show ?thesis
        by (metis (no_types, lifting) distinct_nthsI image_subset_iff list.set_map rangeI set_nths_subset subset_iff)
    qed
    then have b: "\<And>w. w < length ks \<Longrightarrow> distinct (map webhook_id (landed (bw_producer (bb_workers st ! w))))"
      "\<And>w. w < length ks \<Longrightarrow> set (map webhook_id (landed (bw_producer (bb_workers st ! w)))) \<subseteq> range (tb_id w)"
      by simp_all
    have r: "range (tb_id v) \<inter> range (tb_id w) = {}" if "v \<noteq> w" for v w using that by auto
    have "distinct (concat (map (\<lambda>w. map webhook_id (landed (bw_producer (bb_workers st ! w)))) [0..<length ks]))"
    proof (rule distinct_concat_blocks)
      fix v w assume "v < length ks" "w < length ks" "v \<noteq> w"
      with b(2) [of v] b(2) [of w] r [of v w]
      show "set (map webhook_id (landed (bw_producer (bb_workers st ! v)))) \<inter>
          set (map webhook_id (landed (bw_producer (bb_workers st ! w)))) = {}" by blast
    qed (rule b(1))
    moreover have "concat (map (\<lambda>w. map webhook_id (landed (bw_producer (bb_workers st ! w)))) [0..<length ks]) =
        map webhook_id (concat (map (\<lambda>wk. landed (bw_producer wk)) (bb_workers st)))"
      unfolding n [symmetric] map_concat map_map comp_def by (rule arg_cong [OF map_by_index [symmetric]])
    ultimately show ?thesis by simp
  qed
  ultimately show ?thesis
    using inv empty by (simp add: zero bench_ok_def length_concat comp_def Let_def flip: st_def)
qed

text \<open>A batching producer that fails as often as its counter says, then keeps what it takes.\<close>

definition flaky_batches :: "(nat \<times> delivery_webhook list) batch_producer" where
  "flaky_batches ws k =
     (case k of (0, out) \<Rightarrow> (None, (0, out @ ws)) | (Suc n, out) \<Rightarrow> (Some (Errno ''unreachable''), (n, out)))"

theorem throughput_counts_exact_witness:
  "eb_sent (run_event_bench (refuse_all (Errno ''down'')) [(0, 5), (1, 5), (0, 6)] []) = 0 \<and>
   eb_errs (run_event_bench (refuse_all (Errno ''down'')) [(0, 5), (1, 5), (0, 6)] []) = 3"
proof -
  have "results (refuse_all e) es k = replicate (length es) (Some e)" for e and es k :: "storefront_event list"
    by (induction es) (simp_all add: refuse_all_def)
  with throughput_counts_exact [of "[(0, 5), (1, 5), (0, 6)]" "refuse_all (Errno ''down'')" "[]"]
  show ?thesis by (simp add: filter_replicate Let_def)
qed

theorem batch_bench_accounts_witness:
  "let st = run_batch_bench flaky_batches 2
       [(0, Some 5), (1, Some 5), (0, Some 6), (1, Some 6), (0, Some 7), (0, None), (1, None)] [(1, []), (0, [])]
   in bb_sent st + bb_errs st = 5"
proof -
  let ?turns = "[(0, Some 5), (1, Some 5), (0, Some 6), (1, Some 6), (0, Some 7), (0, None), (1, None)] :: (nat \<times> int option) list"
  have "batch_exact flaky_batches snd"
    by (auto simp: batch_exact_def flaky_batches_def split: nat.splits)
  from batch_bench_accounts [OF this, of "[(1, []), (0, [])]" ?turns 2] show ?thesis
    by (simp add: Let_def seen_by_def rounds_of_def less_Suc_eq numeral_2_eq_2 lessThan_Suc)
qed

end
