(* ===== verification/Gateway_Concurrency.thy ===== *)
theory Gateway_Concurrency
  imports Telemetry_Pipeline
begin

text \<open>
  The ingest path and the drainer of internal/ingest/pipeline.go running concurrently. Every
  WebSocket handler is a thread inside Ingest, drainOnce is one thread with up to drainConcurrency
  goroutines; Admit, Produce, Spool.Write and Spool.Drain are the atomic actions (each holds its own
  lock or is a call out), and a state says which readings are between two of them.
\<close>

section \<open>States and steps\<close>

definition drain_concurrency :: nat where
  "drain_concurrency = 32"

record 'k gateway =
  gw_dedup :: dedup
  gw_spool :: spool
  gw_producer :: 'k
  gw_producing :: "reading multiset"   \<comment> \<open>in Ingest: admitted, Produce not returned\<close>
  gw_spilling :: "reading multiset"    \<comment> \<open>in Ingest: Produce failed, before Spool.Write\<close>
  gw_pending :: "reading list"         \<comment> \<open>in drainOnce: drained, goroutine not started\<close>
  gw_retrying :: "reading multiset"    \<comment> \<open>drain goroutines before Produce returned\<close>
  gw_respooling :: "reading multiset"  \<comment> \<open>drain goroutines whose Produce failed\<close>
  gw_lost :: "reading list"            \<comment> \<open>Spool.Write failed: error returned or logged\<close>
  gw_arrivals :: "reading list"        \<comment> \<open>history: every reading Ingest was called with\<close>

definition new_gateway :: "spool \<Rightarrow> 'k \<Rightarrow> 'k gateway" where
  "new_gateway s k =
     \<lparr>gw_dedup = new_dedup, gw_spool = s, gw_producer = k, gw_producing = {#}, gw_spilling = {#},
      gw_pending = [], gw_retrying = {#}, gw_respooling = {#}, gw_lost = [], gw_arrivals = []\<rparr>"

inductive gw_step ::
  "(reading \<Rightarrow> goerror + bytes) \<Rightarrow> (bytes \<Rightarrow> goerror + reading) \<Rightarrow> 'k producer \<Rightarrow>
   'k gateway \<Rightarrow> 'k gateway \<Rightarrow> bool"
  for m u produce
where
  refused: "admit (device_id r) (sequence r) (gw_dedup g) = (False, d) \<Longrightarrow>
    gw_step m u produce g (g\<lparr>gw_dedup := d, gw_arrivals := gw_arrivals g @ [r]\<rparr>)"
| arrived: "admit (device_id r) (sequence r) (gw_dedup g) = (True, d) \<Longrightarrow>
    gw_step m u produce g
      (g\<lparr>gw_dedup := d, gw_arrivals := gw_arrivals g @ [r], gw_producing := add_mset r (gw_producing g)\<rparr>)"
| produced: "r \<in># gw_producing g \<Longrightarrow> produce r (gw_producer g) = (None, k) \<Longrightarrow>
    gw_step m u produce g (g\<lparr>gw_producing := gw_producing g - {#r#}, gw_producer := k\<rparr>)"
| failed: "r \<in># gw_producing g \<Longrightarrow> produce r (gw_producer g) = (Some e, k) \<Longrightarrow>
    gw_step m u produce g
      (g\<lparr>gw_producing := gw_producing g - {#r#}, gw_spilling := add_mset r (gw_spilling g),
         gw_producer := k\<rparr>)"
| spilled: "r \<in># gw_spilling g \<Longrightarrow> spool_write m r (gw_spool g) = (None, s) \<Longrightarrow>
    gw_step m u produce g (g\<lparr>gw_spilling := gw_spilling g - {#r#}, gw_spool := s\<rparr>)"
| spill_failed: "r \<in># gw_spilling g \<Longrightarrow> spool_write m r (gw_spool g) = (Some e, s) \<Longrightarrow>
    gw_step m u produce g
      (g\<lparr>gw_spilling := gw_spilling g - {#r#}, gw_spool := s, gw_lost := gw_lost g @ [r]\<rparr>)"
| drained: "gw_pending g = [] \<Longrightarrow> gw_retrying g = {#} \<Longrightarrow> gw_respooling g = {#} \<Longrightarrow>
    spool_drain u (gw_spool g) = (Inr rs, s) \<Longrightarrow>
    gw_step m u produce g (g\<lparr>gw_pending := rs, gw_spool := s\<rparr>)"
| drain_failed: "gw_pending g = [] \<Longrightarrow> gw_retrying g = {#} \<Longrightarrow> gw_respooling g = {#} \<Longrightarrow>
    spool_drain u (gw_spool g) = (Inl e, s) \<Longrightarrow>
    gw_step m u produce g (g\<lparr>gw_spool := s\<rparr>)"
| launched: "gw_pending g = r # rs \<Longrightarrow>
    size (gw_retrying g) + size (gw_respooling g) < drain_concurrency \<Longrightarrow>
    gw_step m u produce g (g\<lparr>gw_pending := rs, gw_retrying := add_mset r (gw_retrying g)\<rparr>)"
| retried: "r \<in># gw_retrying g \<Longrightarrow> produce r (gw_producer g) = (None, k) \<Longrightarrow>
    gw_step m u produce g (g\<lparr>gw_retrying := gw_retrying g - {#r#}, gw_producer := k\<rparr>)"
| retry_failed: "r \<in># gw_retrying g \<Longrightarrow> produce r (gw_producer g) = (Some e, k) \<Longrightarrow>
    gw_step m u produce g
      (g\<lparr>gw_retrying := gw_retrying g - {#r#}, gw_respooling := add_mset r (gw_respooling g),
         gw_producer := k\<rparr>)"
| respooled: "r \<in># gw_respooling g \<Longrightarrow> spool_write m r (gw_spool g) = (None, s) \<Longrightarrow>
    gw_step m u produce g (g\<lparr>gw_respooling := gw_respooling g - {#r#}, gw_spool := s\<rparr>)"
| respool_failed: "r \<in># gw_respooling g \<Longrightarrow> spool_write m r (gw_spool g) = (Some e, s) \<Longrightarrow>
    gw_step m u produce g
      (g\<lparr>gw_respooling := gw_respooling g - {#r#}, gw_spool := s, gw_lost := gw_lost g @ [r]\<rparr>)"

inductive gw_reach ::
  "(reading \<Rightarrow> goerror + bytes) \<Rightarrow> (bytes \<Rightarrow> goerror + reading) \<Rightarrow> 'k producer \<Rightarrow>
   'k gateway \<Rightarrow> 'k gateway \<Rightarrow> bool"
  for m u produce g0
where
  start: "gw_reach m u produce g0 g0"
| step: "gw_reach m u produce g0 g \<Longrightarrow> gw_step m u produce g g' \<Longrightarrow> gw_reach m u produce g0 g'"

section \<open>Invariants\<close>

definition in_flight :: "'k gateway \<Rightarrow> reading multiset" where
  "in_flight g = gw_producing g + gw_spilling g + mset (gw_pending g) + gw_retrying g + gw_respooling g"

text \<open>Every copy of a reading the gateway answers for: on the topic, in the spool, or on its way.\<close>

definition gw_total :: "(bytes \<Rightarrow> goerror + reading) \<Rightarrow> ('k \<Rightarrow> reading list) \<Rightarrow> 'k gateway \<Rightarrow> reading multiset" where
  "gw_total u landed g =
     mset (landed (gw_producer g)) + mset (stored_readings u (gw_spool g)) + in_flight g"

definition gw_admitted :: "'k gateway \<Rightarrow> reading list" where
  "gw_admitted g = accepted admit_key reading_key new_dedup (gw_arrivals g)"

definition gw_dedup_inv :: "'k gateway \<Rightarrow> bool" where
  "gw_dedup_inv g \<longleftrightarrow> gw_dedup g = cache_after admit_key reading_key new_dedup (gw_arrivals g)"

definition gw_healthy ::
  "(reading \<Rightarrow> goerror + bytes) \<Rightarrow> (bytes \<Rightarrow> goerror + reading) \<Rightarrow> 'k gateway \<Rightarrow> bool"
where
  "gw_healthy m u g \<longleftrightarrow> spool_healthy m u (gw_spool g) \<and> gw_lost g = [] \<and>
     (\<forall>r. r \<in># in_flight g + mset (stored_readings u (gw_spool g)) \<longrightarrow> storable_reading m r)"

lemma gw_dedup_inv_step: "gw_step m u produce g g' \<Longrightarrow> gw_dedup_inv g \<Longrightarrow> gw_dedup_inv g'"
  by (induction rule: gw_step.induct) (auto simp: gw_dedup_inv_def cache_after_append admit_reading)

lemma gw_arrivals_step: "gw_step m u produce g g' \<Longrightarrow> set (gw_arrivals g) \<subseteq> set (gw_arrivals g')"
  by (induction rule: gw_step.induct) auto

lemma gw_semaphore_step:
  "gw_step m u produce g g' \<Longrightarrow>
   size (gw_retrying g) + size (gw_respooling g) \<le> drain_concurrency \<Longrightarrow>
   size (gw_retrying g') + size (gw_respooling g') \<le> drain_concurrency"
proof (induction rule: gw_step.induct)
  case (retry_failed r g e k)
  then show ?case by (auto simp: size_Diff_singleton dest: multi_member_split)
qed (auto simp: size_Diff_singleton)

text \<open>A write or a drain of a healthy spool does what its contract says.\<close>

lemma healthy_write:
  assumes "spool_healthy m u s" and "storable_reading m r" and "spool_write m r s = (e, s')"
  shows "e = None" and "spool_healthy m u s'" and "stored_readings u s' = stored_readings u s @ [r]"
  using sp.store_appends [OF assms(1,2)] assms(3) by simp_all

lemma healthy_drain:
  assumes "spool_healthy m u s" and "spool_drain u s = (x, s')"
  shows "x = Inr (stored_readings u s)" and "spool_healthy m u s'" and "stored_readings u s' = []"
  using sp.drain_returns [OF assms(1)] assms(2) by simp_all

text \<open>
  How a step changes what the gateway answers for: it adds the readings it admits, and otherwise only
  moves readings; a producer that is not exact may add copies, never remove one.
\<close>

definition conserves ::
  "'k producer \<Rightarrow> (bytes \<Rightarrow> goerror + reading) \<Rightarrow> ('k \<Rightarrow> reading list) \<Rightarrow> 'k gateway \<Rightarrow> 'k gateway \<Rightarrow>
   reading multiset \<Rightarrow> bool"
where
  "conserves produce u landed g g' d \<longleftrightarrow>
     (producer_ok produce landed \<longrightarrow> gw_total u landed g + d \<subseteq># gw_total u landed g') \<and>
     (producer_exact produce landed \<longrightarrow> gw_total u landed g' = gw_total u landed g + d)"

lemma conserves_eq: "gw_total u landed g' = gw_total u landed g + d \<Longrightarrow> conserves produce u landed g g' d"
  by (simp add: conserves_def)

lemma conserves_produce_ok:
  assumes "produce r (gw_producer g) = (None, k)" and "in_flight g = add_mset r (in_flight g')"
    and "gw_producer g' = k" and "gw_spool g' = gw_spool g"
  shows "conserves produce u landed g g' {#}"
  using assms producer_okD(1) [of produce landed r "gw_producer g"]
    producer_exactD(1) [of produce landed r "gw_producer g"]
  by (auto simp: conserves_def gw_total_def)

lemma conserves_produce_failed:
  assumes "produce r (gw_producer g) = (Some e, k)" and "in_flight g = in_flight g'"
    and "gw_producer g' = k" and "gw_spool g' = gw_spool g"
  shows "conserves produce u landed g g' {#}"
  using assms producer_okD(2) [of produce landed r "gw_producer g"]
    producer_exactD(2) [of produce landed r "gw_producer g"]
  by (auto simp: conserves_def gw_total_def)

lemma conserves_write:
  assumes "spool_healthy m u (gw_spool g)" and "storable_reading m r"
    and "spool_write m r (gw_spool g) = (None, s)" and "in_flight g = add_mset r (in_flight g')"
    and "gw_producer g' = gw_producer g" and "gw_spool g' = s"
  shows "conserves produce u landed g g' {#}"
  using healthy_write [OF assms(1,2,3)] assms(4,5,6)
  by (intro conserves_eq) (simp add: gw_total_def)

lemma healthy_move:
  assumes "gw_healthy m u g" and "in_flight g' \<subseteq># in_flight g"
    and "gw_spool g' = gw_spool g" and "gw_lost g' = gw_lost g"
  shows "gw_healthy m u g'"
  using assms mset_subset_eqD [OF assms(2)] by (auto simp: gw_healthy_def)

lemma healthy_written:
  assumes "gw_healthy m u g" and "in_flight g = add_mset r (in_flight g')"
    and "spool_write m r (gw_spool g) = (e, s)" and "gw_spool g' = s" and "gw_lost g' = gw_lost g"
  shows "gw_healthy m u g'" and "e = None" and "storable_reading m r"
proof -
  show r: "storable_reading m r" using assms(1,2) by (simp add: gw_healthy_def)
  have h: "spool_healthy m u (gw_spool g)" using assms(1) by (simp add: gw_healthy_def)
  from healthy_write [OF h r assms(3)] show "e = None" by simp
  from healthy_write [OF h r assms(3)] assms show "gw_healthy m u g'"
    by (auto simp: gw_healthy_def)
qed

lemma gw_step_conserves:
  "gw_step m u produce g g' \<Longrightarrow> gw_healthy m u g \<Longrightarrow> gw_dedup_inv g \<Longrightarrow>
   list_all (storable_reading m) (gw_arrivals g') \<Longrightarrow>
   gw_healthy m u g' \<and>
   (\<exists>d. mset (gw_admitted g') = mset (gw_admitted g) + d \<and> conserves produce u landed g g' d)"
proof (induction rule: gw_step.induct)
  case (refused r g d)
  let ?g = "g\<lparr>gw_dedup := d, gw_arrivals := gw_arrivals g @ [r]\<rparr>"
  have "gw_healthy m u ?g"
    using refused.prems(1) by (rule healthy_move) (simp_all add: in_flight_def)
  moreover have "gw_admitted ?g = gw_admitted g"
    using refused by (simp add: gw_admitted_def accepted_append gw_dedup_inv_def admit_reading Let_def)
  moreover have "conserves produce u landed g ?g {#}"
    by (rule conserves_eq) (simp add: gw_total_def in_flight_def)
  ultimately show ?case by auto
next
  case (arrived r g d)
  let ?g = "g\<lparr>gw_dedup := d, gw_arrivals := gw_arrivals g @ [r],
      gw_producing := add_mset r (gw_producing g)\<rparr>"
  have "gw_healthy m u ?g"
    using arrived by (auto simp: gw_healthy_def in_flight_def)
  moreover have "gw_admitted ?g = gw_admitted g @ [r]"
    using arrived by (simp add: gw_admitted_def accepted_append gw_dedup_inv_def admit_reading Let_def)
  moreover have "conserves produce u landed g ?g {#r#}"
    by (rule conserves_eq) (simp add: gw_total_def in_flight_def)
  ultimately show ?case by auto
next
  case (produced r g k)
  let ?g = "g\<lparr>gw_producing := gw_producing g - {#r#}, gw_producer := k\<rparr>"
  have f: "in_flight g = add_mset r (in_flight ?g)" using produced(1) by (simp add: in_flight_def)
  have "gw_healthy m u ?g" using produced.prems(1) f by (rule_tac healthy_move) simp_all
  moreover have "conserves produce u landed g ?g {#}"
    using produced(2) f by (rule conserves_produce_ok) simp_all
  ultimately show ?case by (auto simp: gw_admitted_def)
next
  case (failed r g e k)
  let ?g = "g\<lparr>gw_producing := gw_producing g - {#r#}, gw_spilling := add_mset r (gw_spilling g),
      gw_producer := k\<rparr>"
  have f: "in_flight g = in_flight ?g" using failed(1) by (simp add: in_flight_def)
  have "gw_healthy m u ?g" using failed.prems(1) f by (rule_tac healthy_move) simp_all
  moreover have "conserves produce u landed g ?g {#}"
    using failed(2) f by (rule conserves_produce_failed) simp_all
  ultimately show ?case by (auto simp: gw_admitted_def)
next
  case (spilled r g s)
  let ?g = "g\<lparr>gw_spilling := gw_spilling g - {#r#}, gw_spool := s\<rparr>"
  have f: "in_flight g = add_mset r (in_flight ?g)" using spilled(1) by (simp add: in_flight_def)
  note h = healthy_written [OF spilled.prems(1) f spilled(2)]
  have "conserves produce u landed g ?g {#}"
    using spilled.prems(1) h(3) spilled(2) f
    by (intro conserves_write [of m u g r s]) (simp_all add: gw_healthy_def)
  with h(1) show ?case by (auto simp: gw_admitted_def)
next
  case (spill_failed r g e s)
  let ?g = "g\<lparr>gw_spilling := gw_spilling g - {#r#}, gw_spool := s\<rparr>"
  have "in_flight g = add_mset r (in_flight ?g)" using spill_failed(1) by (simp add: in_flight_def)
  from healthy_written(2) [OF spill_failed.prems(1) this spill_failed(2)] show ?case by simp
next
  case (drained g rs s)
  let ?g = "g\<lparr>gw_pending := rs, gw_spool := s\<rparr>"
  have h: "spool_healthy m u (gw_spool g)" using drained.prems(1) by (simp add: gw_healthy_def)
  note d = healthy_drain [OF h drained(4)]
  have "gw_healthy m u ?g"
    using drained.prems(1) d drained(1) by (auto simp: gw_healthy_def in_flight_def)
  moreover have "conserves produce u landed g ?g {#}"
    using d drained(1) by (intro conserves_eq) (simp add: gw_total_def in_flight_def)
  ultimately show ?case by (auto simp: gw_admitted_def)
next
  case (drain_failed g e s)
  have "spool_healthy m u (gw_spool g)" using drain_failed.prems(1) by (simp add: gw_healthy_def)
  from healthy_drain(1) [OF this drain_failed(4)] show ?case by simp
next
  case (launched g r rs)
  let ?g = "g\<lparr>gw_pending := rs, gw_retrying := add_mset r (gw_retrying g)\<rparr>"
  have f: "in_flight g = in_flight ?g" using launched(1) by (simp add: in_flight_def)
  have "gw_healthy m u ?g" using launched.prems(1) f by (rule_tac healthy_move) simp_all
  moreover have "conserves produce u landed g ?g {#}"
    using f by (intro conserves_eq) (simp add: gw_total_def)
  ultimately show ?case by (auto simp: gw_admitted_def)
next
  case (retried r g k)
  let ?g = "g\<lparr>gw_retrying := gw_retrying g - {#r#}, gw_producer := k\<rparr>"
  have f: "in_flight g = add_mset r (in_flight ?g)" using retried(1) by (simp add: in_flight_def)
  have "gw_healthy m u ?g" using retried.prems(1) f by (rule_tac healthy_move) simp_all
  moreover have "conserves produce u landed g ?g {#}"
    using retried(2) f by (rule conserves_produce_ok) simp_all
  ultimately show ?case by (auto simp: gw_admitted_def)
next
  case (retry_failed r g e k)
  let ?g = "g\<lparr>gw_retrying := gw_retrying g - {#r#}, gw_respooling := add_mset r (gw_respooling g),
      gw_producer := k\<rparr>"
  have f: "in_flight g = in_flight ?g" using retry_failed(1) by (simp add: in_flight_def)
  have "gw_healthy m u ?g" using retry_failed.prems(1) f by (rule_tac healthy_move) simp_all
  moreover have "conserves produce u landed g ?g {#}"
    using retry_failed(2) f by (rule conserves_produce_failed) simp_all
  ultimately show ?case by (auto simp: gw_admitted_def)
next
  case (respooled r g s)
  let ?g = "g\<lparr>gw_respooling := gw_respooling g - {#r#}, gw_spool := s\<rparr>"
  have f: "in_flight g = add_mset r (in_flight ?g)" using respooled(1) by (simp add: in_flight_def)
  note h = healthy_written [OF respooled.prems(1) f respooled(2)]
  have "conserves produce u landed g ?g {#}"
    using respooled.prems(1) h(3) respooled(2) f
    by (intro conserves_write [of m u g r s]) (simp_all add: gw_healthy_def)
  with h(1) show ?case by (auto simp: gw_admitted_def)
next
  case (respool_failed r g e s)
  let ?g = "g\<lparr>gw_respooling := gw_respooling g - {#r#}, gw_spool := s\<rparr>"
  have "in_flight g = add_mset r (in_flight ?g)" using respool_failed(1) by (simp add: in_flight_def)
  from healthy_written(2) [OF respool_failed.prems(1) this respool_failed(2)] show ?case by simp
qed


inductive_cases gw_stepE: "gw_step m u produce g g'"

lemma new_gateway_ok:
  assumes "spool_healthy m u s" and "list_all (storable_reading m) (stored_readings u s)"
  shows "gw_healthy m u (new_gateway s k)" and "gw_dedup_inv (new_gateway s k)"
  using assms by (auto simp: gw_healthy_def gw_dedup_inv_def new_gateway_def in_flight_def list_all_iff)

lemma conserves_trans:
  assumes "conserves produce u landed g1 g2 a" and "conserves produce u landed g2 g3 b"
  shows "conserves produce u landed g1 g3 (a + b)"
  unfolding conserves_def
proof (intro conjI impI)
  assume p: "producer_ok produce landed"
  then have "gw_total u landed g1 + a \<subseteq># gw_total u landed g2"
    using assms(1) by (simp add: conserves_def)
  then have "gw_total u landed g1 + (a + b) \<subseteq># gw_total u landed g2 + b"
    by (simp flip: add.assoc)
  moreover have "gw_total u landed g2 + b \<subseteq># gw_total u landed g3"
    using assms(2) p by (simp add: conserves_def)
  ultimately show "gw_total u landed g1 + (a + b) \<subseteq># gw_total u landed g3"
    by (rule subset_mset.order_trans)
next
  assume "producer_exact produce landed"
  with assms show "gw_total u landed g3 = gw_total u landed g1 + (a + b)"
    by (simp add: conserves_def add.assoc)
qed

lemma gw_reach_conserves:
  assumes "gw_reach m u produce (new_gateway s k) g"
    and "spool_healthy m u s" and "list_all (storable_reading m) (stored_readings u s)"
  shows "list_all (storable_reading m) (gw_arrivals g) \<Longrightarrow>
    gw_healthy m u g \<and> gw_dedup_inv g \<and>
    conserves produce u landed (new_gateway s k) g (mset (gw_admitted g))"
  using assms(1)
proof (induction rule: gw_reach.induct)
  case start
  then show ?case
    using new_gateway_ok [OF assms(2,3), of k]
    by (simp add: conserves_def gw_admitted_def new_gateway_def)
next
  case (step g g')
  then have st: "list_all (storable_reading m) (gw_arrivals g)"
    using gw_arrivals_step [OF step.hyps(2)] by (auto simp: list_all_iff)
  note ih = step.IH [OF st]
  from gw_step_conserves [OF step.hyps(2) _ _ step.prems, of landed] ih obtain d
    where d: "gw_healthy m u g'" "mset (gw_admitted g') = mset (gw_admitted g) + d"
      "conserves produce u landed g g' d" by blast
  have "conserves produce u landed (new_gateway s k) g' (mset (gw_admitted g) + d)"
    using ih d(3) by (blast intro: conserves_trans)
  with d ih gw_dedup_inv_step [OF step.hyps(2)] show ?case by simp
qed

lemma gw_reach_semaphore:
  "gw_reach m u produce g0 g \<Longrightarrow>
   size (gw_retrying g0) + size (gw_respooling g0) \<le> drain_concurrency \<Longrightarrow>
   size (gw_retrying g) + size (gw_respooling g) \<le> drain_concurrency"
  by (induction rule: gw_reach.induct) (auto dest: gw_semaphore_step)

lemma gw_admitted_reference:
  "within_window (gw_arrivals g) \<Longrightarrow> gw_admitted g = reference_dedup (gw_arrivals g)"
  using tel.accepted_start [OF fits_within_window]
  by (simp add: gw_admitted_def reference_dedup_first_occ)

section \<open>An interleaving\<close>

text \<open>
  One reading arrives while the producer fails, is spilled, and is taken out of the spool by the
  drainer; the goroutine that is to retry it has not started.
\<close>

definition drained_state :: "dedup \<Rightarrow> spool \<Rightarrow> 'k \<Rightarrow> reading \<Rightarrow> 'k gateway" where
  "drained_state d s k r =
     \<lparr>gw_dedup = d, gw_spool = s, gw_producer = k, gw_producing = {#}, gw_spilling = {#},
      gw_pending = [r], gw_retrying = {#}, gw_respooling = {#}, gw_lost = [], gw_arrivals = [r]\<rparr>"

lemma gw_reach_drained:
  assumes "spool_healthy m u s" and "stored_readings u s = []" and "storable_reading m r"
    and "produce r k = (Some e, k')"
  shows "\<exists>d s'. gw_reach m u produce (new_gateway s k) (drained_state d s' k' r) \<and>
    spool_drain u (snd (spool_write m r s)) = (Inr [r], s')"
proof -
  let ?g0 = "new_gateway s k"
  have "fst (admit_key (reading_key r) new_dedup)"
    by (rule tel.admit_fresh) (simp_all add: tel.known_start)
  then obtain d where d: "admit (device_id r) (sequence r) (gw_dedup ?g0) = (True, d)"
    by (metis admit_reading new_gateway_def gateway.simps(1) prod.collapse)
  define s1 where "s1 = snd (spool_write m r s)"
  have w: "spool_write m r s = (None, s1)" "spool_healthy m u s1" "stored_readings u s1 = [r]"
    using sp.store_appends [OF assms(1,3)] assms(2) by (simp_all add: s1_def prod_eq_iff)
  define s2 where "s2 = snd (spool_drain u s1)"
  have dr: "spool_drain u s1 = (Inr [r], s2)"
    using sp.drain_returns [OF w(2)] w(3) by (simp add: s2_def prod_eq_iff)
  note st = gw_reach.step
  note r1 = st [OF gw_reach.start gw_step.arrived [OF d], of m u produce]
  note r2 = st [OF r1 gw_step.failed [of r _ produce e k']]
  note r3 = st [OF r2 gw_step.spilled [of r _ m s1]]
  note r4 = st [OF r3 gw_step.drained [of _ u "[r]" s2]]
  from r4 assms(4) w(1) dr have "gw_reach m u produce ?g0 (drained_state d s2 k' r)"
    by (simp add: new_gateway_def drained_state_def)
  with dr show ?thesis by (auto simp: s1_def)
qed

lemma gw_reach_recovered:
  assumes "gw_reach m u produce g0 (drained_state d s k r)" and "produce r k = (None, k')"
  shows "gw_reach m u produce g0
    ((drained_state d s k r)\<lparr>gw_pending := [], gw_producer := k'\<rparr>)"
proof -
  note st = gw_reach.step
  note r1 = st [OF assms(1) gw_step.launched [of _ r "[]"]]
  note r2 = st [OF r1 gw_step.retried [of r _ produce k']]
  from r2 assms(2) show ?thesis by (simp add: drained_state_def drain_concurrency_def)
qed

abbreviation demo_m :: "reading \<Rightarrow> goerror + bytes" where
  "demo_m \<equiv> table_marshal demo_table"

abbreviation demo_u :: "bytes \<Rightarrow> goerror + reading" where
  "demo_u \<equiv> table_unmarshal demo_table"

abbreviation demo_g0 :: "(nat \<times> reading list) gateway" where
  "demo_g0 \<equiv> new_gateway (demo_spool [] []) (1, [])"

lemma demo_spool_ok:
  "spool_healthy demo_m demo_u (demo_spool [] [])" "stored_readings demo_u (demo_spool [] []) = []"
  using demo_pipeline_ok [of 0]
  by (simp_all add: pipeline_ok_def demo_pipeline_def new_pipeline_def stored_readings_def
      demo_spool_def demo_file_def)

lemma demo_drained_state:
  "\<exists>d s. gw_reach demo_m demo_u fake_produce demo_g0 (drained_state d s (0, []) (demo_reading 1)) \<and>
    spool_healthy demo_m demo_u s \<and> stored_readings demo_u s = [] \<and>
    spool_drain demo_u (snd (spool_write demo_m (demo_reading 1) (demo_spool [] [])))
      = (Inr [demo_reading 1], s)"
proof -
  have p: "fake_produce (demo_reading 1) (1, []) = (Some (Errno ''simulated producer failure''), (0, []))"
    by (simp add: fake_produce_def)
  obtain d s where s: "gw_reach demo_m demo_u fake_produce demo_g0 (drained_state d s (0, []) (demo_reading 1))"
    "spool_drain demo_u (snd (spool_write demo_m (demo_reading 1) (demo_spool [] [])))
      = (Inr [demo_reading 1], s)"
    using gw_reach_drained [of demo_m demo_u "demo_spool [] []" "demo_reading 1" fake_produce, OF demo_spool_ok demo_storable(1) p] by blast
  have "spool_healthy demo_m demo_u (snd (spool_write demo_m (demo_reading 1) (demo_spool [] [])))"
    using sp.store_appends [OF demo_spool_ok(1) demo_storable(1)] by simp
  from healthy_drain [OF this s(2)] s show ?thesis by blast
qed

lemma demo_arrivals:
  "list_all (storable_reading demo_m) [demo_reading 1]" "within_window [demo_reading 1]"
  "reference_dedup [demo_reading 1] = [demo_reading 1]"
  by (simp_all add: demo_storable within_window_def max_sequences_per_device_def reference_dedup_def)

section \<open>Properties of the concurrent gateway\<close>

text \<open>
  C3. Nothing is lost: in every state that any interleaving of WebSocket handlers, the drainer and its
  goroutines can reach, over a producer that keeps what it acknowledges, every copy the topic and the
  spool held at the start and one copy of every reading the reference deduplication keeps is on the
  topic, in the spool or between two calls of a running Ingest or drainOnce.
\<close>

theorem gateway_loses_nothing:
  assumes "gw_reach m u produce (new_gateway s k) g" and "producer_ok produce landed"
    and "spool_healthy m u s" and "list_all (storable_reading m) (stored_readings u s)"
    and "list_all (storable_reading m) (gw_arrivals g)" and "within_window (gw_arrivals g)"
  shows "mset (landed k) + mset (stored_readings u s) + mset (reference_dedup (gw_arrivals g))
    \<subseteq># mset (landed (gw_producer g)) + mset (stored_readings u (gw_spool g)) + in_flight g"
  using gw_reach_conserves [OF assms(1,3,4,5), of landed] assms(2)
  by (simp add: conserves_def gw_admitted_reference [OF assms(6)] gw_total_def new_gateway_def in_flight_def)

theorem gateway_loses_nothing_witness:
  "\<exists>d s. gw_reach demo_m demo_u fake_produce demo_g0 (drained_state d s (0, []) (demo_reading 1)) \<and>
    {#demo_reading 1#} \<subseteq># in_flight (drained_state d s (0 :: nat, [] :: reading list) (demo_reading 1))"
proof -
  obtain d s where r: "gw_reach demo_m demo_u fake_produce demo_g0 (drained_state d s (0, []) (demo_reading 1))"
    and s: "stored_readings demo_u s = []" using demo_drained_state by blast
  have a: "gw_arrivals (drained_state d s (0 :: nat, [] :: reading list) (demo_reading 1)) = [demo_reading 1]"
    by (simp add: drained_state_def)
  have "list_all (storable_reading demo_m) (stored_readings demo_u (demo_spool [] []))"
    by (simp add: demo_spool_ok(2))
  note gateway_loses_nothing [OF r producer_exact_ok [OF fake_produce_exact] demo_spool_ok(1) this,
      unfolded a, OF demo_arrivals(1,2)]
  with r s demo_spool_ok(2) demo_arrivals(3) show ?thesis
    by (intro exI [of _ d] exI [of _ s]) (simp add: drained_state_def)
qed

text \<open>
  C4. Exactly once under concurrency: over a producer that never lands what it reports as failed, when
  no call is running and the spool is empty the topic holds what it held, what was spooled, and
  exactly one copy of every reading of the reference deduplication, in whatever order the calls
  interleaved.
\<close>

theorem gateway_exactly_once:
  assumes "gw_reach m u produce (new_gateway s k) g" and "producer_exact produce landed"
    and "spool_healthy m u s" and "list_all (storable_reading m) (stored_readings u s)"
    and "list_all (storable_reading m) (gw_arrivals g)" and "within_window (gw_arrivals g)"
    and "in_flight g = {#}" and "stored_readings u (gw_spool g) = []"
  shows "mset (landed (gw_producer g)) =
    mset (landed k) + mset (stored_readings u s) + mset (reference_dedup (gw_arrivals g))"
  using gw_reach_conserves [OF assms(1,3,4,5), of landed] assms(2,7,8)
  by (simp add: conserves_def gw_admitted_reference [OF assms(6)] gw_total_def new_gateway_def in_flight_def)

theorem gateway_exactly_once_witness:
  "\<exists>g. gw_reach demo_m demo_u fake_produce demo_g0 g \<and>
    mset (snd (gw_producer g)) = {#demo_reading 1#}"
proof -
  obtain d s where r0: "gw_reach demo_m demo_u fake_produce demo_g0 (drained_state d s (0, []) (demo_reading 1))"
    and s: "stored_readings demo_u s = []" using demo_drained_state by blast
  let ?g = "(drained_state d s (0, []) (demo_reading 1))
      \<lparr>gw_pending := [], gw_producer := (0 :: nat, [demo_reading 1])\<rparr>"
  have r: "gw_reach demo_m demo_u fake_produce demo_g0 ?g"
    using r0 by (rule gw_reach_recovered) (simp add: fake_produce_def)
  have a: "gw_arrivals ?g = [demo_reading 1]" "in_flight ?g = {#}" "gw_spool ?g = s"
    by (simp_all add: drained_state_def in_flight_def)
  have "list_all (storable_reading demo_m) (stored_readings demo_u (demo_spool [] []))"
    by (simp add: demo_spool_ok(2))
  note gateway_exactly_once [OF r fake_produce_exact demo_spool_ok(1) this, unfolded a,
      OF demo_arrivals(1,2) refl s]
  with r demo_spool_ok(2) demo_arrivals(3) show ?thesis by (intro exI [of _ ?g]) simp
qed



text \<open>
  An empty spool is not a drained gateway: a state is reachable in which no Ingest call is
  running, SizeBytes returns 0 and nothing failed to be written, and a reading Ingest accepted is
  neither on the topic nor on disk but only in the memory of drainOnce.
\<close>

theorem empty_spool_not_drained:
  "\<exists>g. gw_reach demo_m demo_u fake_produce demo_g0 g \<and>
     gw_producing g = {#} \<and> gw_spilling g = {#} \<and> gw_lost g = [] \<and>
     fst (spool_size_bytes (gw_spool g)) = Inr 0 \<and> gw_arrivals g = [demo_reading 1] \<and>
     snd (gw_producer g) = [] \<and> gw_pending g = [demo_reading 1]"
proof -
  obtain d s where r: "gw_reach demo_m demo_u fake_produce demo_g0 (drained_state d s (0, []) (demo_reading 1))"
    and s: "spool_drain demo_u (snd (spool_write demo_m (demo_reading 1) (demo_spool [] [])))
      = (Inr [demo_reading 1], s)" using demo_drained_state by blast
  have "fst (spool_size_bytes (snd (spool_drain demo_u
      (snd (spool_write demo_m (demo_reading 1) (demo_spool [] [])))))) = Inr 0"
    by code_simp
  with r s show ?thesis
    by (intro exI [of _ "drained_state d s (0, []) (demo_reading 1)"]) (simp add: drained_state_def)
qed

end
