(* ===== verification/Sha256.thy ===== *)
theory Sha256
  imports Prelude
begin

text \<open>
  SHA-256 as crypto/sha256 computes it (FIPS 180-4), on byte lists: padding, the message schedule and
  the compression function on 32-bit words that wrap around. FinalStateDigest feeds its hash by
  several Write calls; the digest depends only on the concatenation of what was written.
\<close>

section \<open>Words\<close>

type_synonym word32 = "32 word"

unbundle bit_operations_syntax

definition rotr :: "nat \<Rightarrow> word32 \<Rightarrow> word32" where
  "rotr n x = (drop_bit n x OR push_bit (32 - n) x)"

definition big_sigma0 :: "word32 \<Rightarrow> word32" where
  "big_sigma0 x = (rotr 2 x XOR rotr 13 x XOR rotr 22 x)"

definition big_sigma1 :: "word32 \<Rightarrow> word32" where
  "big_sigma1 x = (rotr 6 x XOR rotr 11 x XOR rotr 25 x)"

definition small_sigma0 :: "word32 \<Rightarrow> word32" where
  "small_sigma0 x = (rotr 7 x XOR rotr 18 x XOR drop_bit 3 x)"

definition small_sigma1 :: "word32 \<Rightarrow> word32" where
  "small_sigma1 x = (rotr 17 x XOR rotr 19 x XOR drop_bit 10 x)"

definition sha_ch :: "word32 \<Rightarrow> word32 \<Rightarrow> word32 \<Rightarrow> word32" where
  "sha_ch x y z = ((x AND y) XOR (NOT x AND z))"

definition sha_maj :: "word32 \<Rightarrow> word32 \<Rightarrow> word32 \<Rightarrow> word32" where
  "sha_maj x y z = ((x AND y) XOR (x AND z) XOR (y AND z))"

section \<open>Constants\<close>

definition sha_k :: "word32 list" where
  "sha_k = 
    [1116352408, 1899447441, 3049323471, 3921009573, 961987163, 1508970993, 2453635748,
     2870763221, 3624381080, 310598401, 607225278, 1426881987, 1925078388, 2162078206,
     2614888103, 3248222580, 3835390401, 4022224774, 264347078, 604807628, 770255983,
     1249150122, 1555081692, 1996064986, 2554220882, 2821834349, 2952996808, 3210313671,
     3336571891, 3584528711, 113926993, 338241895, 666307205, 773529912, 1294757372,
     1396182291, 1695183700, 1986661051, 2177026350, 2456956037, 2730485921, 2820302411,
     3259730800, 3345764771, 3516065817, 3600352804, 4094571909, 275423344, 430227734,
     506948616, 659060556, 883997877, 958139571, 1322822218, 1537002063, 1747873779,
     1955562222, 2024104815, 2227730452, 2361852424, 2428436474, 2756734187, 3204031479,
     3329325298]"

definition sha_init :: "word32 list" where
  "sha_init = 
    [1779033703, 3144134277, 1013904242, 2773480762, 1359893119, 2600822924, 528734635,
     1541459225]"

section \<open>Padding and schedule\<close>

definition sha_pad :: "bytes \<Rightarrow> bytes" where
  "sha_pad b =
     b @ [128] @ replicate ((119 - length b mod 64) mod 64) 0 @ put_uint64 (of_nat (8 * length b))"

fun words_of :: "bytes \<Rightarrow> word32 list" where
  "words_of (a # b # c # d # bs) = get_uint32 [a, b, c, d] # words_of bs"
| "words_of _ = []"

text \<open>Extends the sixteen words of a block to the schedule; the list is kept newest first.\<close>

fun extend_schedule :: "nat \<Rightarrow> word32 list \<Rightarrow> word32 list" where
  "extend_schedule 0 ws = ws"
| "extend_schedule (Suc n) ws =
     extend_schedule n ((small_sigma1 (ws ! 1) + ws ! 6 + small_sigma0 (ws ! 14) + ws ! 15) # ws)"

definition sha_schedule :: "word32 list \<Rightarrow> word32 list" where
  "sha_schedule block = rev (extend_schedule 48 (rev block))"

section \<open>Compression\<close>

fun sha_round :: "word32 \<times> word32 \<Rightarrow> word32 list \<Rightarrow> word32 list" where
  "sha_round (k, w) [a, b, c, d, e, f, g, h] =
     (let t1 = h + big_sigma1 e + sha_ch e f g + k + w;
          t2 = big_sigma0 a + sha_maj a b c
      in [t1 + t2, a, b, c, d + t1, e, f, g])"
| "sha_round _ s = s"

definition sha_block :: "word32 list \<Rightarrow> word32 list \<Rightarrow> word32 list" where
  "sha_block block s = map2 (+) s (fold sha_round (zip sha_k (sha_schedule block)) s)"

function sha_blocks :: "word32 list \<Rightarrow> word32 list \<Rightarrow> word32 list" where
  "sha_blocks ws s =
     (if length ws < 16 then s else sha_blocks (drop 16 ws) (sha_block (take 16 ws) s))"
  by auto
termination by (relation "measure (\<lambda>(ws, _). length ws)") auto

declare sha_blocks.simps [simp del]

definition sha256 :: "bytes \<Rightarrow> bytes" where
  "sha256 b = concat (map put_uint32 (sha_blocks (words_of (sha_pad b)) sha_init))"

section \<open>Shape\<close>

lemma length_words_of: "length (words_of b) = length b div 4"
  by (induction b rule: words_of.induct) auto

lemma length_sha_pad: "64 dvd length (sha_pad b)"
proof -
  obtain q r where b: "length b = 64 * q + r" "r < 64"
    by (metis mod_less_divisor mult_div_mod_eq zero_less_numeral)
  then have "length (sha_pad b) = 64 * q + r + 9 + (119 - r) mod 64"
    by (simp add: sha_pad_def bytes_simps)
  moreover have "(119 - r) mod 64 = (if r \<le> 55 then 55 - r else 119 - r)"
    using b(2) by (cases "r \<le> 55") (auto simp: mod_if)
  ultimately have "length (sha_pad b) = 64 * (if r \<le> 55 then q + 1 else q + 2)"
    using b(2) by auto
  then show ?thesis by simp
qed

lemma length_sha_round [simp]: "length (sha_round kw s) = length s"
  by (induction kw s rule: sha_round.induct) (simp_all add: Let_def)

lemma length_sha_rounds [simp]: "length (fold sha_round kws s) = length s"
  by (induction kws arbitrary: s) auto

lemma length_sha_blocks [simp]: "length (sha_blocks ws s) = length s"
proof (induction ws s rule: sha_blocks.induct)
  case (1 ws s)
  then show ?case by (subst sha_blocks.simps) (simp add: sha_block_def)
qed

lemma length_sha256: "length (sha256 b) = 32"
proof -
  have "length (concat (map put_uint32 ws)) = 4 * length ws" for ws :: "word32 list"
    by (induction ws) (auto simp: bytes_simps)
  then show ?thesis by (simp add: sha256_def sha_init_def)
qed

end
