(* ===== verification/Digest.thy ===== *)
theory Digest
  imports Gateway_Concurrency Sha256 "HOL-Library.List_Lexorder" "HOL-Library.Char_ord"
    "HOL-Library.Product_Lexorder"
begin

text \<open>
  FinalStateDigest of internal/ingest/reference.go: the readings in the order of (device_id,
  sequence), their fields written to a SHA-256 hash. Go compares strings by their bytes, which is the
  lexicographic order of the character codes, and pairs in sequence, which is the order of the
  library's instances used here. sort.Slice may leave equal keys in any order; the theorems say where
  that does not matter.
\<close>

section \<open>Definitions\<close>

definition sort_readings :: "reading list \<Rightarrow> reading list" where
  "sort_readings rs = sort_key reading_key rs"

text \<open>One reading: the id, then a 17-byte buffer of which the last byte is never set.\<close>

definition digest_record :: "reading \<Rightarrow> bytes" where
  "digest_record r = str_bytes (device_id r) @ put_uint64 (sequence r) @ put_uint64 (reading_value r) @ [0]"

definition digest_input :: "reading list \<Rightarrow> bytes" where
  "digest_input sorted_rs = concat (map digest_record sorted_rs)"

definition final_state_digest :: "reading list \<Rightarrow> bytes" where
  "final_state_digest rs = sha256 (digest_input (sort_readings rs))"

section \<open>Lemmas\<close>

text \<open>With distinct keys there is one sorted arrangement, whatever the sorting algorithm.\<close>

lemma sorted_arrangement_unique:
  assumes "mset xs = mset ys" and "sorted (map reading_key xs)" and "distinct (map reading_key ys)"
  shows "xs = sort_readings ys"
proof -
  have "inj_on reading_key (set ys)" using assms(3) by (simp add: distinct_map)
  then have inj: "inj_on reading_key (set xs)" using assms(1) by (metis set_mset_mset)
  have "mset (map reading_key xs) = mset (map reading_key (sort_readings ys))"
    using assms(1) by (simp add: sort_readings_def)
  then have "map reading_key xs = map reading_key (sort_readings ys)"
    using assms(2) by (metis sort_readings_def sorted_sort_key sorted_list_of_multiset_mset sorted_sort_id)
  moreover have "set (sort_readings ys) = set xs"
    using assms(1) by (metis set_mset_mset set_sort sort_readings_def)
  ultimately show ?thesis using inj
    by (metis inj_on_map_eq_map sup.idem)
qed

lemma sort_readings_perm:
  assumes "mset xs = mset ys" and "distinct (map reading_key ys)"
  shows "sort_readings xs = sort_readings ys"
  using sorted_arrangement_unique [of "sort_readings xs" ys] assms
  by (simp add: sort_readings_def)

lemma digest_record_split:
  assumes "digest_record r @ bs = digest_record s @ cs"
    and "length (device_id r) = length (device_id s)"
  shows "device_id r = device_id s \<and> sequence r = sequence s \<and>
    reading_value r = reading_value s \<and> bs = cs"
  using assms by (simp add: digest_record_def bytes_simps)

lemma digest_input_inject:
  "digest_input rs = digest_input ss \<Longrightarrow> list_all (\<lambda>r. length (device_id r) = n) rs \<Longrightarrow>
   list_all (\<lambda>r. length (device_id r) = n) ss \<Longrightarrow>
   map (\<lambda>r. (device_id r, sequence r, reading_value r)) rs =
   map (\<lambda>r. (device_id r, sequence r, reading_value r)) ss"
proof (induction rs arbitrary: ss)
  case Nil
  then show ?case by (cases ss) (auto simp: digest_input_def digest_record_def)
next
  case (Cons r rs)
  then obtain s ss' where ss: "ss = s # ss'"
    by (cases ss) (auto simp: digest_input_def digest_record_def)
  with Cons.prems have "digest_record r @ digest_input rs = digest_record s @ digest_input ss'"
    "length (device_id r) = length (device_id s)"
    by (simp_all add: digest_input_def)
  from digest_record_split [OF this] Cons ss show ?case by auto
qed

text \<open>The reference deduplication leaves one reading for each key.\<close>

lemma distinct_reference: "distinct (map reading_key (reference_dedup rs))"
  by (simp add: reference_dedup_first_occ distinct_first_occ)

lemma mset_sort_readings [simp]: "mset (sort_readings rs) = mset rs"
  by (simp add: sort_readings_def)

section \<open>Properties\<close>

text \<open>
  The digest does not depend on the order of delivery, nor on how sort.Slice arranges equal keys:
  for readings with distinct (device, sequence), any arrangement of any permutation of them that is
  sorted by key is hashed to FinalStateDigest.
\<close>

theorem digest_order_independent:
  assumes "distinct (map reading_key rs)" and "mset arranged = mset rs"
    and "sorted (map reading_key arranged)"
  shows "sha256 (digest_input arranged) = final_state_digest rs"
  using sorted_arrangement_unique [OF assms(2,3,1)] by (simp add: final_state_digest_def)

theorem digest_order_independent_witness:
  "sha256 (digest_input [demo_reading 1, demo_reading 2]) = final_state_digest [demo_reading 2, demo_reading 1]"
proof -
  have d: "distinct (map reading_key [demo_reading 2, demo_reading 1])"
    by (simp add: reading_key_def demo_reading_def)
  have s: "sorted (map reading_key [demo_reading 1, demo_reading 2])"
    by (simp add: reading_key_def demo_reading_def less_eq_prod_def)
  show ?thesis by (rule digest_order_independent [OF d _ s]) (simp add: add_mset_commute)
qed

text \<open>
  What the digest distinguishes: for device ids of one length, two sets of readings are hashed from
  the same bytes only if they agree on every id, sequence and value, as multisets.
\<close>

theorem digest_input_determines:
  assumes "digest_input (sort_readings rs) = digest_input (sort_readings ss)"
    and "list_all (\<lambda>r. length (device_id r) = n) (rs @ ss)"
  shows "mset (map (\<lambda>r. (device_id r, sequence r, reading_value r)) rs) =
    mset (map (\<lambda>r. (device_id r, sequence r, reading_value r)) ss)"
proof -
  have l: "list_all (\<lambda>r. length (device_id r) = n) (sort_readings xs)
      \<longleftrightarrow> list_all (\<lambda>r. length (device_id r) = n) xs" for xs
    by (simp add: sort_readings_def list_all_iff)
  have "map (\<lambda>r. (device_id r, sequence r, reading_value r)) (sort_readings rs) =
      map (\<lambda>r. (device_id r, sequence r, reading_value r)) (sort_readings ss)"
    using assms(2) by (intro digest_input_inject [OF assms(1), of n]) (simp_all add: l)
  then have "mset (map (\<lambda>r. (device_id r, sequence r, reading_value r)) (sort_readings rs)) =
      mset (map (\<lambda>r. (device_id r, sequence r, reading_value r)) (sort_readings ss))"
    by simp
  then show ?thesis by simp
qed

theorem digest_input_determines_witness:
  "mset (map (\<lambda>r. (device_id r, sequence r, reading_value r)) [demo_reading 2, demo_reading 1]) =
   mset (map (\<lambda>r. (device_id r, sequence r, reading_value r)) [demo_reading 1, demo_reading 2])"
proof -
  have d: "distinct (map reading_key [demo_reading 1, demo_reading 2])"
    by (simp add: reading_key_def demo_reading_def)
  have "sort_readings [demo_reading 2, demo_reading 1] = sort_readings [demo_reading 1, demo_reading 2]"
    by (rule sort_readings_perm [OF _ d]) (simp add: add_mset_commute)
  then have "digest_input (sort_readings [demo_reading 2, demo_reading 1])
      = digest_input (sort_readings [demo_reading 1, demo_reading 2])" by simp
  from digest_input_determines [OF this, of 2] show ?thesis by (simp add: demo_reading_def)
qed

text \<open>
  What it does not distinguish: the ids are not delimited and the timestamp is not hashed, so two
  readings of two devices and one reading of a third, and readings that differ in their timestamps
  only, have equal digests although the sets differ.
\<close>

theorem digest_collisions:
  "let a = \<lparr>device_id = ''a'', sequence = 0, timestamp_ms = 0, reading_value = 0\<rparr>;
       b = \<lparr>device_id = ''b'', sequence = 0, timestamp_ms = 0, reading_value = 0\<rparr>;
       c = \<lparr>device_id = ''a'' @ replicate 17 (CHR 0x00) @ ''b'', sequence = 0, timestamp_ms = 0,
            reading_value = 0\<rparr>
   in final_state_digest [a, b] = final_state_digest [c] \<and>
      final_state_digest [a] = final_state_digest [a\<lparr>timestamp_ms := 1\<rparr>]"
proof -
  let ?r = "\<lambda>i t. \<lparr>device_id = i, sequence = 0, timestamp_ms = t, reading_value = 0\<rparr> :: reading"
  have "sort_readings [?r ''a'' 0, ?r ''b'' 0] = [?r ''a'' 0, ?r ''b'' 0]"
    by (simp add: sort_readings_def reading_key_def less_eq_prod_def)
  moreover have "sort_readings [x] = [x]" for x by (simp add: sort_readings_def)
  moreover have "put_uint64 0 = [0, 0, 0, 0, 0, 0, 0, 0]" by code_simp
  ultimately show ?thesis
    by (simp add: Let_def final_state_digest_def digest_input_def digest_record_def str_bytes_def
        numeral_eq_Suc)
qed

text \<open>
  The gateway and the reference have the same digest: after any interleaving over an exact
  producer on an empty topic, once nothing is in flight and the spool is empty, the digest of what
  landed is the digest of the reference deduplication of what arrived.
\<close>

theorem gateway_digest_matches_reference:
  assumes "gw_reach m u produce (new_gateway s k) g" and "producer_exact produce landed"
    and "spool_healthy m u s" and "stored_readings u s = []" and "landed k = []"
    and "list_all (storable_reading m) (gw_arrivals g)" and "within_window (gw_arrivals g)"
    and "in_flight g = {#}" and "stored_readings u (gw_spool g) = []"
  shows "final_state_digest (landed (gw_producer g)) = final_state_digest (reference_dedup (gw_arrivals g))"
proof -
  have "list_all (storable_reading m) (stored_readings u s)" using assms(4) by simp
  from gw_reach_conserves [OF assms(1,3) this assms(6), of landed] assms
  have "mset (landed (gw_producer g)) = mset (reference_dedup (gw_arrivals g))"
    by (simp add: conserves_def gw_admitted_reference [OF assms(7)] gw_total_def new_gateway_def
        in_flight_def)
  from sort_readings_perm [OF this distinct_reference] show ?thesis
    by (simp add: final_state_digest_def)
qed

theorem gateway_digest_matches_reference_witness:
  "\<exists>g. gw_reach demo_m demo_u fake_produce demo_g0 g \<and> gw_arrivals g = [demo_reading 1] \<and>
    final_state_digest (snd (gw_producer g)) = final_state_digest (reference_dedup [demo_reading 1])"
proof -
  obtain d s where r0: "gw_reach demo_m demo_u fake_produce demo_g0 (drained_state d s (0, []) (demo_reading 1))"
    and s: "stored_readings demo_u s = []" using demo_drained_state by blast
  let ?g = "(drained_state d s (0, []) (demo_reading 1))
      \<lparr>gw_pending := [], gw_producer := (0 :: nat, [demo_reading 1])\<rparr>"
  have r: "gw_reach demo_m demo_u fake_produce demo_g0 ?g"
    using r0 by (rule gw_reach_recovered) (simp add: fake_produce_def)
  have a: "gw_arrivals ?g = [demo_reading 1]" "in_flight ?g = {#}" "gw_spool ?g = s" "snd (1 :: nat, []) = []"
    by (simp_all add: drained_state_def in_flight_def)
  note gateway_digest_matches_reference [OF r fake_produce_exact demo_spool_ok a(4), unfolded a(1-3),
      OF demo_arrivals(1,2) refl s]
  with r a(1) show ?thesis by blast
qed

end
