(* ===== verification/Replay.thy ===== *)
theory Replay
  imports Sim_Random Go_Format Digest
begin

text \<open>
  The replay benchmark: the corpora and the sender of internal/simdevice, the WebSocket server of
  internal/wsserver that feeds what it reads to Ingest, and the comparison cmd/loadgen makes.
\<close>

section \<open>The corpus\<close>

record device_stream =
  ds_device_id :: string
  ds_delivery :: "reading list"

text \<open>One device's pass of AllUnique.\<close>

fun unique_readings :: "uint64 set \<Rightarrow> reading list \<Rightarrow> reading list" where
  "unique_readings qs [] = []"
| "unique_readings qs (r # rs) =
     (if sequence r \<in> qs then unique_readings qs rs
      else r # unique_readings (insert (sequence r) qs) rs)"

definition all_unique :: "device_stream list \<Rightarrow> reading list" where
  "all_unique streams = concat (map (\<lambda>s. unique_readings {} (ds_delivery s)) streams)"

text \<open>
  The readings of one device; val i stands for the bits of float64(i+1)*1.5, and the number of
  duplicates for the rounded float64 expression.
\<close>

definition device_readings :: "(nat \<Rightarrow> uint64) \<Rightarrow> int \<Rightarrow> nat \<Rightarrow> nat \<Rightarrow> reading list" where
  "device_readings val now n d =
     map (\<lambda>i. \<lparr>device_id = ''dev-'' @ fmt_0d 5 (int d), sequence = word_of_nat (i + 1),
        timestamp_ms = now, reading_value = val i\<rparr>) [0..<n]"

fun build_streams ::
  "'r rand \<Rightarrow> (nat \<Rightarrow> uint64) \<Rightarrow> int \<Rightarrow> nat \<Rightarrow> nat \<Rightarrow> nat \<Rightarrow> nat \<Rightarrow> 'r \<Rightarrow> (device_stream list \<times> 'r) option"
where
  "build_streams rd val now n dups d 0 r = Some ([], r)"
| "build_streams rd val now n dups d (Suc k) r =
     do {
       (delivery, r1) \<leftarrow> resend_some rd (device_readings val now n d) dups r;
       (ss, r2) \<leftarrow> build_streams rd val now n dups (d + 1) k r1;
       Some (\<lparr>ds_device_id = ''dev-'' @ fmt_0d 5 (int d), ds_delivery = delivery\<rparr> # ss, r2)
     }"

definition build_replay_corpus ::
  "'r rand \<Rightarrow> (nat \<Rightarrow> uint64) \<Rightarrow> int \<Rightarrow> nat \<Rightarrow> nat \<Rightarrow> nat \<Rightarrow> 'r \<Rightarrow> device_stream list option"
where
  "build_replay_corpus rd val now devices n dups r =
     map_option fst (build_streams rd val now n dups 0 devices r)"

section \<open>The sender and the server\<close>

text \<open>
  One connection of Send: what its dial and each of its writes return. The frames written, and the
  error the goroutine reports.
\<close>

fun write_frames ::
  "(reading \<Rightarrow> goerror + bytes) \<Rightarrow> string \<Rightarrow> (nat \<Rightarrow> goerror option) \<Rightarrow> nat \<Rightarrow> reading list \<Rightarrow>
   bytes list \<times> goerror option"
where
  "write_frames m dev wr i [] = ([], None)"
| "write_frames m dev wr i (r # rs) =
     (case m r of
        Inl e \<Rightarrow> ([], Some (Wrapped (''device '' @ dev @ '': marshal'') e))
      | Inr b \<Rightarrow>
          (case wr i of
             Some e \<Rightarrow> ([], Some (Wrapped (''device '' @ dev @ '': write'') e))
           | None \<Rightarrow> apfst (Cons b) (write_frames m dev wr (i + 1) rs)))"

definition send_stream ::
  "(reading \<Rightarrow> goerror + bytes) \<Rightarrow> goerror option \<Rightarrow> (nat \<Rightarrow> goerror option) \<Rightarrow> device_stream \<Rightarrow>
   bytes list \<times> goerror option"
where
  "send_stream m dial wr s =
     (case dial of
        Some e \<Rightarrow> ([], Some (Wrapped (''device '' @ ds_device_id s @ '': dial'') e))
      | None \<Rightarrow> write_frames m (ds_device_id s) wr 0 (ds_delivery s))"

text \<open>Send returns the first error in its channel, which holds them in the order they came.\<close>

fun send_result :: "goerror list \<Rightarrow> goerror option" where
  "send_result [] = None"
| "send_result (e # es) = Some e"

text \<open>
  The loop of handleIngest over what ReadMessage returns: a frame that does not parse is dropped, an
  error of Ingest is logged, an error of the connection ends the loop.
\<close>

fun handle_ingest ::
  "(bytes \<Rightarrow> goerror + reading) \<Rightarrow> (reading \<Rightarrow> 'p \<Rightarrow> goerror option \<times> 'p) \<Rightarrow> (goerror + bytes) list \<Rightarrow> 'p \<Rightarrow> 'p"
where
  "handle_ingest u ing [] p = p"
| "handle_ingest u ing (Inl e # frames) p = p"
| "handle_ingest u ing (Inr data # frames) p =
     (case u data of
        Inl e \<Rightarrow> handle_ingest u ing frames p
      | Inr r \<Rightarrow> handle_ingest u ing frames (snd (ing r p)))"

section \<open>Lemmas\<close>

lemma write_frames_ok:
  assumes "marshals m rs" and "\<forall>i. wr i = None"
  shows "\<exists>bs. write_frames m dev wr i rs = (bs, None) \<and> list_all2 (\<lambda>r b. m r = Inr b) rs bs"
  using assms(1)
proof (induction rs arbitrary: i)
  case (Cons r rs)
  then obtain b where "m r = Inr b" by (auto simp: marshals_def split: sum.splits)
  moreover have "marshals m rs" using Cons.prems by (simp add: marshals_def)
  with Cons.IH obtain bs where "write_frames m dev wr (i + 1) rs = (bs, None)" "list_all2 (\<lambda>r b. m r = Inr b) rs bs"
    by blast
  moreover have "wr i = None" using assms(2) by blast
  ultimately show ?case by (intro exI [of _ "b # bs"]) simp
qed simp

lemma handle_ingest_frames:
  "codec_ok m u \<Longrightarrow> list_all2 (\<lambda>r b. m r = Inr b) rs bs \<Longrightarrow>
     handle_ingest u ing (map Inr bs @ rest) p = handle_ingest u ing rest (fold (\<lambda>r p. snd (ing r p)) rs p)"
proof (induction rs arbitrary: bs p)
  case (Cons r rs)
  then obtain b bs1 where "bs = b # bs1" "m r = Inr b" "list_all2 (\<lambda>r b. m r = Inr b) rs bs1"
    by (auto simp: list_all2_Cons1)
  with Cons show ?case by (simp add: codec_okD)
qed simp

text \<open>The readings the server calls Ingest with, for the frames of one connection.\<close>

definition decoded :: "(bytes \<Rightarrow> goerror + reading) \<Rightarrow> bytes list \<Rightarrow> reading list" where
  "decoded u frames = List.map_filter (\<lambda>b. case u b of Inl _ \<Rightarrow> None | Inr r \<Rightarrow> Some r) frames"

lemma handle_ingest_decoded:
  "handle_ingest u ing (map Inr frames @ [Inl e]) p = fold (\<lambda>r p. snd (ing r p)) (decoded u frames) p"
  by (induction frames arbitrary: p) (auto simp: decoded_def map_filter_simps split: sum.splits)

lemma decoded_frames: "codec_ok m u \<Longrightarrow> list_all2 (\<lambda>r b. m r = Inr b) rs bs \<Longrightarrow> decoded u bs = rs"
proof -
  assume c: "codec_ok m u" and l: "list_all2 (\<lambda>r b. m r = Inr b) rs bs"
  from l show ?thesis
    by (induction rule: list_all2_induct) (simp_all add: decoded_def map_filter_simps codec_okD [OF c])
qed

lemma unique_readings_first_occ: "unique_readings qs rs = first_occ sequence qs rs"
  by (induction rs arbitrary: qs) simp_all

lemma device_readings_props:
  assumes "r \<in> set (device_readings val now n d)" and "r' \<in> set (device_readings val now n d')" and "n < 2 ^ 64"
    and "reading_key r = reading_key r'"
  shows "r = r'"
proof -
  from assms(1,2) obtain i j where i: "i < n" "r = \<lparr>device_id = ''dev-'' @ fmt_0d 5 (int d),
      sequence = word_of_nat (i + 1), timestamp_ms = now, reading_value = val i\<rparr>"
    and j: "j < n" "r' = \<lparr>device_id = ''dev-'' @ fmt_0d 5 (int d'),
      sequence = word_of_nat (j + 1), timestamp_ms = now, reading_value = val j\<rparr>"
    by (auto simp: device_readings_def)
  from assms(4) have d: "d = d'" and "(word_of_nat (i + 1) :: uint64) = word_of_nat (j + 1)"
    by (simp_all add: reading_key_def i(2) j(2))
  then have "unat (word_of_nat (i + 1) :: uint64) = unat (word_of_nat (j + 1) :: uint64)" by (simp only:)
  moreover have "unat (word_of_nat (i + 1) :: uint64) = i + 1" "unat (word_of_nat (j + 1) :: uint64) = j + 1"
    using i(1) j(1) assms(3) by (simp_all only: unat_of_nat) simp_all
  ultimately have "i = j" by simp
  with d show ?thesis by (simp add: i(2) j(2))
qed

text \<open>The streams deliver the readings of their devices, all of them, and as many again as there are duplicates.\<close>

lemma build_streams_delivery:
  assumes "rand_ok rd"
  shows "build_streams rd val now n dups d k r = Some (ss, r') \<Longrightarrow>
    list_all2 (\<lambda>s i. set (ds_delivery s) = set (device_readings val now n i)) ss [d..<d + k] \<and>
    map (length \<circ> ds_delivery) ss = replicate k (n + dups)"
proof (induction k arbitrary: d r ss r')
  case (Suc k)
  from Suc.prems obtain delivery r1 ss1 where b: "resend_some rd (device_readings val now n d) dups r = Some (delivery, r1)"
    "build_streams rd val now n dups (d + 1) k r1 = Some (ss1, r')"
    "ss = \<lparr>ds_device_id = ''dev-'' @ fmt_0d 5 (int d), ds_delivery = delivery\<rparr> # ss1"
    by (auto split: Option.bind_split_asm)
  have "[d..<d + Suc k] = d # [Suc d..<Suc d + k]" by (simp add: upt_conv_Cons del: upt_Suc)
  with Suc.IH [OF b(2)] resend_some_mset [OF assms b(1)] b(3) show ?case by (simp add: device_readings_def)
qed simp

definition corpus_readings :: "(nat \<Rightarrow> uint64) \<Rightarrow> int \<Rightarrow> nat \<Rightarrow> nat \<Rightarrow> reading set" where
  "corpus_readings val now n devices = (\<Union>i < devices. set (device_readings val now n i))"

lemma list_all2_UN: "list_all2 (\<lambda>s i. f s = g i) ss is \<Longrightarrow> (\<Union>s \<in> set ss. f s) = (\<Union>i \<in> set is. g i)"
  by (induction rule: list_all2_induct) auto

lemma corpus_delivery:
  assumes "rand_ok rd" and "build_replay_corpus rd val now devices n dups r = Some streams" and "n < 2 ^ 64"
  shows "set (concat (map ds_delivery streams)) = corpus_readings val now n devices"
    and "set (all_unique streams) = corpus_readings val now n devices"
    and "length (concat (map ds_delivery streams)) = devices * (n + dups)"
proof -
  obtain r' where "build_streams rd val now n dups 0 devices r = Some (streams, r')"
    using assms(2) by (auto simp: build_replay_corpus_def)
  from build_streams_delivery [OF assms(1) this]
  have l: "list_all2 (\<lambda>s i. set (ds_delivery s) = set (device_readings val now n i)) streams [0..<devices]"
    and n: "map (length \<circ> ds_delivery) streams = replicate devices (n + dups)"
    by simp_all
  from n show "length (concat (map ds_delivery streams)) = devices * (n + dups)"
    by (simp add: length_concat comp_def sum_list_replicate)
  from list_all2_UN [OF l] show "set (concat (map ds_delivery streams)) = corpus_readings val now n devices"
    by (simp add: corpus_readings_def atLeast0LessThan)
  have "set (unique_readings {} (ds_delivery s)) = set (ds_delivery s)" if "s \<in> set streams" for s
  proof -
    from that l obtain i where i: "set (ds_delivery s) = set (device_readings val now n i)"
      by (auto simp: list_all2_conv_all_nth in_set_conv_nth)
    have "set (first_occ sequence {} (ds_delivery s)) = {x \<in> set (ds_delivery s). sequence x \<notin> {}}"
    proof (rule set_first_occ_functional)
      fix x y assume xy: "x \<in> set (ds_delivery s)" "y \<in> set (ds_delivery s)" "sequence x = sequence y"
      moreover have "device_id x = device_id y" using xy(1,2) by (auto simp: i device_readings_def)
      ultimately show "x = y" using device_readings_props [of x val now n i y i] assms(3)
        by (simp add: i reading_key_def)
    qed
    then show ?thesis by (simp add: unique_readings_first_occ)
  qed
  then have "set (all_unique streams) = set (concat (map ds_delivery streams))" by (simp add: all_unique_def)
  with \<open>set (concat (map ds_delivery streams)) = corpus_readings val now n devices\<close>
  show "set (all_unique streams) = corpus_readings val now n devices" by simp
qed

lemma corpus_reference:
  assumes "set rs = corpus_readings val now n devices" and "set us = corpus_readings val now n devices" and "n < 2 ^ 64"
  shows "mset (reference_dedup rs) = mset (reference_dedup us)"
  unfolding reference_dedup_first_occ
proof (rule mset_first_occ_perm)
  fix x y assume "x \<in> set rs" "y \<in> set rs" and k: "reading_key x = reading_key y"
  then obtain i j where "x \<in> set (device_readings val now n i)" "y \<in> set (device_readings val now n j)"
    by (auto simp: assms(1) corpus_readings_def)
  then show "x = y" using device_readings_props assms(3) k by blast
qed (simp add: assms)

lemma corpus_keys:
  assumes "n < 2 ^ 64"
  shows "card (reading_key ` corpus_readings val now n devices) = devices * n"
proof -
  let ?key = "\<lambda>(d, i). (''dev-'' @ fmt_0d 5 (int d), of_nat (i + 1) :: uint64)"
  have "reading_key ` corpus_readings val now n devices = ?key ` ({..<devices} \<times> {..<n})"
    by (force simp: corpus_readings_def device_readings_def reading_key_def)
  moreover have "inj_on ?key ({..<devices} \<times> {..<n})"
    using assms by (auto simp: inj_on_def of_nat_uint64_inject simp del: of_nat_add of_nat_Suc)
  ultimately show ?thesis by (simp add: card_image)
qed

lemma corpus_window:
  assumes "set rs = corpus_readings val now n devices" and "n \<le> max_sequences_per_device"
  shows "within_window rs"
  unfolding within_window_def list_all_iff
proof
  fix r assume "r \<in> set rs"
  let ?qs = "map sequence (filter (\<lambda>x. device_id x = device_id r) rs)"
  have "set ?qs \<subseteq> (\<lambda>i. word_of_nat (i + 1)) ` {..<n}"
    by (auto simp: assms(1) corpus_readings_def device_readings_def)
  then have "card (set ?qs) \<le> card {..<n}"
    by (meson card_image_le card_mono finite_imageI finite_lessThan order_trans)
  with assms(2) show "length (remdups ?qs) \<le> max_sequences_per_device"
    by (simp add: length_remdups_card_conv)
qed

section \<open>Properties\<close>

text \<open>
  A connection: over a codec that decodes what it encoded, the frames a device writes become one
  call of Ingest for each reading of its delivery, in its order, a frame that does not parse in between
  changes nothing, and the end of the connection ends the loop.
\<close>

theorem connection_feeds_ingest:
  assumes "codec_ok m u" and "marshals m (ds_delivery s)" and "u junk = Inl e1"
  shows "\<exists>frames. send_stream m None (\<lambda>_. None) s = (frames, None) \<and>
    handle_ingest u ing (map Inr frames @ [Inr junk, Inl e, Inr later]) p =
      fold (\<lambda>r p. snd (ing r p)) (ds_delivery s) p"
  using write_frames_ok [OF assms(2), of "\<lambda>_. None" "ds_device_id s" 0]
    handle_ingest_frames [OF assms(1), of "ds_delivery s" _ ing "[Inr junk, Inl e, Inr later]" p] assms(3)
  by (auto simp: send_stream_def)

theorem connection_feeds_ingest_witness:
  "\<exists>frames. send_stream demo_m None (\<lambda>_. None) \<lparr>ds_device_id = ''d'', ds_delivery = [demo_reading 1, demo_reading 2]\<rparr>
      = (frames, None) \<and>
    handle_ingest demo_u (\<lambda>r p. (None, p @ [r])) (map Inr frames @ [Inr [9], Inl (Errno ''closed''), Inr [1]]) [] =
      [demo_reading 1, demo_reading 2]"
proof -
  have "codec_ok demo_m demo_u" by (rule demo_codec)
  moreover have "marshals demo_m (ds_delivery \<lparr>ds_device_id = ''d'', ds_delivery = [demo_reading 1, demo_reading 2]\<rparr>)"
    by (simp add: marshals_def table_marshal_def demo_table_def demo_reading_def small_def)
  moreover have "demo_u [9] = Inl (Errno ''unmarshal'')"
    by (simp add: table_unmarshal_def demo_table_def)
  ultimately show ?thesis
    using connection_feeds_ingest [of demo_m demo_u _ "[9]" _ "\<lambda>r p. (None, p @ [r])" "Errno ''closed''" "[1]" "[]"]
    by fastforce
qed

end
