(* ===== verification/Outage_Bench.thy ===== *)
theory Outage_Bench
  imports Kafka_Client Replay Interleaving
begin

text \<open>
  cmd/outagebench: devices that send continuously over WebSocket connections while the producer
  refuses writes, the wait for the spool to become empty, and the count of lost readings. A device's
  run is given by what its clock shows at each turn of its loop and by what its writes return; the
  bits of float64(seq) are a parameter.
\<close>

section \<open>Model\<close>

definition outage_device_id :: "nat \<Rightarrow> string" where
  "outage_device_id d = ''dev-'' @ fmt_0d 3 (int d)"

definition outage_reading :: "(uint64 \<Rightarrow> uint64) \<Rightarrow> string \<Rightarrow> uint64 \<Rightarrow> int \<Rightarrow> reading" where
  "outage_reading val dev sq ms =
     \<lparr>device_id = dev, sequence = sq, timestamp_ms = ms, reading_value = val sq\<rparr>"

text \<open>
  The loop of one device, with its clock at the test of the deadline and at the reading. The error of
  Marshal is ignored, and the frame is then empty. The result is the frames it wrote; sentCount counts them.
\<close>

fun device_loop ::
  "(reading \<Rightarrow> goerror + bytes) \<Rightarrow> (uint64 \<Rightarrow> uint64) \<Rightarrow> string \<Rightarrow> (uint64 \<Rightarrow> goerror option) \<Rightarrow> int \<Rightarrow>
   (int \<times> int) list \<Rightarrow> uint64 \<Rightarrow> bytes list"
where
  "device_loop m val dev wr deadline [] sq = []"
| "device_loop m val dev wr deadline ((now, ms) # rounds) sq =
     (if \<not> now < deadline then []
      else
        let sq1 = sq + 1;
            b = (case m (outage_reading val dev sq1 ms) of Inr b \<Rightarrow> b | Inl e \<Rightarrow> [])
        in case wr sq1 of
             Some e \<Rightarrow> []
           | None \<Rightarrow> b # device_loop m val dev wr deadline rounds sq1)"

definition run_device ::
  "(reading \<Rightarrow> goerror + bytes) \<Rightarrow> (uint64 \<Rightarrow> uint64) \<Rightarrow> goerror option \<Rightarrow> (uint64 \<Rightarrow> goerror option) \<Rightarrow> int \<Rightarrow>
   (int \<times> int) list \<Rightarrow> nat \<Rightarrow> bytes list"
where
  "run_device m val dial wr deadline rounds d =
     (case dial of
        Some e \<Rightarrow> []
      | None \<Rightarrow> device_loop m val (outage_device_id d) wr deadline rounds 0)"

text \<open>
  The wait: what SizeBytes returned, and whether the clock is then past the bound. The loop ends with
  a failure, with an empty file, or with a warning, or it goes on.
\<close>

datatype spool_wait = Size_Failed goerror | Spool_Empty | Still_Pending nat | Waiting

fun wait_for_spool :: "((goerror + nat) \<times> bool) list \<Rightarrow> spool_wait" where
  "wait_for_spool [] = Waiting"
| "wait_for_spool ((size_result, late) # polls) =
     (case size_result of
        Inl e \<Rightarrow> Size_Failed e
      | Inr n \<Rightarrow> if n = 0 then Spool_Empty else if late then Still_Pending n else wait_for_spool polls)"

text \<open>The report: the readings lost, and whether the benchmark passes.\<close>

definition outage_verdict :: "nat \<Rightarrow> reading list \<Rightarrow> int \<times> bool" where
  "outage_verdict sent got = (let lost = int sent - int (length got) in (lost, \<not> lost \<noteq> 0))"

section \<open>Lemmas\<close>

text \<open>The readings a device's loop sends.\<close>

fun sent_readings ::
  "(uint64 \<Rightarrow> uint64) \<Rightarrow> string \<Rightarrow> (uint64 \<Rightarrow> goerror option) \<Rightarrow> int \<Rightarrow> (int \<times> int) list \<Rightarrow> uint64 \<Rightarrow> reading list"
where
  "sent_readings val dev wr deadline [] sq = []"
| "sent_readings val dev wr deadline ((now, ms) # rounds) sq =
     (if now < deadline \<and> wr (sq + 1) = None
      then outage_reading val dev (sq + 1) ms # sent_readings val dev wr deadline rounds (sq + 1) else [])"

definition device_sent ::
  "(uint64 \<Rightarrow> uint64) \<Rightarrow> goerror option \<Rightarrow> (uint64 \<Rightarrow> goerror option) \<Rightarrow> int \<Rightarrow> (int \<times> int) list \<Rightarrow> nat \<Rightarrow> reading list"
where
  "device_sent val dial wr deadline rounds d =
     (if dial = None then sent_readings val (outage_device_id d) wr deadline rounds 0 else [])"

lemma device_loop_frames:
  "list_all (storable_reading m) (sent_readings val dev wr deadline rounds sq) \<Longrightarrow>
   list_all2 (\<lambda>r b. m r = Inr b) (sent_readings val dev wr deadline rounds sq)
     (device_loop m val dev wr deadline rounds sq)"
  by (induction rounds arbitrary: sq)
    (auto simp: Let_def storable_reading_def marshals_def split: sum.splits option.splits)

lemma run_device_frames:
  "list_all (storable_reading m) (device_sent val dial wr deadline rounds d) \<Longrightarrow>
   list_all2 (\<lambda>r b. m r = Inr b) (device_sent val dial wr deadline rounds d)
     (run_device m val dial wr deadline rounds d)"
  using device_loop_frames by (cases dial) (simp_all add: device_sent_def run_device_def)

lemma decoded_run_device:
  assumes "codec_ok m u" and "list_all (storable_reading m) (device_sent val dial wr deadline rounds d)"
  shows "decoded u (run_device m val dial wr deadline rounds d) = device_sent val dial wr deadline rounds d"
  by (rule decoded_frames [OF assms(1) run_device_frames [OF assms(2)]])

lemma length_run_device:
  "length (run_device m val dial wr deadline rounds d) = length (device_sent val dial wr deadline rounds d)"
proof -
  have "length (device_loop m val dev wr deadline rounds sq) = length (sent_readings val dev wr deadline rounds sq)"
    for dev sq
    by (induction rounds arbitrary: sq) (auto simp: Let_def split: option.splits)
  then show ?thesis by (cases dial) (simp_all add: device_sent_def run_device_def)
qed

lemma sent_readings_keys:
  "map reading_key (sent_readings val dev wr deadline rounds sq) =
     map (\<lambda>i. (dev, sq + 1 + of_nat i)) [0..<length (sent_readings val dev wr deadline rounds sq)]"
proof (induction rounds arbitrary: sq)
  case (Cons rd rounds)
  obtain now ms where rd: "rd = (now, ms)" by (cases rd)
  let ?n = "length (sent_readings val dev wr deadline rounds (sq + 1))"
  have "map (\<lambda>i. (dev, sq + 1 + of_nat i)) [0..<Suc ?n] =
      (dev, sq + 1) # map (\<lambda>i. (dev, sq + 1 + 1 + of_nat i)) [0..<?n]"
    by (simp add: upt_conv_Cons map_Suc_upt [symmetric] add_ac del: upt_Suc)
  with Cons [of "sq + 1"] show ?case by (simp add: rd outage_reading_def reading_key_def del: upt_Suc)
qed simp

lemma device_sent_keys:
  assumes "length (device_sent val dial wr deadline rounds d) < 2 ^ 64"
  shows "distinct (map reading_key (device_sent val dial wr deadline rounds d)) \<and>
    (\<forall>r \<in> set (device_sent val dial wr deadline rounds d). device_id r = outage_device_id d)"
proof (cases dial)
  case None
  let ?rs = "sent_readings val (outage_device_id d) wr deadline rounds 0"
  have k: "map reading_key ?rs = map (\<lambda>i. (outage_device_id d, 1 + of_nat i)) [0..<length ?rs]"
    using sent_readings_keys [where sq = 0] by simp
  have "(of_nat i :: uint64) = of_nat j \<longleftrightarrow> i = j" if "i < length ?rs" "j < length ?rs" for i j
    using that assms None by (simp add: device_sent_def of_nat_uint64_inject)
  then have "distinct (map reading_key ?rs)" unfolding k by (simp add: distinct_map inj_on_def)
  moreover have "fst (reading_key r) = outage_device_id d" if "r \<in> set ?rs" for r
  proof -
    from that have "reading_key r \<in> set (map reading_key ?rs)" by simp
    then show ?thesis unfolding k by auto
  qed
  ultimately show ?thesis using None by (simp add: device_sent_def reading_key_def)
qed (simp add: device_sent_def)

text \<open>An empty file is an empty spool.\<close>

lemma empty_file_empty_spool:
  assumes "spool_healthy m u s" and "fst (spool_size_bytes s) = Inr 0"
  shows "stored_readings u s = []"
proof -
  have w: "spool_w s = new_bufw" "no_faults (spool_file s)" using assms(1) by (simp_all add: spool_healthy_def spool_clean_def)
  have "fst (spool_size_bytes s) = Inr (length (content (spool_file s)))"
    using w by (simp add: spool_size_bytes_def bw_flush_def file_stat_def no_faults_simps)
  with assms(2) show ?thesis by (simp add: stored_readings_def)
qed

lemma wait_ends_empty: "wait_for_spool polls = Waiting \<Longrightarrow> wait_for_spool (polls @ [p]) = Spool_Empty \<Longrightarrow> fst p = Inr 0"
  by (induction polls rule: wait_for_spool.induct) (cases p; auto split: sum.splits if_splits)+

text \<open>What all the devices send has different keys and fits the table.\<close>

lemma sent_concat_keys:
  assumes "\<And>d. d < n \<Longrightarrow> length (sent d) < 2 ^ 64"
    and "\<And>d. sent d = device_sent val (dial d) (wr d) deadline (rounds d) d"
  shows "distinct (map reading_key (concat (map sent [0..<n])))"
  using assms(1)
proof (induction n)
  case (Suc n)
  have ids: "device_id r = outage_device_id d" if "r \<in> set (sent d)" "d < Suc n" for r d
    using device_sent_keys [of val "dial d" "wr d" deadline "rounds d" d] Suc.prems [OF that(2)] that(1)
    by (simp add: assms(2))
  have "reading_key x \<noteq> reading_key y" if "x \<in> set (concat (map sent [0..<n]))" "y \<in> set (sent n)" for x y
  proof -
    from that(1) obtain d where "d < n" "x \<in> set (sent d)" by auto
    with ids [of x d] ids [of y n] that(2) show ?thesis by (simp add: reading_key_def outage_device_id_def)
  qed
  moreover have "distinct (map reading_key (sent n))"
    using device_sent_keys [of val "dial n" "wr n" deadline "rounds n" n] Suc.prems [of n] by (simp add: assms(2))
  moreover have "distinct (map reading_key (concat (map sent [0..<n])))" using Suc by simp
  ultimately show ?case by fastforce
qed simp

lemma first_occ_distinct: "distinct (map key xs) \<Longrightarrow> key ` set xs \<inter> S = {} \<Longrightarrow> first_occ key S xs = xs"
  by (induction xs arbitrary: S) auto

lemma sent_within_window:
  assumes "\<And>d. d < n \<Longrightarrow> length (sent d) \<le> 4096"
    and "\<And>d. sent d = device_sent val (dial d) (wr d) deadline (rounds d) d"
    and "mset rs = mset (concat (map sent [0..<n]))"
  shows "within_window rs"
  unfolding within_window_def list_all_iff
proof
  fix r assume "r \<in> set rs"
  have ids: "device_id r = outage_device_id d" if "r \<in> set (sent d)" "d < n" for r d
    using device_sent_keys [of val "dial d" "wr d" deadline "rounds d" d] assms(1) [OF that(2)] that(1)
    by (simp add: assms(2))
  note same = mset_eq_setD [OF assms(3)]
  from \<open>r \<in> set rs\<close> obtain d where d: "d < n" "r \<in> set (sent d)" unfolding same by auto
  let ?f = "filter (\<lambda>x. device_id x = device_id r)"
  have "set (?f rs) \<subseteq> set (sent d)"
  proof
    fix x assume "x \<in> set (?f rs)"
    then have x: "device_id x = device_id r" "x \<in> set (concat (map sent [0..<n]))" by (simp_all only: set_filter mem_Collect_eq same)
    then obtain e where "e < n" "x \<in> set (sent e)" by auto
    with x(1) d ids [of x e] ids [of r d] show "x \<in> set (sent d)" by (simp add: outage_device_id_def)
  qed
  then have "set (map sequence (?f rs)) \<subseteq> sequence ` set (sent d)" by auto
  then have "card (set (map sequence (?f rs))) \<le> card (sequence ` set (sent d))" by (intro card_mono) simp_all
  also have "\<dots> \<le> length (sent d)" by (metis card_image_le card_length dual_order.trans finite_set)
  also have "\<dots> \<le> max_sequences_per_device" using assms(1) [OF d(1)] by (simp add: max_sequences_per_device_def)
  finally show "length (remdups (map sequence (?f rs))) \<le> max_sequences_per_device"
    by (simp add: length_remdups_card_conv)
qed

text \<open>
  After any interleaving of the connections with drains the readings sent are on the topic or in the
  spool, each of them once.
\<close>

lemma outage_held:
  assumes sent: "sent = (\<lambda>d. device_sent val (dial d) (wr d) deadline (rounds d) d)"
    and "\<And>d. d < n \<Longrightarrow> list_all (storable_reading m) (sent d)"
    and "\<And>d. d < n \<Longrightarrow> length (sent d) \<le> 4096"
    and "merge_of (map (\<lambda>d. decoded u (run_device m val (dial d) (wr d) deadline (rounds d) d)) [0..<n])
      (offered (map snd ops))"
    and "producer_exact inner landed" and "pipeline_ok m u (new_pipeline new_dedup s k)"
    and "stored_readings u s = []" and "p = timed_ops m u inner until ops (new_pipeline new_dedup s k)"
  shows "pipeline_ok m u p" and "held u landed p = mset (landed k) + mset (concat (map sent [0..<n]))"
    and "(\<Sum>d < n. length (run_device m val (dial d) (wr d) deadline (rounds d) d)) = length (concat (map sent [0..<n]))"
proof -
  have sd: "sent d = device_sent val (dial d) (wr d) deadline (rounds d) d" for d by (simp add: sent)
  have "codec_ok m u" using assms(6) by (simp add: pipeline_ok_def spool_healthy_def)
  then have dec: "map (\<lambda>d. decoded u (run_device m val (dial d) (wr d) deadline (rounds d) d)) [0..<n] = map sent [0..<n]"
    using decoded_run_device assms(2) by (simp add: sent)
  have ms: "mset (offered (map snd ops)) = mset (concat (map sent [0..<n]))"
    by (rule merge_of_mset [OF assms(4) [unfolded dec]])
  have "list_all (storable_reading m) (offered (map snd ops))"
    unfolding list_all_iff mset_eq_setD [OF ms] using assms(2) by (auto simp: list_all_iff)
  from timed_ops_exact [OF assms(5,6) this, of until]
  have ok: "pipeline_ok m u p" and h: "held u landed p = mset (landed k) +
      mset (accepted admit_key reading_key new_dedup (offered (map snd ops)))"
    by (simp_all add: assms(7,8) held_def new_pipeline_def)
  have "distinct (map reading_key (concat (map sent [0..<n])))"
    by (rule sent_concat_keys [OF _ sd]) (use assms(3) in force)
  then have "distinct (map reading_key (offered (map snd ops)))"
    using ms by (metis mset_eq_imp_distinct_iff mset_map)
  then have "first_occ reading_key {} (offered (map snd ops)) = offered (map snd ops)" by (simp add: first_occ_distinct)
  moreover have "within_window (offered (map snd ops))" by (rule sent_within_window [OF assms(3) sd ms])
  ultimately have acc: "accepted admit_key reading_key new_dedup (offered (map snd ops)) = offered (map snd ops)"
    using tel.accepted_start [OF fits_within_window] by metis
  show "pipeline_ok m u p" by (rule ok)
  show "held u landed p = mset (landed k) + mset (concat (map sent [0..<n]))" by (simp add: h acc ms)
  show "(\<Sum>d < n. length (run_device m val (dial d) (wr d) deadline (rounds d) d)) = length (concat (map sent [0..<n]))"
    by (simp add: length_run_device sent length_concat comp_def interv_sum_list_conv_sum_set_nat lessThan_atLeast0)
qed

section \<open>Property\<close>

text \<open>
  The outage benchmark: devices that each send at most 4096 readings, their connections interleaved
  with drains at any times before, during and after the outage, over an exact producer and a spool that was
  empty. When the wait ends with an empty file and the topic is read back whole, the topic holds every
  reading sent once, next to what it held before; the reported loss is minus the number of the old
  messages, so the benchmark passes exactly on a fresh topic.
\<close>

theorem outage_bench_verdict:
  assumes sent: "sent = (\<lambda>d. device_sent val (dial d) (wr d) deadline (rounds d) d)"
    and "\<And>d. d < n \<Longrightarrow> list_all (storable_reading m) (sent d)"
    and "\<And>d. d < n \<Longrightarrow> length (sent d) \<le> 4096"
    and "merge_of (map (\<lambda>d. decoded u (run_device m val (dial d) (wr d) deadline (rounds d) d)) [0..<n])
      (offered (map snd ops))"
    and "producer_exact inner landed" and "pipeline_ok m u (new_pipeline new_dedup s k)"
    and "stored_readings u s = []" and "p = timed_ops m u inner until ops (new_pipeline new_dedup s k)"
    and "wait_for_spool polls = Waiting"
    and "wait_for_spool (polls @ [(fst (spool_size_bytes (pl_spool p)), late)]) = Spool_Empty"
    and "mset got = mset (landed (pl_producer p))"
  shows "outage_verdict (\<Sum>d < n. length (run_device m val (dial d) (wr d) deadline (rounds d) d)) got =
      (- int (length (landed k)), landed k = []) \<and>
    mset got = mset (landed k) + mset (concat (map sent [0..<n]))"
proof -
  note held = outage_held [OF assms(1-8)]
  have "stored_readings u (pl_spool p) = []"
    using wait_ends_empty [OF assms(9,10)] empty_file_empty_spool [of m u] held(1) by (simp add: pipeline_ok_def)
  with held(2) have g: "mset got = mset (landed k) + mset (concat (map sent [0..<n]))"
    by (simp add: held_def assms(11))
  then have "length got = length (landed k) + length (concat (map sent [0..<n]))"
    by (metis mset_append size_mset length_append)
  then show ?thesis using g held(3) by (simp add: outage_verdict_def Let_def)
qed

text \<open>One device that sends once during the outage; its reading is spooled and drained after it.\<close>

definition outage_demo :: reading where
  "outage_demo = outage_reading (\<lambda>_. 0) (outage_device_id 0) 1 5"

theorem outage_bench_verdict_witness:
  "outage_verdict (length (run_device (table_marshal [(outage_demo, [7])]) (\<lambda>_. 0) None (\<lambda>_. None) 85 [(0, 5), (90, 95)] 0))
     (snd (pl_producer (timed_ops (table_marshal [(outage_demo, [7])]) (table_unmarshal [(outage_demo, [7])]) log_produce 70
        [(1, Ingest outage_demo), (60, Drain), (75, Drain)] (demo_pipeline 0)))) = (0, True)"
proof -
  let ?m = "table_marshal [(outage_demo, [7 :: byte])]" and ?u = "table_unmarshal [(outage_demo, [7 :: byte])]"
  let ?ops = "[(1, Ingest outage_demo), (60, Drain), (75, Drain)]"
  let ?p = "timed_ops ?m ?u log_produce 70 ?ops (demo_pipeline 0)"
  let ?rounds = "[(0, 5), (90, 95)] :: (int \<times> int) list"
  have codec: "codec_ok ?m ?u" by (rule codec_ok_table) simp
  have healthy: "spool_healthy ?m ?u (demo_spool [] [])"
    using codec by (rule spool_healthy_empty)
      (simp_all add: demo_spool_def demo_file_def no_faults_def spool_clean_def new_bufw_def at_end_def)
  have empty: "stored_readings ?u (demo_spool [] []) = []"
    by (simp add: stored_readings_def demo_spool_def demo_file_def)
  have sent: "device_sent (\<lambda>_. 0) None (\<lambda>_. None) 85 ?rounds 0 = [outage_demo]"
    by (simp add: device_sent_def outage_demo_def)
  have st: "storable_reading ?m outage_demo"
    by (simp add: storable_reading_def marshals_def table_marshal_def small_def)
  have dec: "decoded ?u (run_device ?m (\<lambda>_. 0) None (\<lambda>_. None) 85 ?rounds 0) = [outage_demo]"
    using decoded_run_device [OF codec, of "\<lambda>_. 0" None "\<lambda>_. None" 85 ?rounds 0] st by (simp add: sent)
  have size: "fst (spool_size_bytes (pl_spool ?p)) = Inr 0" by code_simp
  have ex: "producer_exact log_produce snd" by (simp add: producer_exact_def log_produce_def)
  have ok: "pipeline_ok ?m ?u (new_pipeline new_dedup (demo_spool [] []) (0 :: nat, [] :: reading list))"
    using healthy empty by (simp add: pipeline_ok_def new_pipeline_def)
  have merged: "merge_of (map (\<lambda>d. decoded ?u (run_device ?m (\<lambda>_. 0) None (\<lambda>_. None) 85 ?rounds d)) [0..<1]) (offered (map snd ?ops))"
    using merge_of_concat [of "[[outage_demo]]"] dec by simp
  show ?thesis
    using outage_bench_verdict [OF refl _ _ merged ex ok empty, of ?p 70 "[]" False "snd (pl_producer ?p)"] st size
    by (auto simp: sent demo_pipeline_def)
qed

end
