(* ===== verification/Outage_Run.thy ===== *)
theory Outage_Run
  imports Outage_Bench
begin

text \<open>
  cmd/outagebench from the opening of the spool to its exit: the times of the outage, the send phase,
  the wait with the drainer still running, and the readings read back from the topic.
\<close>

section \<open>Model\<close>

text \<open>The start of the test and the three durations of the flags, in nanoseconds.\<close>

record outage_times =
  ot_start :: int
  ot_pre :: int
  ot_outage :: int
  ot_post :: int

definition outage_until_of :: "outage_times \<Rightarrow> int" where
  "outage_until_of t = ot_start t + ot_pre t + ot_outage t"

definition send_deadline :: "outage_times \<Rightarrow> int" where
  "send_deadline t = ot_start t + (ot_pre t + ot_outage t + ot_post t)"

text \<open>
  The wait over the running pipeline: a round is the calls the drainer made before the poll, and
  whether the clock is past the bound after it. SizeBytes flushes, so it may change the spool.
\<close>

fun wait_rounds ::
  "(reading \<Rightarrow> goerror + bytes) \<Rightarrow> (bytes \<Rightarrow> goerror + reading) \<Rightarrow> 'k producer \<Rightarrow> int \<Rightarrow>
   ((int \<times> pipeline_op) list \<times> bool) list \<Rightarrow> 'k pipeline \<Rightarrow> spool_wait \<times> 'k pipeline"
where
  "wait_rounds m u inner until [] p = (Waiting, p)"
| "wait_rounds m u inner until ((ops, late) # rounds) p =
     (let p1 = timed_ops m u inner until ops p;
          (size_result, s) = spool_size_bytes (pl_spool p1);
          p2 = p1\<lparr>pl_spool := s\<rparr>
      in case size_result of
           Inl e \<Rightarrow> (Size_Failed e, p2)
         | Inr n \<Rightarrow>
             if n = 0 then (Spool_Empty, p2)
             else if late then (Still_Pending n, p2) else wait_rounds m u inner until rounds p2)"

datatype outage_end =
    Spool_Not_Opened goerror
  | Spool_Size_Failed goerror
  | Still_Waiting
  | Consume_Failed goerror
  | Lost int
  | None_Lost

text \<open>The pipeline over the spool that was opened; the producer refuses until the outage is over.\<close>

definition outage_pipeline :: "goerror option \<Rightarrow> os_file \<Rightarrow> 'k \<Rightarrow> goerror + 'k pipeline" where
  "outage_pipeline open_err f k =
     (case new_spool open_err f of Inl e \<Rightarrow> Inl e | Inr s \<Rightarrow> Inr (new_pipeline new_dedup s k))"

text \<open>What ConsumeAvailable returned, compared with the number sent.\<close>

definition outage_read_back :: "nat \<Rightarrow> goerror + reading list \<Rightarrow> outage_end" where
  "outage_read_back sent_count consumed =
     (case consumed of
        Inl e \<Rightarrow> Consume_Failed e
      | Inr got \<Rightarrow>
          (case outage_verdict sent_count got of
             (lost, ok) \<Rightarrow> if ok then None_Lost else Lost lost))"

text \<open>
  The run: the calls on the pipeline while the devices send, the rounds of the wait, and what
  ConsumeAvailable returns over the topic as it is then; a warning about a spool that is not empty
  does not end it.
\<close>

definition outage_run ::
  "(reading \<Rightarrow> goerror + bytes) \<Rightarrow> (bytes \<Rightarrow> goerror + reading) \<Rightarrow> 'k producer \<Rightarrow> ('k \<Rightarrow> goerror + reading list) \<Rightarrow>
   goerror option \<Rightarrow> os_file \<Rightarrow> 'k \<Rightarrow> outage_times \<Rightarrow> nat \<Rightarrow> (int \<times> pipeline_op) list \<Rightarrow>
   ((int \<times> pipeline_op) list \<times> bool) list \<Rightarrow> outage_end"
where
  "outage_run m u inner consume open_err f k t sent_count ops rounds =
     (case outage_pipeline open_err f k of
        Inl e \<Rightarrow> Spool_Not_Opened e
      | Inr p \<Rightarrow>
          (let until = outage_until_of t;
               (w, p1) = wait_rounds m u inner until rounds (timed_ops m u inner until ops p)
           in case w of
                Size_Failed e \<Rightarrow> Spool_Size_Failed e
              | Waiting \<Rightarrow> Still_Waiting
              | _ \<Rightarrow> outage_read_back sent_count (consume (pl_producer p1))))"

section \<open>Lemmas\<close>

text \<open>SizeBytes changes nothing in a healthy spool.\<close>

lemma size_bytes_healthy:
  assumes "spool_healthy m u s"
  shows "\<exists>s'. spool_size_bytes s = (Inr (length (content (spool_file s))), s') \<and> spool_healthy m u s' \<and>
    content (spool_file s') = content (spool_file s)"
proof -
  have "spool_w s = new_bufw" "no_faults (spool_file s)" "at_end (spool_file s)"
    using assms by (simp_all add: spool_healthy_def spool_clean_def)
  then show ?thesis
    using assms by (auto simp: spool_size_bytes_def bw_flush_def file_stat_def no_faults_simps spool_healthy_def
        spool_clean_def at_end_def)
qed

lemma wait_rounds_exact:
  assumes "producer_exact inner landed"
  shows "pipeline_ok m u p \<Longrightarrow> list_all (\<lambda>r. offered (map snd (fst r)) = []) rounds \<Longrightarrow>
    wait_rounds m u inner until rounds p = (w, p') \<Longrightarrow>
    pipeline_ok m u p' \<and> held u landed p' = held u landed p \<and>
    (w = Spool_Empty \<longrightarrow> stored_readings u (pl_spool p') = []) \<and> (\<forall>e. w \<noteq> Size_Failed e)"
proof (induction rounds arbitrary: p)
  case (Cons rd rounds)
  obtain ops late where rd: "rd = (ops, late)" by fastforce
  let ?p1 = "timed_ops m u inner until ops p"
  have ok1: "pipeline_ok m u ?p1" and h1: "held u landed ?p1 = held u landed p"
    using timed_ops_exact [OF assms Cons.prems(1), of ops until] Cons.prems(2) by (simp_all add: rd)
  obtain s' where s': "spool_size_bytes (pl_spool ?p1) = (Inr (length (content (spool_file (pl_spool ?p1)))), s')"
      "spool_healthy m u s'" "content (spool_file s') = content (spool_file (pl_spool ?p1))"
    using size_bytes_healthy [of m u "pl_spool ?p1"] ok1 by (auto simp: pipeline_ok_def)
  let ?p2 = "?p1\<lparr>pl_spool := s'\<rparr>"
  have st: "stored_readings u s' = stored_readings u (pl_spool ?p1)" by (simp add: stored_readings_def s'(3))
  then have ok2: "pipeline_ok m u ?p2" and h2: "held u landed ?p2 = held u landed p"
    using ok1 h1 s'(2) by (simp_all add: pipeline_ok_def held_def)
  have empty: "stored_readings u s' = []" if "content (spool_file (pl_spool ?p1)) = []"
    using that s'(3) by (simp add: stored_readings_def)
  from Cons.prems(3) show ?case
    using Cons.IH [OF ok2] Cons.prems(2) ok2 h2 empty
    by (auto simp: rd s'(1) Let_def split: if_splits)
qed auto

text \<open>While the producer refuses, nothing reaches it.\<close>

lemma retry_all_refused:
  "(\<And>r k. produce r k = (Some e, k)) \<Longrightarrow> pl_producer (retry_all m produce rs p) = pl_producer p"
  by (induction rs arbitrary: p) simp_all

lemma run_op_refused:
  assumes "\<And>r k. produce r k = (Some e, k)"
  shows "pl_producer (run_op m u produce op p) = pl_producer p"
  by (cases op) (auto simp: ingest_def drain_once_def retry_all_refused [OF assms] assms split: prod.splits sum.splits bool.splits)

text \<open>Opening an empty file without faults gives an empty healthy spool.\<close>

section \<open>Properties\<close>

text \<open>
  The outage starts with the test and not after the time of normal operation that the flag names:
  before outageUntil, so from the start of the test on, no call reaches the real producer.
\<close>

theorem no_normal_operation:
  assumes "0 \<le> ot_outage t" and "\<forall>(now, op) \<in> set ops. now < ot_start t + ot_pre t"
  shows "pl_producer (timed_ops m u inner (outage_until_of t) ops p) = pl_producer p"
  using assms(2)
proof (induction ops arbitrary: p)
  case (Cons top ops)
  obtain now op where top: "top = (now, op)" by fastforce
  with Cons.prems assms(1) have "outage_produce now (outage_until_of t) inner = (\<lambda>r k. (Some err_broker_unreachable, k))"
    by (intro ext) (simp add: outage_produce_def outage_until_of_def)
  then show ?case using Cons by (simp add: timed_ops_def top run_op_refused [where e = err_broker_unreachable])
qed (simp add: timed_ops_def)



text \<open>One device that sends once during the outage; its reading is drained while the benchmark waits.\<close>

definition demo_times :: outage_times where
  "demo_times = \<lparr>ot_start = 0, ot_pre = 10, ot_outage = 60, ot_post = 15\<rparr>"

theorem no_normal_operation_witness:
  "pl_producer (timed_ops (table_marshal [(outage_demo, [7])]) (table_unmarshal [(outage_demo, [7])]) log_produce
     (outage_until_of demo_times) [(1, Ingest outage_demo), (5, Drain)] (demo_pipeline 0)) = pl_producer (demo_pipeline 0)"
  by (rule no_normal_operation) (simp_all add: demo_times_def)


end
