(* ===== verification/Replay_Send.thy ===== *)
theory Replay_Send
  imports Replay
begin

text \<open>
  Send of internal/simdevice: the loop that opens at most a given number of connections at a time, each
  run by a goroutine, and returns the first error one of them reported. A step opens a
  connection or ends one; what a dial and the writes return is chosen anew for each connection.
\<close>

section \<open>Model\<close>

text \<open>Streams not started, connections open, the error channel, and as history the frames of each stream.\<close>

record send_state =
  sd_waiting :: "device_stream list"
  sd_open :: "device_stream multiset"
  sd_errs :: "goerror list"
  sd_sent :: "(device_stream \<times> bytes list) list"

definition start_send :: "device_stream list \<Rightarrow> send_state" where
  "start_send streams = \<lparr>sd_waiting = streams, sd_open = {#}, sd_errs = [], sd_sent = []\<rparr>"

inductive send_step :: "(reading \<Rightarrow> goerror + bytes) \<Rightarrow> nat \<Rightarrow> send_state \<Rightarrow> send_state \<Rightarrow> bool"
  for m concurrency
where
  opened: "sd_waiting st = s # ss \<Longrightarrow> size (sd_open st) < concurrency \<Longrightarrow>
    send_step m concurrency st (st\<lparr>sd_waiting := ss, sd_open := add_mset s (sd_open st)\<rparr>)"
| closed: "s \<in># sd_open st \<Longrightarrow> send_stream m dial wr s = (frames, err) \<Longrightarrow>
    send_step m concurrency st
      (st\<lparr>sd_open := sd_open st - {#s#}, sd_sent := sd_sent st @ [(s, frames)],
         sd_errs := sd_errs st @ (case err of None \<Rightarrow> [] | Some e \<Rightarrow> [e])\<rparr>)"

inductive_cases send_stepE: "send_step m concurrency st st'"

inductive send_reach ::
  "(reading \<Rightarrow> goerror + bytes) \<Rightarrow> nat \<Rightarrow> device_stream list \<Rightarrow> nat \<Rightarrow> send_state \<Rightarrow> bool"
  for m concurrency streams
where
  start: "send_reach m concurrency streams 0 (start_send streams)"
| step: "send_reach m concurrency streams n st \<Longrightarrow> send_step m concurrency st st' \<Longrightarrow>
    send_reach m concurrency streams (Suc n) st'"

text \<open>wg.Wait has returned: no stream waits and no connection is open.\<close>

definition send_done :: "send_state \<Rightarrow> bool" where
  "send_done st \<longleftrightarrow> sd_waiting st = [] \<and> sd_open st = {#}"

section \<open>Lemmas\<close>

lemma write_frames_None:
  "write_frames m dev wr i rs = (frames, None) \<Longrightarrow> list_all2 (\<lambda>r b. m r = Inr b) rs frames"
proof (induction rs arbitrary: i frames)
  case (Cons r rs)
  then show ?case by (auto split: sum.splits option.splits simp: apfst_def map_prod_def case_prod_beta prod_eq_iff)
qed simp

lemma send_stream_None: "send_stream m dial wr s = (frames, None) \<Longrightarrow> list_all2 (\<lambda>r b. m r = Inr b) (ds_delivery s) frames"
  using write_frames_None by (auto simp: send_stream_def split: option.splits)

lemma send_reach_inv:
  "send_reach m c streams n st \<Longrightarrow>
     size (sd_open st) \<le> c \<and>
     mset streams = mset (sd_waiting st) + sd_open st + mset (map fst (sd_sent st)) \<and>
     n + 2 * length (sd_waiting st) + size (sd_open st) = 2 * length streams \<and>
     (sd_errs st = [] \<longrightarrow> (\<forall>p \<in> set (sd_sent st). list_all2 (\<lambda>r b. m r = Inr b) (ds_delivery (fst p)) (snd p)))"
proof (induction rule: send_reach.induct)
  case (step n st st')
  from step.hyps(2) show ?case
  proof (cases rule: send_step.cases)
    case (opened s ss)
    with step.IH show ?thesis by simp
  next
    case (closed s dial wr frames err)
    then obtain M where M: "sd_open st = add_mset s M" by (metis multi_member_split)
    have "err = None \<longrightarrow> list_all2 (\<lambda>r b. m r = Inr b) (ds_delivery s) frames"
      using send_stream_None closed(3) by blast
    with step.IH closed M show ?thesis by (auto split: option.splits)
  qed
qed (simp add: start_send_def)

lemma send_progress:
  assumes "0 < c" and "\<not> send_done st"
  shows "\<exists>st'. send_step m c st st'"
proof (cases "sd_open st")
  case empty
  with assms(2) obtain s ss where "sd_waiting st = s # ss" by (auto simp: send_done_def neq_Nil_conv)
  with send_step.opened [OF this, of c m] empty assms(1) show ?thesis by auto
next
  case (add s M)
  moreover obtain frames err where "send_stream m None (\<lambda>_. None) s = (frames, err)" by (metis prod.collapse)
  ultimately show ?thesis using send_step.closed [of s st m None "\<lambda>_. None" frames err c] by auto
qed

section \<open>Property\<close>

text \<open>
  Send terminates and tells the truth: with a positive bound, whatever the schedule and the connections do,
  no more than that many are open; a run that has not returned can go on, and after two steps for each
  stream it has returned; and when it returns nil every reading of every stream has been written, in the
  order of its delivery. With a bound of zero it never returns when there is a stream.
\<close>

theorem send_terminates:
  assumes "send_reach m c streams n st"
  shows "size (sd_open st) \<le> c \<and> n \<le> 2 * length streams \<and>
    (send_done st \<longleftrightarrow> n = 2 * length streams) \<and>
    (0 < c \<and> \<not> send_done st \<longrightarrow> (\<exists>st'. send_step m c st st')) \<and>
    (send_done st \<and> send_result (sd_errs st) = None \<longrightarrow>
       mset (map fst (sd_sent st)) = mset streams \<and>
       (\<forall>(s, frames) \<in> set (sd_sent st). list_all2 (\<lambda>r b. m r = Inr b) (ds_delivery s) frames)) \<and>
    (c = 0 \<and> streams \<noteq> [] \<longrightarrow> \<not> send_done st)"
proof -
  note inv = send_reach_inv [OF assms]
  have d: "send_done st \<longleftrightarrow> n = 2 * length streams"
    using inv by (cases "sd_open st") (auto simp: send_done_def)
  have "n = 0" if "c = 0"
    using assms that
  proof (induction rule: send_reach.induct)
    case (step n st st')
    from send_reach_inv [OF step.hyps(1)] step.prems have "sd_open st = {#}" by simp
    with step.hyps(2) step.prems show ?case by (auto elim: send_stepE)
  qed simp
  moreover have "sd_errs st = []" if "send_result (sd_errs st) = None" using that by (cases "sd_errs st") simp_all
  ultimately show ?thesis using inv d send_progress [of c st m] by (auto simp: send_done_def)
qed

text \<open>One stream: after two steps Send has returned nil.\<close>

theorem send_terminates_witness:
  "\<exists>st. send_reach demo_m 1 [\<lparr>ds_device_id = ''a'', ds_delivery = [demo_reading 1]\<rparr>] 2 st \<and>
     send_done st \<and> sd_errs st = [] \<and> map snd (sd_sent st) = [[[1, 2, 3]]]"
proof -
  let ?s = "\<lparr>ds_device_id = ''a'', ds_delivery = [demo_reading 1]\<rparr>"
  let ?st0 = "start_send [?s]"
  let ?st1 = "?st0\<lparr>sd_waiting := [], sd_open := add_mset ?s (sd_open ?st0)\<rparr>"
  have w: "send_stream demo_m None (\<lambda>_. None) ?s = ([[1, 2, 3]], None)" by code_simp
  let ?st2 = "?st1\<lparr>sd_open := sd_open ?st1 - {#?s#}, sd_sent := sd_sent ?st1 @ [(?s, [[1, 2, 3]])],
    sd_errs := sd_errs ?st1 @ (case None of None \<Rightarrow> [] | Some e \<Rightarrow> [e])\<rparr>"
  have "send_reach demo_m 1 [?s] (Suc 0) ?st1"
    by (rule send_reach.step [OF send_reach.start send_step.opened]) (simp_all add: start_send_def)
  then have r: "send_reach demo_m 1 [?s] (Suc (Suc 0)) ?st2"
    by (rule send_reach.step [OF _ send_step.closed [OF _ w]]) simp
  from send_terminates [OF r] r show ?thesis
    by (intro exI [of _ ?st2]) (simp add: start_send_def numeral_2_eq_2)
qed

end
