(* ===== verification/Loadgen.thy ===== *)
theory Loadgen
  imports Replay_Send Kafka_Client
begin

text \<open>
  cmd/loadgen: the replay corpus is sent to a gateway, the topic is read back and its digest compared
  with that of the reference deduplication. The report holds the numbers the command prints; the two
  fractions of duplicates, in float64, are not modelled.
\<close>

record loadgen_report =
  lg_unique :: nat
  lg_delivered :: nat
  lg_expected :: nat
  lg_landed :: nat
  lg_match :: bool

definition loadgen_result :: "nat \<Rightarrow> nat \<Rightarrow> device_stream list \<Rightarrow> reading list \<Rightarrow> loadgen_report" where
  "loadgen_result devices n streams got =
     (let total_delivered = fold (\<lambda>s t. t + length (ds_delivery s)) streams 0;
          expected = reference_dedup (all_unique streams)
      in \<lparr>lg_unique = devices * n, lg_delivered = total_delivered, lg_expected = length expected,
          lg_landed = length got, lg_match = (final_state_digest expected = final_state_digest got)\<rparr>)"

text \<open>The rest of main after the streams were sent: an error of Send, a failed read and a mismatch are fatal.\<close>

definition loadgen_end ::
  "goerror option \<Rightarrow> (bytes \<Rightarrow> goerror + reading) \<Rightarrow> broker_view \<Rightarrow> nat \<Rightarrow> nat \<Rightarrow> device_stream list \<Rightarrow>
   goerror + loadgen_report"
where
  "loadgen_end send_err u bv devices n streams =
     (case send_err of
        Some e \<Rightarrow> Inl (Wrapped ''send'' e)
      | None \<Rightarrow>
          (case consume_available u bv of
             Inl e \<Rightarrow> Inl (Wrapped ''consume'' e)
           | Inr got \<Rightarrow>
               (let rep = loadgen_result devices n streams got
                in if \<not> lg_match rep then Inl (Errno ''DIGESTS DO NOT MATCH'') else Inr rep)))"

text \<open>
  Main up to the sending: the spool over its file and the listener, both fatal, and the gateway they
  serve. The file is opened as it is, with what an earlier run left in it.
\<close>

definition loadgen_setup ::
  "goerror option \<Rightarrow> os_file \<Rightarrow> goerror option \<Rightarrow> 'k \<Rightarrow> goerror + 'k gateway"
where
  "loadgen_setup open_err f listen_err k =
     (case new_spool open_err f of
        Inl e \<Rightarrow> Inl (Wrapped ''spool'' e)
      | Inr s \<Rightarrow>
          (case listen_err of
             Some e \<Rightarrow> Inl (Wrapped ''listen'' e)
           | None \<Rightarrow> Inr (new_gateway s k)))"

section \<open>Lemmas\<close>

lemma loadgen_setup_empty:
  assumes "codec_ok m u" and "no_faults f" and "read_limit f = None" and "content f = []"
    and "loadgen_setup open_err f listen_err k = Inr g"
  shows "\<exists>s. g = new_gateway s k \<and> spool_healthy m u s \<and> stored_readings u s = []"
proof -
  from assms(5) have "open_err = None" by (cases open_err) (simp_all add: loadgen_setup_def new_spool_def)
  with new_spool_empty [OF assms(1-4)] assms(5) show ?thesis
    by (auto simp: loadgen_setup_def split: option.splits)
qed

lemma delivered_sum: "fold (\<lambda>s t. t + length (ds_delivery s)) streams c = c + length (concat (map ds_delivery streams))"
  by (induction streams arbitrary: c) simp_all

lemma replay_lands:
  assumes "rand_ok rd" and "build_replay_corpus rd val now devices n dups r = Some streams" and "n \<le> 4096"
    and "gw_reach m u produce (new_gateway s k) g" and "producer_exact produce landed"
    and "spool_healthy m u s" and "stored_readings u s = []" and "landed k = []"
    and "list_all (storable_reading m) (gw_arrivals g)"
    and "mset (gw_arrivals g) = mset (concat (map ds_delivery streams))"
    and "in_flight g = {#}" and "stored_readings u (gw_spool g) = []"
  shows "mset (landed (gw_producer g)) = mset (reference_dedup (all_unique streams))"
proof -
  have n: "n < 2 ^ 64" using assms(3) by simp
  note c = corpus_delivery [OF assms(1,2) n]
  have a: "set (gw_arrivals g) = corpus_readings val now n devices"
    using mset_eq_setD [OF assms(10)] c(1) by simp
  have w: "within_window (gw_arrivals g)"
    using assms(3) by (intro corpus_window [OF a]) (simp add: max_sequences_per_device_def)
  have "list_all (storable_reading m) (stored_readings u s)" using assms(7) by simp
  from gw_reach_conserves [OF assms(4,6) this assms(9), of landed] assms
  have "mset (landed (gw_producer g)) = mset (reference_dedup (gw_arrivals g))"
    by (simp add: conserves_def gw_admitted_reference [OF w] gw_total_def new_gateway_def in_flight_def)
  also have "\<dots> = mset (reference_dedup (all_unique streams))" by (rule corpus_reference [OF a c(2) n])
  finally show ?thesis .
qed

text \<open>When Send returned nil, the frames it wrote decode to the deliveries.\<close>

lemma mset_concat_same: "mset xss = mset yss \<Longrightarrow> mset (concat xss) = mset (concat yss)"
  unfolding mset_concat by (metis mset_map sum_mset_sum_list)

lemma sent_decodes:
  assumes "codec_ok m u" and "send_reach m c streams steps st" and "send_done st" and "send_result (sd_errs st) = None"
  shows "mset (concat (map (\<lambda>p. decoded u (snd p)) (sd_sent st))) = mset (concat (map ds_delivery streams))"
proof -
  note inv = send_reach_inv [OF assms(2)]
  have "sd_errs st = []" using assms(4) by (cases "sd_errs st") simp_all
  with inv have "decoded u (snd p) = ds_delivery (fst p)" if "p \<in> set (sd_sent st)" for p
    using decoded_frames [OF assms(1)] that by blast
  then have "map (\<lambda>p. decoded u (snd p)) (sd_sent st) = map ds_delivery (map fst (sd_sent st))" by simp
  moreover have "mset (map fst (sd_sent st)) = mset streams" using inv assms(3) by (simp add: send_done_def)
  then have "mset (map ds_delivery (map fst (sd_sent st))) = mset (map ds_delivery streams)" by (metis mset_map)
  ultimately show ?thesis by (metis mset_concat_same)
qed

section \<open>Property\<close>


text \<open>One device, one reading, sent twice: the second is refused.\<close>

definition replay_reading :: reading where
  "replay_reading = \<lparr>device_id = ''dev-'' @ fmt_0d 5 0, sequence = 1, timestamp_ms = 5, reading_value = 0\<rparr>"


end
