(* ===== verification/Load_Curve.thy ===== *)
theory Load_Curve
  imports Telemetry_Pipeline Go_Format
begin

text \<open>
  cmd/loadcurve: a producer with a bounded number of requests in flight, stages of rising offered rate
  over a fresh pipeline each, and the first stage that fell back to the spool. The producer is modelled
  twice: as the step relation of its concurrent calls, and as the function on its two counters the
  pipeline calls, with the outcomes of the calls as a parameter. The number of readings of a stage, which
  the command computes in float64, is a parameter too.
\<close>

section \<open>The capped producer\<close>

text \<open>
  Calls waiting for the semaphore and calls that hold it, the counters, and as history the number of
  calls and what they returned.
\<close>

record capped =
  cp_capacity :: nat
  cp_waiting :: "nat multiset"
  cp_holding :: "nat multiset"
  cp_succeeded :: nat
  cp_timed_out :: nat
  cp_called :: nat
  cp_returned :: "bool list"

definition new_capped_producer :: "nat \<Rightarrow> capped" where
  "new_capped_producer c =
     \<lparr>cp_capacity = c, cp_waiting = {#}, cp_holding = {#}, cp_succeeded = 0, cp_timed_out = 0,
      cp_called = 0, cp_returned = []\<rparr>"

text \<open>
  A call begins; it gets a slot of the channel, or its context ends first; with a slot it is
  served after the latency, or its context ends first. Either way the slot is given back.
\<close>

inductive capped_step :: "capped \<Rightarrow> capped \<Rightarrow> bool" where
  called: "capped_step s (s\<lparr>cp_waiting := add_mset c (cp_waiting s), cp_called := cp_called s + 1\<rparr>)"
| acquired: "c \<in># cp_waiting s \<Longrightarrow> size (cp_holding s) < cp_capacity s \<Longrightarrow>
    capped_step s (s\<lparr>cp_waiting := cp_waiting s - {#c#}, cp_holding := add_mset c (cp_holding s)\<rparr>)"
| gave_up: "c \<in># cp_waiting s \<Longrightarrow>
    capped_step s (s\<lparr>cp_waiting := cp_waiting s - {#c#}, cp_timed_out := cp_timed_out s + 1,
      cp_returned := cp_returned s @ [False]\<rparr>)"
| served: "c \<in># cp_holding s \<Longrightarrow>
    capped_step s (s\<lparr>cp_holding := cp_holding s - {#c#}, cp_succeeded := cp_succeeded s + 1,
      cp_returned := cp_returned s @ [True]\<rparr>)"
| interrupted: "c \<in># cp_holding s \<Longrightarrow>
    capped_step s (s\<lparr>cp_holding := cp_holding s - {#c#}, cp_timed_out := cp_timed_out s + 1,
      cp_returned := cp_returned s @ [False]\<rparr>)"

inductive capped_reach :: "capped \<Rightarrow> capped \<Rightarrow> bool" for s0 where
  start: "capped_reach s0 s0"
| step: "capped_reach s0 s \<Longrightarrow> capped_step s s' \<Longrightarrow> capped_reach s0 s'"

text \<open>The same producer as the pipeline sees it: the outcome of its n-th return decides, and the counters count.\<close>

definition err_deadline :: goerror where
  "err_deadline = Errno ''context deadline exceeded''"

definition capped_produce :: "(nat \<Rightarrow> bool) \<Rightarrow> (nat \<times> nat) producer" where
  "capped_produce outcome r k =
     (if outcome (fst k + snd k) then (None, (fst k + 1, snd k)) else (Some err_deadline, (fst k, snd k + 1)))"

section \<open>The stages\<close>

definition curve_reading :: "(nat \<Rightarrow> uint64) \<Rightarrow> nat \<Rightarrow> reading" where
  "curve_reading val sq =
     \<lparr>device_id = ''loadcurve-dev'', sequence = of_nat sq, timestamp_ms = int sq, reading_value = val sq\<rparr>"

record stage =
  sg_sent :: nat
  sg_pipeline :: "(nat \<times> nat) pipeline"

text \<open>The goroutine of one reading: an error of Ingest is only logged.\<close>

definition stage_call ::
  "(reading \<Rightarrow> goerror + bytes) \<Rightarrow> (nat \<Rightarrow> uint64) \<Rightarrow> (nat \<Rightarrow> bool) \<Rightarrow> nat \<Rightarrow> stage \<Rightarrow> stage"
where
  "stage_call m val outcome sq st =
     (let (err, p) = ingest m (capped_produce outcome) (curve_reading val sq) (sg_pipeline st)
      in st\<lparr>sg_pipeline := p, sg_sent := sg_sent st + 1\<rparr>)"

definition run_stage ::
  "(reading \<Rightarrow> goerror + bytes) \<Rightarrow> (nat \<Rightarrow> uint64) \<Rightarrow> (nat \<Rightarrow> bool) \<Rightarrow> spool \<Rightarrow> nat list \<Rightarrow> stage"
where
  "run_stage m val outcome s sqs =
     fold (stage_call m val outcome) sqs \<lparr>sg_sent = 0, sg_pipeline = new_pipeline new_dedup s (0, 0)\<rparr>"

definition stages :: "nat list" where
  "stages = [30, 50, 70, 90, 110, 150, 200, 300]"

text \<open>firstLossyRate, from the rates and the number that fell back to the spool in each.\<close>

definition first_lossy_rate :: "(nat \<times> nat) list \<Rightarrow> int" where
  "first_lossy_rate results =
     fold (\<lambda>(rate, spooled) first. if spooled > 0 \<and> first = -1 then int rate else first) results (-1)"

text \<open>
  The command: stage i has its own order of calls, outcomes and spool. For every stage the number of readings sent and
  of those that fell back, and the first rate with a fallback.
\<close>

definition stage_fallbacks :: "stage \<Rightarrow> nat" where
  "stage_fallbacks st = snd (pl_producer (sg_pipeline st))"

definition load_curve ::
  "(reading \<Rightarrow> goerror + bytes) \<Rightarrow> (nat \<Rightarrow> uint64) \<Rightarrow> (nat \<Rightarrow> nat \<Rightarrow> bool) \<Rightarrow> (nat \<Rightarrow> spool) \<Rightarrow> (nat \<Rightarrow> nat list) \<Rightarrow>
   (nat \<times> nat \<times> nat) list \<times> int"
where
  "load_curve m val outcome sp order =
     (let sts = map (\<lambda>i. run_stage m val (outcome i) (sp i) (order i)) [0..<length stages];
          rows = map2 (\<lambda>rate st. (rate, sg_sent st, stage_fallbacks st)) stages sts
      in (rows, first_lossy_rate (map (\<lambda>(rate, sent, spooled). (rate, spooled)) rows)))"

text \<open>The line printed at the end.\<close>

definition load_curve_result :: "int \<Rightarrow> string" where
  "load_curve_result first =
     ''RESULT: offered rate where loss first went nonzero: '' @
     (if first = -1
      then ''none found in tested range ('' @ fmt_d (int (hd stages)) @ '' to '' @ fmt_d (int (last stages)) @ ''/sec)''
      else fmt_d first @ ''/sec'')"

section \<open>The producer's two models agree\<close>

lemma capped_reach_counts:
  "capped_reach (new_capped_producer c) s \<Longrightarrow>
     cp_capacity s = c \<and> size (cp_holding s) \<le> c \<and>
     cp_called s = size (cp_waiting s) + size (cp_holding s) + length (cp_returned s) \<and>
     cp_succeeded s = length (filter id (cp_returned s)) \<and>
     cp_timed_out s = length (filter Not (cp_returned s))"
proof (induction rule: capped_reach.induct)
  case (step s s')
  from step.hyps(2) show ?case
  proof (cases rule: capped_step.cases)
    case (acquired c)
    with step.IH show ?thesis by (auto simp: size_Diff_singleton dest!: multi_member_split)
  next
    case (gave_up c)
    with step.IH show ?thesis by (auto dest!: multi_member_split)
  next
    case (served c)
    with step.IH show ?thesis by (auto dest!: multi_member_split)
  next
    case (interrupted c)
    with step.IH show ?thesis by (auto dest!: multi_member_split)
  qed (use step.IH in simp_all)
qed (simp add: new_capped_producer_def)

lemma capped_replay:
  "fold (\<lambda>r k. snd (capped_produce outcome r k)) rs (a, b) =
     (a + length (filter outcome [a + b..<a + b + length rs]),
      b + length (filter (\<lambda>i. \<not> outcome i) [a + b..<a + b + length rs]))"
proof (induction rs arbitrary: a b)
  case (Cons r rs)
  have "[a + b..<a + b + length (r # rs)] = (a + b) # [Suc (a + b)..<Suc (a + b) + length rs]"
    by (simp add: upt_conv_Cons del: upt_Suc)
  with Cons [of "Suc a" b] Cons [of a "Suc b"] show ?case by (simp add: capped_produce_def del: upt_Suc)
qed simp

lemma filter_nth_count: "length (filter (\<lambda>i. P (xs ! i)) [0..<length xs]) = length (filter P xs)"
proof -
  have "filter P xs = map (\<lambda>i. xs ! i) (filter (\<lambda>i. P (xs ! i)) [0..<length xs])"
    by (metis (mono_tags, lifting) comp_apply filter_cong filter_map map_nth)
  then show ?thesis by (metis length_map)
qed

section \<open>A stage\<close>

text \<open>One call for a reading that is not known: exactly one return is counted, and a failed one is spooled.\<close>

lemma ingest_fresh:
  assumes "pipeline_ok m u p" and "dedup_ok (pl_dedup p)" and "storable_reading m r"
    and "reading_key r \<notin> known_readings (pl_dedup p)"
  shows "\<exists>p'. ingest m (capped_produce outcome) r p = (None, p') \<and> pipeline_ok m u p' \<and> dedup_ok (pl_dedup p') \<and>
    known_readings (pl_dedup p') \<subseteq> insert (reading_key r) (known_readings (pl_dedup p)) \<and>
    pl_producer p' = snd (capped_produce outcome r (pl_producer p)) \<and>
    length (stored_readings u (pl_spool p')) + snd (pl_producer p) =
      length (stored_readings u (pl_spool p)) + snd (pl_producer p')"
proof -
  obtain d where a: "admit_key (reading_key r) (pl_dedup p) = (True, d)"
    using tel.admit_fresh [OF assms(2,4)] by (metis prod.collapse)
  have d: "dedup_ok d" "known_readings d \<subseteq> insert (reading_key r) (known_readings (pl_dedup p))"
    using tel.wf_admit [OF assms(2), of "reading_key r"] tel.known_after_admit_subset [OF assms(2), of "reading_key r"]
    by (simp_all add: a)
  obtain e' s where w: "spool_write m r (pl_spool p) = (e', s)" by (metis prod.collapse)
  note st = store_ok [OF assms(1,3) w, of "snd (capped_produce outcome r (pl_producer p))" d]
  have ok: "pipeline_ok m u (p\<lparr>pl_dedup := d, pl_producer := k\<rparr>)" for k
    using assms(1) by (simp add: pipeline_ok_def)
  show ?thesis
  proof (cases "outcome (fst (pl_producer p) + snd (pl_producer p))")
    case True
    with a d ok show ?thesis by (auto simp: ingest_def admit_reading capped_produce_def)
  next
    case False
    with a d w st show ?thesis by (auto simp: ingest_def admit_reading capped_produce_def)
  qed
qed

definition stage_inv ::
  "(reading \<Rightarrow> goerror + bytes) \<Rightarrow> (bytes \<Rightarrow> goerror + reading) \<Rightarrow> (string \<times> uint64) set \<Rightarrow> stage \<Rightarrow> bool"
where
  "stage_inv m u done_keys st \<longleftrightarrow> pipeline_ok m u (sg_pipeline st) \<and> dedup_ok (pl_dedup (sg_pipeline st)) \<and>
     known_readings (pl_dedup (sg_pipeline st)) \<subseteq> done_keys \<and>
     fst (pl_producer (sg_pipeline st)) + snd (pl_producer (sg_pipeline st)) = sg_sent st \<and>
     length (stored_readings u (pl_spool (sg_pipeline st))) = snd (pl_producer (sg_pipeline st))"

lemma stage_calls:
  "stage_inv m u K st \<Longrightarrow> distinct (map (reading_key \<circ> curve_reading val) sqs) \<Longrightarrow>
   (\<And>sq. sq \<in> set sqs \<Longrightarrow> storable_reading m (curve_reading val sq) \<and> reading_key (curve_reading val sq) \<notin> K) \<Longrightarrow>
   stage_inv m u (K \<union> (reading_key \<circ> curve_reading val) ` set sqs) (fold (stage_call m val outcome) sqs st) \<and>
   sg_sent (fold (stage_call m val outcome) sqs st) = sg_sent st + length sqs \<and>
   pl_producer (sg_pipeline (fold (stage_call m val outcome) sqs st)) =
     fold (\<lambda>sq k. snd (capped_produce outcome (curve_reading val sq) k)) sqs (pl_producer (sg_pipeline st))"
proof (induction sqs arbitrary: st K)
  case (Cons sq sqs)
  let ?r = "curve_reading val sq"
  have "reading_key ?r \<notin> known_readings (pl_dedup (sg_pipeline st))"
    using Cons.prems(1) Cons.prems(3) [of sq] by (auto simp: stage_inv_def)
  with Cons.prems(1) Cons.prems(3) [of sq] ingest_fresh [of m u "sg_pipeline st" ?r outcome] obtain p' where
    p': "ingest m (capped_produce outcome) ?r (sg_pipeline st) = (None, p')" "pipeline_ok m u p'" "dedup_ok (pl_dedup p')"
      "known_readings (pl_dedup p') \<subseteq> insert (reading_key ?r) (known_readings (pl_dedup (sg_pipeline st)))"
      "pl_producer p' = snd (capped_produce outcome ?r (pl_producer (sg_pipeline st)))"
      "length (stored_readings u (pl_spool p')) + snd (pl_producer (sg_pipeline st)) =
        length (stored_readings u (pl_spool (sg_pipeline st))) + snd (pl_producer p')"
    by (auto simp: stage_inv_def)
  have sg: "stage_call m val outcome sq st = st\<lparr>sg_pipeline := p', sg_sent := sg_sent st + 1\<rparr>"
    by (simp add: stage_call_def p'(1))
  have i1: "stage_inv m u (insert (reading_key ?r) K) (stage_call m val outcome sq st)"
    using Cons.prems(1) p'(2-6) by (auto simp: sg stage_inv_def capped_produce_def split: if_splits)
  have i2: "distinct (map (reading_key \<circ> curve_reading val) sqs)"
    using Cons.prems(2) unfolding list.map distinct.simps by blast
  have i3: "storable_reading m (curve_reading val x) \<and> reading_key (curve_reading val x) \<notin> insert (reading_key ?r) K"
    if "x \<in> set sqs" for x
  proof -
    have "reading_key ?r \<notin> (reading_key \<circ> curve_reading val) ` set sqs"
      using Cons.prems(2) by simp
    with that have "reading_key (curve_reading val x) \<noteq> reading_key ?r" by (auto simp: image_iff)
    with Cons.prems(3) [of x] that show ?thesis by simp
  qed
  from Cons.IH [OF i1 i2 i3] p'(5) show ?case by (simp add: sg)
qed simp

lemma curve_keys:
  assumes "distinct sqs" and "\<And>sq. sq \<in> set sqs \<Longrightarrow> sq < 2 ^ 64"
  shows "distinct (map (reading_key \<circ> curve_reading val) sqs)"
  using assms by (auto simp: distinct_map inj_on_def reading_key_def curve_reading_def of_nat_uint64_inject)

lemma first_lossy_fold:
  "fold (\<lambda>(rate, spooled) first. if spooled > 0 \<and> first = -1 then int rate else first) results f =
     (if f \<noteq> -1 then f
      else case List.find (\<lambda>(rate, spooled). spooled > 0) results of None \<Rightarrow> -1 | Some (rate, _) \<Rightarrow> int rate)"
  by (induction results arbitrary: f) auto

section \<open>Properties\<close>

text \<open>
  The simulated broker: never more requests in flight than the capacity; every call has returned, waits or
  is in flight; the counters are the numbers of the two outcomes. And the function the pipeline is given counts
  the same for the same returns, so the stages below cover every run of the step relation.
\<close>

theorem capped_producer_refines:
  assumes "capped_reach (new_capped_producer c) s" and "length rs = length (cp_returned s)"
  shows "size (cp_holding s) \<le> c \<and>
    cp_called s = size (cp_waiting s) + size (cp_holding s) + (cp_succeeded s + cp_timed_out s) \<and>
    fold (\<lambda>r k. snd (capped_produce (\<lambda>i. cp_returned s ! i) r k)) rs (0, 0) = (cp_succeeded s, cp_timed_out s)"
proof -
  note c = capped_reach_counts [OF assms(1)]
  have "length (filter id (cp_returned s)) + length (filter Not (cp_returned s)) = length (cp_returned s)"
    using sum_length_filter_compl [of id "cp_returned s"] by simp
  with c capped_replay [of "\<lambda>i. cp_returned s ! i" rs 0 0] assms(2)
    filter_nth_count [of id "cp_returned s"] filter_nth_count [of Not "cp_returned s"]
  show ?thesis by simp
qed

text \<open>
  What the curve reports: whatever the outcomes and the order of a stage's goroutines, over spools that were empty and
  raise no fault, every reading of a stage is sent, the fallbacks counted are the readings in its
  spool, and the rate reported is that of the first stage that has one, -1 exactly when there is none.
\<close>

theorem load_curve_report:
  assumes "\<And>i. i < 8 \<Longrightarrow> distinct (order i) \<and> (\<forall>sq \<in> set (order i). sq < 2 ^ 64)"
    and "\<And>i sq. i < 8 \<Longrightarrow> sq \<in> set (order i) \<Longrightarrow> storable_reading m (curve_reading val sq)"
    and "\<And>i. i < 8 \<Longrightarrow> spool_healthy m u (sp i) \<and> stored_readings u (sp i) = []"
    and "stored = (\<lambda>i. stored_readings u (pl_spool (sg_pipeline (run_stage m val (outcome i) (sp i) (order i)))))"
  shows "load_curve m val outcome sp order =
    (map (\<lambda>i. (stages ! i, length (order i), length (stored i))) [0..<8],
     case List.find (\<lambda>i. stored i \<noteq> []) [0..<8] of None \<Rightarrow> -1 | Some i \<Rightarrow> int (stages ! i))"
proof -
  have one: "sg_sent (run_stage m val (outcome i) (sp i) (order i)) = length (order i) \<and>
      stage_fallbacks (run_stage m val (outcome i) (sp i) (order i)) = length (stored i)" if "i < 8" for i
  proof -
    let ?st = "\<lparr>sg_sent = 0, sg_pipeline = new_pipeline new_dedup (sp i) (0, 0)\<rparr>"
    have "stage_inv m u {} ?st"
      using assms(3) [OF that] by (simp add: stage_inv_def new_pipeline_def pipeline_ok_def tel.known_start)
    from stage_calls [OF this curve_keys, of "order i" val "outcome i"] assms(1,2) [OF that]
    show ?thesis by (simp add: run_stage_def stage_inv_def stage_fallbacks_def assms(4))
  qed
  have L: "length stages = 8" by (simp add: stages_def)
  have rows: "map2 (\<lambda>rate st. (rate, sg_sent st, stage_fallbacks st)) stages
      (map (\<lambda>i. run_stage m val (outcome i) (sp i) (order i)) [0..<length stages]) =
      map (\<lambda>i. (stages ! i, length (order i), length (stored i))) [0..<length stages]"
    using one by (intro nth_equalityI) (simp_all add: L)
  have "List.find (\<lambda>(rate, spooled). spooled > 0) (map (\<lambda>i. (stages ! i, length (stored i))) is) =
      map_option (\<lambda>i. (stages ! i, length (stored i))) (List.find (\<lambda>i. stored i \<noteq> []) is)" for "is"
    by (induction "is") auto
  then show ?thesis
    unfolding load_curve_def Let_def rows
    unfolding first_lossy_rate_def first_lossy_fold map_map comp_def L
    by (simp add: case_prod_beta split: option.splits)
qed

theorem capped_producer_refines_witness:
  "\<exists>s. capped_reach (new_capped_producer 1) s \<and> cp_returned s = [True, False] \<and> cp_succeeded s = 1 \<and>
     cp_timed_out s = 1 \<and> size (cp_holding s) \<le> 1"
proof -
  let ?s0 = "new_capped_producer 1"
  let ?s1 = "?s0\<lparr>cp_waiting := add_mset 1 (cp_waiting ?s0), cp_called := cp_called ?s0 + 1\<rparr>"
  let ?s2 = "?s1\<lparr>cp_waiting := add_mset 2 (cp_waiting ?s1), cp_called := cp_called ?s1 + 1\<rparr>"
  let ?s3 = "?s2\<lparr>cp_waiting := cp_waiting ?s2 - {#1#}, cp_holding := add_mset 1 (cp_holding ?s2)\<rparr>"
  let ?s4 = "?s3\<lparr>cp_holding := cp_holding ?s3 - {#1#}, cp_succeeded := cp_succeeded ?s3 + 1,
    cp_returned := cp_returned ?s3 @ [True]\<rparr>"
  let ?s5 = "?s4\<lparr>cp_waiting := cp_waiting ?s4 - {#2#}, cp_timed_out := cp_timed_out ?s4 + 1,
    cp_returned := cp_returned ?s4 @ [False]\<rparr>"
  have "capped_reach ?s0 ?s2"
    by (rule capped_reach.step [OF capped_reach.step [OF capped_reach.start capped_step.called] capped_step.called])
  then have "capped_reach ?s0 ?s3"
    by (rule capped_reach.step [OF _ capped_step.acquired]) (simp_all add: new_capped_producer_def)
  then have "capped_reach ?s0 ?s4"
    by (rule capped_reach.step [OF _ capped_step.served]) simp
  then have r: "capped_reach ?s0 ?s5"
    by (rule capped_reach.step [OF _ capped_step.gave_up]) (simp add: new_capped_producer_def)
  from capped_producer_refines [OF r, of "[x, y]" for x y] r show ?thesis
    by (intro exI [of _ ?s5]) (simp add: new_capped_producer_def capped_produce_def)
qed

text \<open>Every stage sends one reading, which is produced in the first two stages and spooled in the others.\<close>

theorem load_curve_report_witness:
  "snd (load_curve (table_marshal [(curve_reading (\<lambda>_. 0) 0, [7 :: byte])]) (\<lambda>_. 0) (\<lambda>i _. i < 2)
     (\<lambda>_. demo_spool [] []) (\<lambda>_. [0])) = 70"
proof -
  let ?r = "curve_reading (\<lambda>_. 0) 0"
  let ?m = "table_marshal [(?r, [7 :: byte])]" and ?u = "table_unmarshal [(?r, [7 :: byte])]"
  have st: "storable_reading ?m ?r" by (simp add: storable_reading_def marshals_def table_marshal_def small_def)
  have codec: "codec_ok ?m ?u" by (rule codec_ok_table) simp
  have healthy: "spool_healthy ?m ?u (demo_spool [] []) \<and> stored_readings ?u (demo_spool [] []) = []"
    using spool_healthy_empty [OF codec, of "demo_spool [] []"]
    by (simp add: demo_spool_def demo_file_def no_faults_def spool_clean_def new_bufw_def at_end_def stored_readings_def)
  let ?stored = "\<lambda>i. stored_readings ?u (pl_spool (sg_pipeline
    (run_stage ?m (\<lambda>_. 0) (\<lambda>_. i < (2 :: nat)) (demo_spool [] []) [0])))"
  have s: "stored_readings ?u (pl_spool (sg_pipeline (run_stage ?m (\<lambda>_. 0) (\<lambda>_. True) (demo_spool [] []) [0]))) = []"
    "stored_readings ?u (pl_spool (sg_pipeline (run_stage ?m (\<lambda>_. 0) (\<lambda>_. False) (demo_spool [] []) [0]))) \<noteq> []"
    by code_simp+
  have "[0..<8] = [0, 1, 2, 3, 4, 5, 6, 7 :: nat]" by (simp add: upt_rec)
  then have "List.find (\<lambda>i. ?stored i \<noteq> []) [0..<8] = Some 2" using s by simp
  then show ?thesis
    using load_curve_report [of "\<lambda>_. [0]" ?m "\<lambda>_. 0" ?u "\<lambda>_. demo_spool [] []" ?stored "\<lambda>i _. i < 2"] st healthy
    by (simp add: stages_def)
qed

end
