(* ===== verification/Gateway_Restart.thy ===== *)
theory Gateway_Restart
  imports Gateway_Concurrency
begin

text \<open>
  cmd/gateway: the command opens the spool, starts the drainer and serves. A restart of the process
  is this start over the file the previous one left: the spool survives, the deduplication table does
  not, and neither does what a running Ingest or drainOnce held in memory.
\<close>

section \<open>Model\<close>

text \<open>
  The outcomes of OpenFile and Listen are given; either failure ends the command. The drainer's and the
  server's steps are those of the gateway's step relation.
\<close>

definition start_gateway ::
  "goerror option \<Rightarrow> os_file \<Rightarrow> goerror option \<Rightarrow> 'k \<Rightarrow> goerror + 'k gateway"
where
  "start_gateway open_err f listen_err k =
     (case new_spool open_err f of
        Inl e \<Rightarrow> Inl (Wrapped ''spool'' e)
      | Inr s \<Rightarrow>
          (case listen_err of
             Some e \<Rightarrow> Inl (Wrapped ''listen'' e)
           | None \<Rightarrow> Inr (new_gateway s k)))"

text \<open>The file as the next process finds it: what was written is there, the offset is not.\<close>

definition left_behind :: "'k gateway \<Rightarrow> os_file \<Rightarrow> bool" where
  "left_behind g f \<longleftrightarrow> content f = content (spool_file (gw_spool g)) \<and> no_faults f \<and> read_limit f = None"

text \<open>
  The life of a gateway over restarts: the current state, what the crashes took with them, and every
  reading a process admitted.
\<close>

inductive gw_life ::
  "(reading \<Rightarrow> goerror + bytes) \<Rightarrow> (bytes \<Rightarrow> goerror + reading) \<Rightarrow> 'k producer \<Rightarrow> 'k gateway \<Rightarrow>
   'k gateway \<Rightarrow> reading multiset \<Rightarrow> reading multiset \<Rightarrow> bool"
  for m u produce g0
where
  first: "gw_reach m u produce g0 g \<Longrightarrow> list_all (storable_reading m) (gw_arrivals g) \<Longrightarrow>
    gw_life m u produce g0 g {#} (mset (gw_admitted g))"
| restarted: "gw_life m u produce g0 g crashed adm \<Longrightarrow> left_behind g f \<Longrightarrow>
    start_gateway None f None (gw_producer g) = Inr g1 \<Longrightarrow> gw_reach m u produce g1 g2 \<Longrightarrow>
    list_all (storable_reading m) (gw_arrivals g2) \<Longrightarrow>
    gw_life m u produce g0 g2 (crashed + in_flight g) (adm + mset (gw_admitted g2))"

section \<open>Lemmas\<close>

lemma start_after:
  assumes "gw_healthy m u g" and "left_behind g f" and "start_gateway None f None k = Inr g1"
  shows "\<exists>s. g1 = new_gateway s k \<and> spool_healthy m u s \<and>
    stored_readings u s = stored_readings u (gw_spool g) \<and>
    list_all (storable_reading m) (stored_readings u s)"
proof -
  let ?f = "(used f)\<lparr>offset := length (content f)\<rparr>"
  have nf: "next_fault f = None" "no_faults (used f)" "no_faults f" using assms(2) by (simp_all add: left_behind_def no_faults_simps)
  have g1: "g1 = new_gateway \<lparr>spool_file = ?f, spool_w = new_bufw\<rparr> k"
    using assms(3) nf by (simp add: start_gateway_def new_spool_def file_seek_def)
  have c: "content ?f = content (spool_file (gw_spool g))" "read_limit ?f = None"
    using assms(2) by (simp_all add: left_behind_def used_def)
  have "spool_healthy m u \<lparr>spool_file = ?f, spool_w = new_bufw\<rparr>"
    using assms(1) c nf
    by (simp add: gw_healthy_def spool_healthy_def spool_clean_def at_end_def no_faults_simps used_def)
  moreover have "stored_readings u \<lparr>spool_file = ?f, spool_w = new_bufw\<rparr> = stored_readings u (gw_spool g)"
    using c by (simp add: stored_readings_def)
  ultimately show ?thesis
    using g1 assms(1) by (auto simp: gw_healthy_def list_all_iff)
qed

lemma gw_life_accounts:
  assumes "producer_exact produce landed" and "spool_healthy m u s"
    and "list_all (storable_reading m) (stored_readings u s)"
  shows "gw_life m u produce (new_gateway s k) g crashed adm \<Longrightarrow>
    gw_healthy m u g \<and> gw_total u landed g + crashed = gw_total u landed (new_gateway s k) + adm"
proof (induction rule: gw_life.induct)
  case (first g)
  from gw_reach_conserves [OF first.hyps(1) assms(2,3) first.hyps(2), of landed] assms(1)
  show ?case by (simp add: conserves_def)
next
  case (restarted g crashed adm f g1 g2)
  from start_after [OF _ restarted.hyps(2,3), of m u] restarted.IH obtain s1 where
    s1: "g1 = new_gateway s1 (gw_producer g)" "spool_healthy m u s1"
      "stored_readings u s1 = stored_readings u (gw_spool g)"
      "list_all (storable_reading m) (stored_readings u s1)" by blast
  from gw_reach_conserves [OF restarted.hyps(4) [unfolded s1(1)] s1(2,4) restarted.hyps(5), of landed] assms(1)
  have g2: "gw_healthy m u g2"
    "gw_total u landed g2 = gw_total u landed (new_gateway s1 (gw_producer g)) + mset (gw_admitted g2)"
    by (simp_all add: conserves_def)
  have "gw_total u landed (new_gateway s1 (gw_producer g)) + in_flight g = gw_total u landed g"
    using s1(3) by (simp add: gw_total_def new_gateway_def in_flight_def)
  with g2 restarted.IH show ?case by (simp add: ac_simps)
qed

text \<open>A process is stopped when drainOnce has taken the only reading out of the spool, and restarted.\<close>

lemma demo_crash:
  "\<exists>g. gw_life demo_m demo_u fake_produce demo_g0 g {#demo_reading 1#} {#demo_reading 1#} \<and>
     snd (gw_producer g) = [] \<and> stored_readings demo_u (gw_spool g) = [] \<and> in_flight g = {#} \<and> gw_lost g = []"
proof -
  obtain d s where r: "gw_reach demo_m demo_u fake_produce demo_g0 (drained_state d s (0, []) (demo_reading 1))"
    and s: "spool_healthy demo_m demo_u s" "stored_readings demo_u s = []" using demo_drained_state by blast
  let ?g = "drained_state d s (0 :: nat, [] :: reading list) (demo_reading 1)"
  have g: "gw_arrivals ?g = [demo_reading 1]" "in_flight ?g = {#demo_reading 1#}" "gw_producer ?g = (0, [])"
    "gw_spool ?g = s" by (simp_all add: drained_state_def in_flight_def)
  have "gw_admitted ?g = [demo_reading 1]"
    using gw_admitted_reference [of ?g] demo_arrivals by (simp add: g)
  with gw_life.first [OF r] demo_arrivals(1) have l: "gw_life demo_m demo_u fake_produce demo_g0 ?g {#} {#demo_reading 1#}"
    by (simp add: g)
  let ?f = "(spool_file s)\<lparr>offset := 0\<rparr>"
  have lb: "left_behind ?g ?f" using s(1) by (simp add: left_behind_def g spool_healthy_def no_faults_simps)
  let ?s1 = "\<lparr>spool_file = (used ?f)\<lparr>offset := length (content ?f)\<rparr>, spool_w = new_bufw\<rparr>"
  have st: "start_gateway None ?f None (gw_producer ?g) = Inr (new_gateway ?s1 (0, []))"
    using lb by (simp add: start_gateway_def new_spool_def file_seek_def left_behind_def no_faults_simps g)
  have "gw_life demo_m demo_u fake_produce demo_g0 (new_gateway ?s1 (0, [])) ({#} + in_flight ?g)
      ({#demo_reading 1#} + mset (gw_admitted (new_gateway ?s1 (0 :: nat, [] :: reading list))))"
    by (rule gw_life.restarted [OF l lb st gw_reach.start]) (simp add: new_gateway_def)
  moreover have "gw_admitted (new_gateway ?s1 (0 :: nat, [] :: reading list)) = []"
    by (simp add: gw_admitted_def new_gateway_def)
  ultimately show ?thesis
    using s(2) unfolding g(2) by (intro exI [of _ "new_gateway ?s1 (0, [])"])
      (simp add: new_gateway_def in_flight_def stored_readings_def used_def)
qed

section \<open>Properties\<close>




end
