(* ===== verification/Delivery_Gateway.thy ===== *)
theory Delivery_Gateway
  imports ClickHouse_Server Delivery_Edge
begin

text \<open>
  cmd/deliverygateway/main.go: the HTTP handler in front of the delivery edge, the consumer that
  batches webhooks from Kafka into ClickHouse, the loop that refreshes the rollup, and the summary
  endpoint. The body of a request and its decoding (net/http, encoding/json) are inputs.
\<close>

section \<open>The webhook handler\<close>

record webhook_payload =
  pl_webhook_id :: string
  pl_message_id :: string
  pl_channel :: string
  pl_status :: string
  pl_provider :: string
  pl_timestamp :: int

text \<open>
  A request as the handler sees it: the method, the bytes of the body or the error of reading them
  (the handler reads 65536 bytes at most, and takes what it has read), and the clock.
\<close>

record http_request =
  rq_method :: string
  rq_body :: "goerror + string"
  rq_now_ms :: int

datatype http_reply =
    Http_Error nat string
  | Http_Json string

definition body_limit :: nat where
  "body_limit = 65536"

definition accepted_json :: "bool \<Rightarrow> string" where
  "accepted_json b = json_object [(''accepted'', if b then ''true'' else ''false'')] @ nl"

text \<open>The text of an error value in a %v.\<close>

fun error_text :: "goerror \<Rightarrow> string" where
  "error_text (Errno t) = t"
| "error_text (Wrapped t e) = t @ '': '' @ error_text e"

definition payload_webhook :: "int \<Rightarrow> webhook_payload \<Rightarrow> delivery_webhook" where
  "payload_webhook now p =
     \<lparr>webhook_id = pl_webhook_id p, message_id = pl_message_id p, channel = pl_channel p,
      status = pl_status p,
      wh_timestamp_ms = (if pl_timestamp p = 0 then now else pl_timestamp p),
      provider = pl_provider p\<rparr>"

definition handle_webhook ::
  "(string \<Rightarrow> goerror + webhook_payload) \<Rightarrow> (delivery_webhook, 'p) sender \<Rightarrow> http_request \<Rightarrow>
   'p webhook_pipeline \<Rightarrow> http_reply \<times> 'p webhook_pipeline"
where
  "handle_webhook unmarshal produce r p =
     (if rq_method r \<noteq> ''POST'' then (Http_Error 405 ''method not allowed'', p)
      else
        (case rq_body r of
           Inl e \<Rightarrow> (Http_Error 400 ''read error'', p)
         | Inr body \<Rightarrow>
             (case unmarshal (take body_limit body) of
                Inl e \<Rightarrow> (Http_Error 400 ''invalid json'', p)
              | Inr pl \<Rightarrow>
                  if pl_webhook_id pl = [] \<or> pl_channel pl = []
                  then (Http_Error 400 ''webhook_id and channel are required'', p)
                  else
                    (case webhook_ingest produce (payload_webhook (rq_now_ms r) pl) p of
                       ((acc, Some e), p') \<Rightarrow> (Http_Error 502 (''produce error: '' @ error_text e), p')
                     | ((acc, None), p') \<Rightarrow> (Http_Json (accepted_json acc), p')))))"

definition handle_all ::
  "(string \<Rightarrow> goerror + webhook_payload) \<Rightarrow> (delivery_webhook, 'p) sender \<Rightarrow> http_request list \<Rightarrow>
   'p webhook_pipeline \<Rightarrow> 'p webhook_pipeline"
where
  "handle_all unmarshal produce rs p = fold (\<lambda>r p. snd (handle_webhook unmarshal produce r p)) rs p"

section \<open>The consumer\<close>

definition ch_batch_size :: nat where
  "ch_batch_size = 200"

record 's consumer =
  cs_batch :: "delivery_webhook list"
  cs_store :: 's

definition new_consumer :: "'s \<Rightarrow> 's consumer" where
  "new_consumer s = \<lparr>cs_batch = [], cs_store = s\<rparr>"

text \<open>The batch is replaced before it is inserted, and an error of the insert is only logged.\<close>

definition flush_ch :: "(delivery_webhook list \<Rightarrow> 's \<Rightarrow> goerror option \<times> 's) \<Rightarrow> 's consumer \<Rightarrow> 's consumer" where
  "flush_ch ins c =
     (let batch = cs_batch c; c1 = c\<lparr>cs_batch := []\<rparr>
      in if batch = [] then c1 else c1\<lparr>cs_store := snd (ins batch (cs_store c1))\<rparr>)"

datatype consumer_event =
    Received delivery_webhook
  | Channel_Closed
  | Flush_Tick
  | Consume_Done
  | Rollup_Tick

text \<open>
  One turn of the select loop: the new state, and whether the loop goes on. The rollup loop is a
  goroutine of its own whose ticks interleave with the consumer's turns.
\<close>

definition consumer_step ::
  "(delivery_webhook list \<Rightarrow> 's \<Rightarrow> goerror option \<times> 's) \<Rightarrow> consumer_event \<Rightarrow> 's consumer \<Rightarrow> 's consumer \<times> bool"
where
  "consumer_step ins ev c =
     (case ev of
        Received wh \<Rightarrow>
          (let c1 = c\<lparr>cs_batch := cs_batch c @ [wh]\<rparr>
           in (if length (cs_batch c1) \<ge> ch_batch_size then flush_ch ins c1 else c1, True))
      | Channel_Closed \<Rightarrow> (c, False)
      | Flush_Tick \<Rightarrow> (flush_ch ins c, True)
      | Consume_Done \<Rightarrow> (flush_ch ins c, False)
      | Rollup_Tick \<Rightarrow> (c, True))"

definition rollup_step :: "('s \<Rightarrow> goerror option \<times> 's) \<Rightarrow> consumer_event \<Rightarrow> 's \<Rightarrow> 's" where
  "rollup_step ref ev s = (case ev of Rollup_Tick \<Rightarrow> snd (ref s) | _ \<Rightarrow> s)"

text \<open>
  Both goroutines until the consumer's loop ends, on a sequence of what their selects yield. A refresh
  is one step here; Delivery_Service interleaves its two statements with everything else.
\<close>

fun run_consumer ::
  "(delivery_webhook list \<Rightarrow> 's \<Rightarrow> goerror option \<times> 's) \<Rightarrow> ('s \<Rightarrow> goerror option \<times> 's) \<Rightarrow>
   consumer_event list \<Rightarrow> 's consumer \<Rightarrow> 's consumer"
where
  "run_consumer ins ref [] c = c"
| "run_consumer ins ref (ev # evs) c =
     (let (c1, go_on) = consumer_step ins ev c;
          c2 = c1\<lparr>cs_store := rollup_step ref ev (cs_store c1)\<rparr>
      in if go_on then run_consumer ins ref evs c2 else c2)"

section \<open>The summary endpoint\<close>

definition summary_row_json :: "string \<times> string \<times> int \<Rightarrow> string" where
  "summary_row_json r =
     json_object [(''channel'', json_string (fst r)), (''status'', json_string (fst (snd r))),
       (''count'', fmt_d (snd (snd r)))]"

fun join_comma :: "string list \<Rightarrow> string" where
  "join_comma [] = []"
| "join_comma [t] = t"
| "join_comma (t # ts) = t @ '','' @ join_comma ts"

text \<open>encoding/json writes the keys of a map in order: generated_at, rows.\<close>

definition handle_summary ::
  "('s \<Rightarrow> (goerror + (string \<times> string \<times> int) list) \<times> 's) \<Rightarrow> int \<Rightarrow> 's \<Rightarrow> http_reply \<times> 's"
where
  "handle_summary get now s =
     (case get s of
        (Inl e, s') \<Rightarrow> (Http_Error 500 (''summary error: '' @ error_text e), s')
      | (Inr rows, s') \<Rightarrow>
          (Http_Json (json_object
             [(''generated_at'', json_string (time_text_rfc3339 now)),
              (''rows'', ''['' @ join_comma (map summary_row_json rows) @ '']'')] @ nl), s'))"

definition handle_healthz :: http_reply where
  "handle_healthz = Http_Json ''ok''"

section \<open>Lemmas\<close>

text \<open>What the consumer's loop takes from the channel before it ends.\<close>

fun received :: "consumer_event list \<Rightarrow> delivery_webhook list" where
  "received [] = []"
| "received (Received w # evs) = w # received evs"
| "received (Channel_Closed # evs) = []"
| "received (Consume_Done # evs) = []"
| "received (Flush_Tick # evs) = received evs"
| "received (Rollup_Tick # evs) = received evs"

lemma received_map [simp]: "received (map Received ws @ evs) = ws @ received evs"
  by (induction ws) simp_all

lemma flush_ch_batch [simp]: "cs_batch (flush_ch ins c) = []"
  by (simp add: flush_ch_def Let_def)

lemma consumer_step_batch:
  "length (cs_batch c) < ch_batch_size \<Longrightarrow> length (cs_batch (fst (consumer_step ins ev c))) < ch_batch_size"
  by (simp add: consumer_step_def Let_def ch_batch_size_def split: consumer_event.split)

context webhook_store
begin

text \<open>When no insert of storable webhooks fails, a flush moves the batch into the store.\<close>

lemma flush_stores:
  assumes never: "\<forall>ws s. list_all storable ws \<longrightarrow> fst (insert_batch ws s) = None"
    and "list_all storable (cs_batch c)"
  shows "stored (cs_store (flush_ch insert_batch c)) = stored (cs_store c) @ cs_batch c"
proof (cases "cs_batch c = []")
  case False
  obtain s' where "insert_batch (cs_batch c) (cs_store c) = (None, s')"
    using never assms(2) by (metis prod.collapse)
  with insert_ok [OF assms(2)] False show ?thesis by (simp add: flush_ch_def)
qed (simp add: flush_ch_def)

lemma refresh_keeps_stored: "stored (snd (refresh s)) = stored s"
  using refresh_any [of s "fst (refresh s)" "snd (refresh s)"] by simp

lemma rollup_step_stored: "stored (rollup_step refresh ev s) = stored s"
  by (simp add: rollup_step_def refresh_keeps_stored split: consumer_event.split)

text \<open>Nothing is lost or reordered between the channel and the store.\<close>

lemma run_consumer_stores:
  assumes never: "\<forall>ws s. list_all storable ws \<longrightarrow> fst (insert_batch ws s) = None"
    and "list_all storable (cs_batch c @ received evs)"
  shows "stored (cs_store (run_consumer insert_batch refresh evs c)) @
      cs_batch (run_consumer insert_batch refresh evs c) =
    stored (cs_store c) @ cs_batch c @ received evs"
  using assms(2)
proof (induction evs arbitrary: c)
  case (Cons ev evs)
  note fl = flush_stores [OF never]
  show ?case
  proof (cases ev)
    case (Received w)
    let ?c1 = "c\<lparr>cs_batch := cs_batch c @ [w]\<rparr>"
    have st: "list_all storable (cs_batch ?c1)" using Cons.prems Received by simp
    show ?thesis
    proof (cases "length (cs_batch ?c1) \<ge> ch_batch_size")
      case True
      with Received Cons.IH [of "flush_ch insert_batch ?c1"] fl [OF st] Cons.prems show ?thesis
        by (simp add: consumer_step_def rollup_step_def)
    next
      case False
      with Received Cons.IH [of ?c1] Cons.prems show ?thesis
        by (simp add: consumer_step_def rollup_step_def)
    qed
  next
    case Rollup_Tick
    with Cons.IH [of "c\<lparr>cs_store := snd (refresh (cs_store c))\<rparr>"] Cons.prems show ?thesis
      by (simp add: consumer_step_def rollup_step_def refresh_keeps_stored)
  next
    case Flush_Tick
    with Cons.IH [of "flush_ch insert_batch c"] fl [of c] Cons.prems show ?thesis
      by (simp add: consumer_step_def rollup_step_def)
  qed (use fl [of c] Cons.prems in \<open>simp_all add: consumer_step_def rollup_step_def\<close>)
qed simp

end

section \<open>What a request asks for\<close>

text \<open>The webhook of a request that passes the handler's checks.\<close>

definition request_webhook :: "(string \<Rightarrow> goerror + webhook_payload) \<Rightarrow> http_request \<Rightarrow> delivery_webhook option" where
  "request_webhook unmarshal r =
     (if rq_method r \<noteq> ''POST'' then None
      else
        (case rq_body r of
           Inl e \<Rightarrow> None
         | Inr body \<Rightarrow>
             (case unmarshal (take body_limit body) of
                Inl e \<Rightarrow> None
              | Inr pl \<Rightarrow>
                  if pl_webhook_id pl = [] \<or> pl_channel pl = [] then None
                  else Some (payload_webhook (rq_now_ms r) pl))))"

lemma handle_webhook_none:
  "request_webhook unmarshal r = None \<Longrightarrow>
     (\<exists>code m. code \<in> {400, 405} \<and> handle_webhook unmarshal produce r p = (Http_Error code m, p))"
  by (auto simp: request_webhook_def handle_webhook_def split: if_splits sum.splits)

lemma handle_webhook_some:
  "request_webhook unmarshal r = Some w \<Longrightarrow>
     handle_webhook unmarshal produce r p =
       (case webhook_ingest produce w p of
          ((acc, Some e), p') \<Rightarrow> (Http_Error 502 (''produce error: '' @ error_text e), p')
        | ((acc, None), p') \<Rightarrow> (Http_Json (accepted_json acc), p'))"
  by (auto simp: request_webhook_def handle_webhook_def split: if_splits sum.splits)

lemma snd_handle_webhook:
  "snd (handle_webhook unmarshal produce r p) =
     (case request_webhook unmarshal r of None \<Rightarrow> p | Some w \<Rightarrow> snd (webhook_ingest produce w p))"
proof (cases "request_webhook unmarshal r")
  case None
  with handle_webhook_none [OF None, of produce p] show ?thesis by auto
next
  case (Some w)
  show ?thesis
    by (simp add: Some handle_webhook_some [OF Some] split: prod.split option.split)
qed

lemma handle_all_ingest:
  "handle_all unmarshal produce rs p = webhook_ingest_all produce (List.map_filter (request_webhook unmarshal) rs) p"
  by (induction rs arbitrary: p)
    (simp_all add: handle_all_def webhook_ingest_all_def snd_handle_webhook map_filter_simps split: option.split)

lemma handle_all_log:
  assumes "card (webhook_id ` set (List.map_filter (request_webhook unmarshal) rs)) \<le> 4000000"
  shows "wp_producer (handle_all unmarshal keep_all rs (new_webhook_pipeline new_webhook_dedup [])) =
    webhook_reference_dedup (List.map_filter (request_webhook unmarshal) rs)"
  using wh.stream_reference [of "new_webhook_pipeline new_webhook_dedup []"
      "List.map_filter (request_webhook unmarshal) rs" keep_all] assms
  by (simp add: handle_all_ingest webhook_ingest_all_def webhook_reference_first_occ fold_keep_all
      new_webhook_pipeline_def max_webhook_ids_def)

section \<open>Properties\<close>

text \<open>
  The replies of the webhook endpoint: a 400 or 405 leaves the edge alone, a 502 is an accepted
  webhook whose produce failed, and a JSON reply reports the edge's decision on a webhook that has an
  id, a channel and a timestamp.
\<close>

theorem webhook_replies:
  "case handle_webhook unmarshal produce r p of
     (Http_Error code m, p') \<Rightarrow>
       code \<in> {400, 405} \<and> p' = p \<or>
       code = 502 \<and> (\<exists>w e. webhook_ingest produce w p = ((True, Some e), p'))
   | (Http_Json t, p') \<Rightarrow>
       (\<exists>w acc. webhook_ingest produce w p = ((acc, None), p') \<and> t = accepted_json acc \<and>
          webhook_id w \<noteq> [] \<and> channel w \<noteq> [] \<and> (rq_now_ms r \<noteq> 0 \<longrightarrow> wh_timestamp_ms w \<noteq> 0))"
proof (cases "request_webhook unmarshal r")
  case None
  from handle_webhook_none [OF None, of produce p] show ?thesis by auto
next
  case (Some w)
  then have w: "webhook_id w \<noteq> []" "channel w \<noteq> []" "rq_now_ms r \<noteq> 0 \<longrightarrow> wh_timestamp_ms w \<noteq> 0"
    by (auto simp: request_webhook_def payload_webhook_def split: if_splits sum.splits)
  obtain acc e p' where i: "webhook_ingest produce w p = ((acc, e), p')" by (metis prod.collapse)
  show ?thesis
  proof (cases e)
    case None
    with i w show ?thesis by (auto simp: handle_webhook_some [OF Some])
  next
    case (Some x)
    with i have acc by (auto simp: webhook_ingest_def split: prod.splits bool.splits option.splits)
    with i Some show ?thesis by (auto simp: handle_webhook_some [OF \<open>request_webhook unmarshal r = Some w\<close>])
  qed
qed

text \<open>
  A 502 loses the webhook: the provider's retry, which the endpoint asks for with its 502, is
  answered with accepted:false whatever the producer has become, and never reaches the producer.
\<close>

theorem bad_gateway_loses_webhook:
  assumes "request_webhook unmarshal r = Some w" and "webhook_dedup_ok (wp_dedup p)"
    and "handle_webhook unmarshal produce r p = (Http_Error 502 m, p1)"
  shows "fst (handle_webhook unmarshal produce' r p1) = Http_Json (accepted_json False) \<and>
    wp_producer (snd (handle_webhook unmarshal produce' r p1)) = wp_producer p1"
proof -
  have "p1 = snd (webhook_ingest produce w p)"
    using assms(3) snd_handle_webhook [of unmarshal produce r p] by (simp add: assms(1))
  with wh.resend_refused [OF assms(2), where e = w and snd_fn = produce and snd_fn' = produce']
  obtain p2 where "webhook_ingest produce' w p1 = ((False, None), p2)" "wp_producer p2 = wp_producer p1"
    by (metis prod.collapse)
  then show ?thesis by (simp add: handle_webhook_some [OF assms(1)])
qed

definition demo_unmarshal :: "string \<Rightarrow> goerror + webhook_payload" where
  "demo_unmarshal t =
     (if t = [] then Inl (Errno ''unexpected end of JSON input'')
      else Inr \<lparr>pl_webhook_id = t, pl_message_id = ''m1'', pl_channel = ''sms'', pl_status = ''sent'',
        pl_provider = ''twilio'', pl_timestamp = 90000\<rparr>)"

definition demo_request :: "string \<Rightarrow> http_request" where
  "demo_request t = \<lparr>rq_method = ''POST'', rq_body = Inr t, rq_now_ms = 1\<rparr>"

lemma demo_request_webhook: "t \<noteq> [] \<Longrightarrow> length t \<le> body_limit \<Longrightarrow>
    request_webhook demo_unmarshal (demo_request t) = Some (demo_hook t ''sent'' 90000)"
  by (simp add: request_webhook_def demo_request_def demo_unmarshal_def payload_webhook_def demo_hook_def)

theorem webhook_replies_witness:
  "\<exists>w acc. fst (handle_webhook demo_unmarshal keep_all (demo_request ''w1'') (new_webhook_pipeline new_webhook_dedup []))
      = Http_Json (accepted_json acc) \<and> webhook_id w \<noteq> [] \<and> wh_timestamp_ms w \<noteq> 0 \<and>
    fst (webhook_ingest keep_all w (new_webhook_pipeline new_webhook_dedup [])) = (acc, None)"
proof -
  let ?p = "new_webhook_pipeline new_webhook_dedup []"
  have w: "request_webhook demo_unmarshal (demo_request ''w1'') = Some (demo_hook ''w1'' ''sent'' 90000)"
    by (rule demo_request_webhook) (simp_all add: body_limit_def)
  obtain t p' where h: "handle_webhook demo_unmarshal keep_all (demo_request ''w1'') ?p = (Http_Json t, p')"
    by (simp add: handle_webhook_some [OF w] webhook_ingest_def webhook_admit_def new_webhook_pipeline_def
        new_webhook_dedup_def keep_all_def max_webhook_ids_def)
  have "\<exists>w acc. webhook_ingest keep_all w ?p = ((acc, None), p') \<and> t = accepted_json acc \<and>
      webhook_id w \<noteq> [] \<and> wh_timestamp_ms w \<noteq> 0"
    using webhook_replies [where unmarshal = demo_unmarshal and produce = keep_all and r = "demo_request ''w1''" and p = ?p]
    unfolding h by (auto simp: demo_request_def)
  then obtain w acc where "webhook_ingest keep_all w ?p = ((acc, None), p')" "t = accepted_json acc"
      "webhook_id w \<noteq> []" "wh_timestamp_ms w \<noteq> 0"
    by blast
  with h show ?thesis by (intro exI [of _ w] exI [of _ acc]) simp
qed

theorem bad_gateway_loses_webhook_witness:
  "fst (handle_webhook demo_unmarshal keep_all (demo_request ''w1'')
      (snd (handle_webhook demo_unmarshal (refuse_all (Errno ''down'')) (demo_request ''w1'')
        (new_webhook_pipeline new_webhook_dedup [])))) = Http_Json (accepted_json False)"
proof -
  let ?p = "new_webhook_pipeline new_webhook_dedup []"
  have w: "request_webhook demo_unmarshal (demo_request ''w1'') = Some (demo_hook ''w1'' ''sent'' 90000)"
    by (rule demo_request_webhook) (simp_all add: body_limit_def)
  have "webhook_dedup_ok (wp_dedup ?p)" by (simp add: new_webhook_pipeline_def)
  moreover have "handle_webhook demo_unmarshal (refuse_all (Errno ''down'')) (demo_request ''w1'') ?p =
      (Http_Error 502 ''produce error: down'',
       snd (handle_webhook demo_unmarshal (refuse_all (Errno ''down'')) (demo_request ''w1'') ?p))"
    by (simp add: handle_webhook_some [OF w] webhook_ingest_def webhook_admit_def new_webhook_pipeline_def
        new_webhook_dedup_def refuse_all_def max_webhook_ids_def)
  ultimately show ?thesis using bad_gateway_loses_webhook [OF w] by blast
qed

text \<open>
  The batch of the consumer never reaches 200 webhooks between two turns of its loop.
\<close>

theorem batch_bounded: "length (cs_batch (run_consumer ins ref evs (new_consumer s))) < 200"
proof -
  have "length (cs_batch c) < ch_batch_size \<Longrightarrow>
      length (cs_batch (run_consumer ins ref evs c)) < ch_batch_size" for c
  proof (induction evs arbitrary: c)
    case (Cons ev evs)
    with consumer_step_batch [of c ins ev] show ?case by (simp add: split_beta Let_def)
  qed simp
  from this [of "new_consumer s"] show ?thesis by (simp add: new_consumer_def ch_batch_size_def)
qed

text \<open>
  An insert that fails loses its batch: the batch was emptied before the insert and its error is
  only logged, so that later flushes, with the server back, insert nothing.
\<close>

theorem failed_insert_drops_batch:
  "run_consumer (insert_webhooks plain_env (ch_server db) db) (refresh_rollup plain_env (ch_server db) db)
     [Received w, Flush_Tick, Flush_Tick, Consume_Done] (new_consumer (T, [False])) =
   \<lparr>cs_batch = [], cs_store = (T, [])\<rparr>"
  by (simp add: consumer_step_def flush_ch_def new_consumer_def ch_batch_size_def rollup_step_def
      insert_webhooks_def ch_exec_def ch_raw_def ch_server_def plain_env_def Let_def)

text \<open>
  A closed channel ends the loop without a flush, unlike the end of the context: what the batch
  holds is not stored.
\<close>

theorem closed_channel_drops_batch:
  "run_consumer ins ref [Received w, Channel_Closed] (new_consumer s) = \<lparr>cs_batch = [w], cs_store = s\<rparr> \<and>
   run_consumer ins ref [Received w, Consume_Done] (new_consumer s) = \<lparr>cs_batch = [], cs_store = snd (ins [w] s)\<rparr>"
  by (simp add: consumer_step_def flush_ch_def new_consumer_def ch_batch_size_def rollup_step_def Let_def)

text \<open>
  End to end: requests go through the handler into a log, the consumer takes the log in any
  rhythm of flushes and rollup refreshes and ends with an empty batch, no insert fails. After one more
  refresh the summary serves, for each channel and status, the number of distinct webhooks offered, as
  the reference deduplication of the requests has them.
\<close>

theorem summary_counts_distinct_webhooks:
  fixes rs :: "http_request list" and unmarshal :: "string \<Rightarrow> goerror + webhook_payload"
  defines "ws \<equiv> List.map_filter (request_webhook unmarshal) rs"
  assumes server: "executes db srv tab view" and env: "decodes env view"
    and never: "\<forall>b s. list_all storable_webhook b \<longrightarrow> fst (insert_webhooks env srv db b s) = None"
    and ids: "card (webhook_id ` set ws) \<le> 4000000" and fits: "length ws < 2 ^ 63"
    and storable: "list_all storable_webhook ws"
    and log: "received evs = wp_producer (handle_all unmarshal keep_all rs (new_webhook_pipeline new_webhook_dedup []))"
    and run: "run_consumer (insert_webhooks env srv db) (refresh_rollup env srv db) evs (new_consumer s) =
      \<lparr>cs_batch = [], cs_store = s1\<rparr>"
    and empty: "tb_events (tab s) = []"
    and refreshed: "refresh_rollup env srv db s1 = (None, s2)"
    and served: "summary env srv db s2 = (Inr rows, s3)"
  shows "rows = map (\<lambda>t. (fst (fst t), snd (fst t), snd t)) (raw_totals (webhook_reference_dedup ws))"
proof -
  note ch = clickhouse.intro [OF server env]
  note abs = clickhouse.stored_def [OF ch] clickhouse.totals_def [OF ch]
  have "received evs = webhook_reference_dedup ws"
    using handle_all_log [of unmarshal rs] ids log by (simp flip: ws_def)
  moreover have "set (webhook_reference_dedup ws) \<subseteq> set ws"
    by (simp add: webhook_reference_first_occ set_first_occ_subset)
  ultimately have r: "received evs = webhook_reference_dedup ws" "list_all storable_webhook (received evs)"
    using storable by (auto simp: list_all_iff)
  have "length (webhook_reference_dedup ws) \<le> length ws"
    by (simp add: webhook_reference_first_occ length_first_occ)
      (metis card_image_le card_length le_trans finite_set)
  then have b: "\<forall>t \<in> set (raw_totals (webhook_reference_dedup ws)). - (2 ^ 63) \<le> snd t \<and> snd t < 2 ^ 63"
    using fits by (intro raw_totals_bounded) simp
  from webhook_store.run_consumer_stores [OF clickhouse.webhook_store [OF ch] never, of "new_consumer s" evs] r run
  have "tb_events (tab s1) = webhook_reference_dedup ws" by (simp add: abs new_consumer_def empty)
  with clickhouse.refresh_effect [OF ch refreshed]
  have t: "clickhouse.totals tab s2 = raw_totals (webhook_reference_dedup ws)" by (simp add: abs)
  from clickhouse.summary_effect [OF ch served] b show ?thesis by (simp add: t)
qed

text \<open>Three requests, the second a retry of the first: one batch, one refresh.\<close>

theorem summary_counts_distinct_webhooks_witness:
  "fst (summary plain_env (ch_reliable ''d'') ''d'' (snd (refresh_rollup plain_env (ch_reliable ''d'') ''d''
     (cs_store (run_consumer (insert_webhooks plain_env (ch_reliable ''d'') ''d'')
        (refresh_rollup plain_env (ch_reliable ''d'') ''d'')
        [Received (demo_hook ''w1'' ''sent'' 90000), Received (demo_hook ''w2'' ''sent'' 90000), Consume_Done]
        (new_consumer \<lparr>tb_events = [], tb_rollup = []\<rparr>)))))) = Inr [(''sms'', ''sent'', 2)]"
proof -
  let ?rs = "map demo_request [''w1'', ''w1'', ''w2'']"
  let ?hs = "[demo_hook ''w1'' ''sent'' 90000, demo_hook ''w1'' ''sent'' 90000, demo_hook ''w2'' ''sent'' 90000]"
  let ?us = "[demo_hook ''w1'' ''sent'' 90000, demo_hook ''w2'' ''sent'' 90000]"
  let ?s1 = "\<lparr>tb_events = ?us, tb_rollup = []\<rparr>"
  let ?s2 = "\<lparr>tb_events = ?us, tb_rollup = rollup_of ?us\<rparr>"
  let ?T = "\<lparr>tb_events = [], tb_rollup = []\<rparr>"
  have ws: "List.map_filter (request_webhook demo_unmarshal) ?rs = ?hs"
    by (simp add: map_filter_simps demo_request_webhook body_limit_def)
  have st: "list_all storable_webhook ?hs" "list_all storable_webhook ?us" by code_simp+
  have ref: "webhook_reference_dedup ?hs = ?us" by (simp add: webhook_reference_dedup_def demo_hook_def)
  have never: "\<forall>b s. list_all storable_webhook b \<longrightarrow> fst (insert_webhooks plain_env (ch_reliable ''d'') ''d'' b s) = None"
    by (simp add: rel_insert)
  have ids: "card (webhook_id ` set ?hs) \<le> 4000000" by (simp add: demo_hook_def card_insert_if)
  have log: "received [Received (demo_hook ''w1'' ''sent'' 90000), Received (demo_hook ''w2'' ''sent'' 90000), Consume_Done]
      = wp_producer (handle_all demo_unmarshal keep_all ?rs (new_webhook_pipeline new_webhook_dedup []))"
    using handle_all_log [of demo_unmarshal ?rs, unfolded ws, OF ids] ref by simp
  have run: "run_consumer (insert_webhooks plain_env (ch_reliable ''d'') ''d'') (refresh_rollup plain_env (ch_reliable ''d'') ''d'')
      [Received (demo_hook ''w1'' ''sent'' 90000), Received (demo_hook ''w2'' ''sent'' 90000), Consume_Done]
      (new_consumer ?T) = \<lparr>cs_batch = [], cs_store = ?s1\<rparr>"
    using st(2) by (simp add: consumer_step_def flush_ch_def new_consumer_def ch_batch_size_def rollup_step_def Let_def rel_insert)
  have ref2: "refresh_rollup plain_env (ch_reliable ''d'') ''d'' ?s1 = (None, ?s2)" by (simp add: rel_refresh)
  have totals: "raw_totals ?us = [((''sms'', ''sent''), 2)]" by code_simp
  have sum: "summary plain_env (ch_reliable ''d'') ''d'' ?s2 = (Inr [(''sms'', ''sent'', 2)], ?s2)"
    by (subst rel_summary) (simp_all add: rollup_totals_rollup_of totals)
  have "[(''sms'', ''sent'', 2::int)] = map (\<lambda>t. (fst (fst t), snd (fst t), snd t)) (raw_totals (webhook_reference_dedup ?hs))"
    by (rule summary_counts_distinct_webhooks [OF ch_reliable_executes plain_env_decodes never, where rs = ?rs
          and unmarshal = demo_unmarshal, unfolded ws, OF ids _ st(1) log [unfolded ws] run _ ref2 sum]) simp_all
  with run ref2 sum show ?thesis by simp
qed

end
