(* ===== verification/Delivery_Service.thy ===== *)
theory Delivery_Service
  imports Delivery_Gateway Kafka_Client "HOL-Library.Multiset"
begin

text \<open>
  cmd/deliverygateway as a running process: the HTTP handlers, the consumer goroutine and the rollup
  goroutine interleaved at their calls out. Admit is atomic under its mutex, Produce and each statement
  sent to ClickHouse are calls out; only the consumer touches the batch.
\<close>

section \<open>States and steps\<close>

datatype consumer_at =
    At_Select
  | At_Flush
  | At_Insert "delivery_webhook list"   \<comment> \<open>the batch that was swapped out\<close>

datatype rollup_at =
    Rollup_Waiting
  | Rollup_Insert   \<comment> \<open>between the TRUNCATE and the INSERT of RefreshRollup\<close>

record ('k, 's) service =
  sv_dedup :: webhook_dedup
  sv_producer :: 'k
  sv_producing :: "delivery_webhook multiset"   \<comment> \<open>in Ingest: admitted, Produce not returned\<close>
  sv_failed :: "delivery_webhook list"          \<comment> \<open>Produce failed: answered with 502\<close>
  sv_arrivals :: "delivery_webhook list"        \<comment> \<open>history: every webhook Ingest was called with\<close>
  sv_received :: "delivery_webhook multiset"    \<comment> \<open>history: what the consumer took from the channel\<close>
  sv_batch :: "delivery_webhook list"
  sv_consumer :: consumer_at
  sv_dropped :: "delivery_webhook list"         \<comment> \<open>history: batches whose insert failed\<close>
  sv_rollup :: rollup_at
  sv_store :: 's

definition start_service :: "'k \<Rightarrow> 's \<Rightarrow> ('k, 's) service" where
  "start_service k s =
     \<lparr>sv_dedup = new_webhook_dedup, sv_producer = k, sv_producing = {#}, sv_failed = [], sv_arrivals = [],
      sv_received = {#}, sv_batch = [], sv_consumer = At_Select, sv_dropped = [],
      sv_rollup = Rollup_Waiting, sv_store = s\<rparr>"

text \<open>
  What main does before it serves: a store without schema is fatal, a topic that exists is not. The
  readers start at the first offset of each partition, whatever was read before.
\<close>

definition gateway_startup ::
  "'b ch_env \<Rightarrow> ('s, 'b) server \<Rightarrow> string \<Rightarrow> cluster_view \<Rightarrow> string \<Rightarrow> string \<Rightarrow> int \<Rightarrow> 'k \<Rightarrow> 's \<Rightarrow>
   goerror + goerror option \<times> ('k, 's) service"
where
  "gateway_startup env srv db cv broker topic partitions k s =
     (case ensure_schema env srv db s of
        (Some e, s') \<Rightarrow> Inl (Wrapped ''clickhouse ensure schema'' e)
      | (None, s') \<Rightarrow> Inr (ensure_topic cv broker topic partitions, start_service k s'))"

text \<open>
  The steps. landed is what the topic holds; the consumer takes any of its webhooks that it has not
  taken in this life of the process, since the partitions are read concurrently. The store is the four
  operations of ClickHouseStore that the goroutines call.
\<close>

inductive sv_step ::
  "(delivery_webhook, 'k) sender \<Rightarrow> ('k \<Rightarrow> delivery_webhook list) \<Rightarrow>
   (delivery_webhook list \<Rightarrow> 's \<Rightarrow> goerror option \<times> 's) \<Rightarrow> ('s \<Rightarrow> goerror option \<times> 's) \<Rightarrow>
   ('s \<Rightarrow> goerror option \<times> 's) \<Rightarrow> ('s \<Rightarrow> (goerror + (string \<times> string \<times> int) list) \<times> 's) \<Rightarrow>
   ('k, 's) service \<Rightarrow> ('k, 's) service \<Rightarrow> bool"
  for produce landed ins trunc refill get
where
  refused: "webhook_admit (webhook_id w) (sv_dedup g) = (False, d) \<Longrightarrow>
    sv_step produce landed ins trunc refill get g
      (g\<lparr>sv_dedup := d, sv_arrivals := sv_arrivals g @ [w]\<rparr>)"
| arrived: "webhook_admit (webhook_id w) (sv_dedup g) = (True, d) \<Longrightarrow>
    sv_step produce landed ins trunc refill get g
      (g\<lparr>sv_dedup := d, sv_arrivals := sv_arrivals g @ [w],
         sv_producing := add_mset w (sv_producing g)\<rparr>)"
| produced: "w \<in># sv_producing g \<Longrightarrow> produce w (sv_producer g) = (None, k) \<Longrightarrow>
    sv_step produce landed ins trunc refill get g
      (g\<lparr>sv_producing := sv_producing g - {#w#}, sv_producer := k\<rparr>)"
| failed: "w \<in># sv_producing g \<Longrightarrow> produce w (sv_producer g) = (Some e, k) \<Longrightarrow>
    sv_step produce landed ins trunc refill get g
      (g\<lparr>sv_producing := sv_producing g - {#w#}, sv_producer := k, sv_failed := sv_failed g @ [w]\<rparr>)"
| received: "sv_consumer g = At_Select \<Longrightarrow> w \<in># mset (landed (sv_producer g)) - sv_received g \<Longrightarrow>
    sv_step produce landed ins trunc refill get g
      (g\<lparr>sv_received := add_mset w (sv_received g), sv_batch := sv_batch g @ [w],
         sv_consumer := (if length (sv_batch g @ [w]) \<ge> ch_batch_size then At_Flush else At_Select)\<rparr>)"
| ticked: "sv_consumer g = At_Select \<Longrightarrow>
    sv_step produce landed ins trunc refill get g (g\<lparr>sv_consumer := At_Flush\<rparr>)"
| nothing: "sv_consumer g = At_Flush \<Longrightarrow> sv_batch g = [] \<Longrightarrow>
    sv_step produce landed ins trunc refill get g (g\<lparr>sv_consumer := At_Select\<rparr>)"
| swapped: "sv_consumer g = At_Flush \<Longrightarrow> sv_batch g \<noteq> [] \<Longrightarrow>
    sv_step produce landed ins trunc refill get g (g\<lparr>sv_batch := [], sv_consumer := At_Insert (sv_batch g)\<rparr>)"
| inserted: "sv_consumer g = At_Insert b \<Longrightarrow> ins b (sv_store g) = (None, s) \<Longrightarrow>
    sv_step produce landed ins trunc refill get g (g\<lparr>sv_consumer := At_Select, sv_store := s\<rparr>)"
| insert_failed: "sv_consumer g = At_Insert b \<Longrightarrow> ins b (sv_store g) = (Some e, s) \<Longrightarrow>
    sv_step produce landed ins trunc refill get g
      (g\<lparr>sv_consumer := At_Select, sv_store := s, sv_dropped := sv_dropped g @ b\<rparr>)"
| truncated: "sv_rollup g = Rollup_Waiting \<Longrightarrow> trunc (sv_store g) = (None, s) \<Longrightarrow>
    sv_step produce landed ins trunc refill get g (g\<lparr>sv_rollup := Rollup_Insert, sv_store := s\<rparr>)"
| truncate_failed: "sv_rollup g = Rollup_Waiting \<Longrightarrow> trunc (sv_store g) = (Some e, s) \<Longrightarrow>
    sv_step produce landed ins trunc refill get g (g\<lparr>sv_store := s\<rparr>)"
| refilled: "sv_rollup g = Rollup_Insert \<Longrightarrow> refill (sv_store g) = (r, s) \<Longrightarrow>
    sv_step produce landed ins trunc refill get g (g\<lparr>sv_rollup := Rollup_Waiting, sv_store := s\<rparr>)"
| served: "get (sv_store g) = (q, s) \<Longrightarrow>
    sv_step produce landed ins trunc refill get g (g\<lparr>sv_store := s\<rparr>)"

inductive sv_reach ::
  "(delivery_webhook, 'k) sender \<Rightarrow> ('k \<Rightarrow> delivery_webhook list) \<Rightarrow>
   (delivery_webhook list \<Rightarrow> 's \<Rightarrow> goerror option \<times> 's) \<Rightarrow> ('s \<Rightarrow> goerror option \<times> 's) \<Rightarrow>
   ('s \<Rightarrow> goerror option \<times> 's) \<Rightarrow> ('s \<Rightarrow> (goerror + (string \<times> string \<times> int) list) \<times> 's) \<Rightarrow>
   ('k, 's) service \<Rightarrow> ('k, 's) service \<Rightarrow> bool"
  for produce landed ins trunc refill get g0
where
  start: "sv_reach produce landed ins trunc refill get g0 g0"
| step: "sv_reach produce landed ins trunc refill get g0 g \<Longrightarrow>
    sv_step produce landed ins trunc refill get g g' \<Longrightarrow> sv_reach produce landed ins trunc refill get g0 g'"

text \<open>The service over ClickHouse.\<close>

abbreviation gateway_reach ::
  "(delivery_webhook, 'k) sender \<Rightarrow> ('k \<Rightarrow> delivery_webhook list) \<Rightarrow> 'b ch_env \<Rightarrow> ('s, 'b) server \<Rightarrow> string \<Rightarrow>
   ('k, 's) service \<Rightarrow> ('k, 's) service \<Rightarrow> bool"
where
  "gateway_reach produce landed env srv db \<equiv>
     sv_reach produce landed (insert_webhooks env srv db) (ch_exec env srv (truncate_rollup_sql db))
       (ch_exec env srv (refresh_sql db)) (summary env srv db)"

section \<open>Invariants\<close>

text \<open>A producer is truthful about success; after an error the webhook may have landed all the same.\<close>

definition sender_ok :: "('e, 'k) sender \<Rightarrow> ('k \<Rightarrow> 'e list) \<Rightarrow> bool" where
  "sender_ok produce landed \<longleftrightarrow>
     (\<forall>w k. case produce w k of
        (None, k') \<Rightarrow> mset (landed k') = add_mset w (mset (landed k))
      | (Some e, k') \<Rightarrow> mset (landed k') = mset (landed k) \<or> mset (landed k') = add_mset w (mset (landed k)))"

lemma sender_okD:
  assumes "sender_ok produce landed" and "produce w k = (r, k')"
  shows "r = None \<Longrightarrow> mset (landed k') = add_mset w (mset (landed k))"
    and "mset (landed k') = mset (landed k) \<or> mset (landed k') = add_mset w (mset (landed k))"
  using assms by (force simp: sender_ok_def split: prod.splits option.splits)+

definition sv_admitted :: "('k, 's) service \<Rightarrow> delivery_webhook list" where
  "sv_admitted g = accepted webhook_admit webhook_id new_webhook_dedup (sv_arrivals g)"

definition sv_dedup_inv :: "('k, 's) service \<Rightarrow> bool" where
  "sv_dedup_inv g \<longleftrightarrow> sv_dedup g = cache_after webhook_admit webhook_id new_webhook_dedup (sv_arrivals g)"

text \<open>What was admitted is on the topic, on its way, or failed without landing.\<close>

definition topic_account :: "('k \<Rightarrow> delivery_webhook list) \<Rightarrow> 'k \<Rightarrow> ('k, 's) service \<Rightarrow> bool" where
  "topic_account landed k0 g \<longleftrightarrow>
     sv_received g \<subseteq># mset (landed (sv_producer g)) \<and>
     (\<exists>x. x \<subseteq># mset (sv_failed g) \<and>
       mset (landed k0) + mset (sv_admitted g) = mset (landed (sv_producer g)) + sv_producing g + x)"

fun inserting :: "consumer_at \<Rightarrow> delivery_webhook list" where
  "inserting (At_Insert b) = b"
| "inserting _ = []"

text \<open>What the consumer took is stored, in an insert, in the batch, or dropped.\<close>

definition store_account :: "('s \<Rightarrow> delivery_webhook list) \<Rightarrow> 's \<Rightarrow> ('k, 's) service \<Rightarrow> bool" where
  "store_account stored s0 g \<longleftrightarrow>
     (\<exists>x. x \<subseteq># mset (sv_dropped g) \<and>
       mset (stored s0) + sv_received g =
         mset (stored (sv_store g)) + x + mset (inserting (sv_consumer g)) + mset (sv_batch g))"

text \<open>The totals are those of the webhooks stored first, or none while a refresh is under way.\<close>

definition totals_of_prefix ::
  "('s \<Rightarrow> delivery_webhook list) \<Rightarrow> ('s \<Rightarrow> ((string \<times> string) \<times> int) list) \<Rightarrow> ('k, 's) service \<Rightarrow> bool"
where
  "totals_of_prefix stored totals g \<longleftrightarrow>
     (sv_rollup g = Rollup_Insert \<longrightarrow> totals (sv_store g) = []) \<and>
     (\<exists>n \<le> length (stored (sv_store g)). totals (sv_store g) = raw_totals (take n (stored (sv_store g))))"

fun room_at :: "nat \<Rightarrow> consumer_at \<Rightarrow> bool" where
  "room_at n At_Select \<longleftrightarrow> n < ch_batch_size"
| "room_at n At_Flush \<longleftrightarrow> n \<le> ch_batch_size"
| "room_at n (At_Insert b) \<longleftrightarrow> n = 0 \<and> length b \<le> ch_batch_size"

definition batch_room :: "('k, 's) service \<Rightarrow> bool" where
  "batch_room g \<longleftrightarrow> room_at (length (sv_batch g)) (sv_consumer g)"

text \<open>Nothing is under way and everything on the topic was taken.\<close>

definition sv_at_rest :: "('k \<Rightarrow> delivery_webhook list) \<Rightarrow> ('k, 's) service \<Rightarrow> bool" where
  "sv_at_rest landed g \<longleftrightarrow> sv_producing g = {#} \<and> sv_failed g = [] \<and> sv_received g = mset (landed (sv_producer g)) \<and>
     sv_batch g = [] \<and> inserting (sv_consumer g) = [] \<and> sv_dropped g = []"

inductive_cases sv_stepE: "sv_step produce landed ins trunc refill get g g'"

lemma sv_arrivals_step:
  "sv_step produce landed ins trunc refill get g g' \<Longrightarrow> set (sv_arrivals g) \<subseteq> set (sv_arrivals g')"
  by (induction rule: sv_step.induct) auto

lemma sv_dedup_inv_step:
  "sv_step produce landed ins trunc refill get g g' \<Longrightarrow> sv_dedup_inv g \<Longrightarrow> sv_dedup_inv g'"
  by (induction rule: sv_step.induct) (auto simp: sv_dedup_inv_def cache_after_append)

lemma batch_room_step:
  "sv_step produce landed ins trunc refill get g g' \<Longrightarrow> batch_room g \<Longrightarrow> batch_room g'"
  by (induction rule: sv_step.induct) (auto simp: batch_room_def ch_batch_size_def)

lemma topic_account_step:
  assumes "sender_ok produce landed"
  shows "sv_step produce landed ins trunc refill get g g' \<Longrightarrow> sv_dedup_inv g \<Longrightarrow>
    topic_account landed k0 g \<Longrightarrow> topic_account landed k0 g'"
proof (induction rule: sv_step.induct)
  case (refused w g d)
  then show ?case
    by (simp add: topic_account_def sv_admitted_def accepted_append sv_dedup_inv_def Let_def)
next
  case (arrived w g d)
  then show ?case
    by (simp add: topic_account_def sv_admitted_def accepted_append sv_dedup_inv_def Let_def)
next
  case (produced w g k)
  from sender_okD(1) [OF assms produced(2)] have "mset (landed k) = add_mset w (mset (landed (sv_producer g)))"
    by simp
  moreover obtain P where "sv_producing g = add_mset w P" using produced(1) by (metis insert_DiffM)
  ultimately show ?case
    using produced.prems(2) by (auto simp: topic_account_def sv_admitted_def intro: subset_mset.order_trans)
next
  case (failed w g e k)
  obtain P where P: "sv_producing g = add_mset w P" using failed(1) by (metis insert_DiffM)
  obtain x where x: "x \<subseteq># mset (sv_failed g)"
    "mset (landed k0) + mset (sv_admitted g) = mset (landed (sv_producer g)) + sv_producing g + x"
    using failed.prems(2) by (auto simp: topic_account_def)
  have r: "sv_received g \<subseteq># mset (landed (sv_producer g))"
    using failed.prems(2) by (simp add: topic_account_def)
  from sender_okD(2) [OF assms failed(2)] show ?case
  proof
    assume "mset (landed k) = mset (landed (sv_producer g))"
    then show ?case
      using P x r by (auto simp: topic_account_def sv_admitted_def intro!: exI [of _ "add_mset w x"])
  next
    assume l: "mset (landed k) = add_mset w (mset (landed (sv_producer g)))"
    then have "sv_received g \<subseteq># mset (landed k)"
      using r by (auto intro: subset_mset.order_trans)
    moreover have "x \<subseteq># mset (sv_failed g @ [w])"
      using x(1) by (auto intro: subset_mset.order_trans)
    ultimately show ?case
      using P x(2) l by (auto simp: topic_account_def sv_admitted_def)
  qed
next
  case (received g w)
  from received(2) have "add_mset w (sv_received g) \<subseteq># mset (landed (sv_producer g))"
    using received.prems(2) by (simp add: topic_account_def insert_subset_eq_iff in_diff_count subseteq_mset_def)
  with received.prems(2) show ?case by (simp add: topic_account_def sv_admitted_def)
qed (simp_all add: topic_account_def sv_admitted_def)

lemma sv_reach_arrivals:
  "sv_reach produce landed ins trunc refill get g0 g \<Longrightarrow> set (sv_arrivals g0) \<subseteq> set (sv_arrivals g)"
  by (induction rule: sv_reach.induct) (auto dest: sv_arrivals_step)

lemma sv_reach_topic:
  assumes "sv_reach produce landed ins trunc refill get (start_service k s) g" and "sender_ok produce landed"
  shows "sv_dedup_inv g \<and> topic_account landed k g"
  using assms(1)
proof (induction rule: sv_reach.induct)
  case start
  show ?case
    by (simp add: start_service_def sv_dedup_inv_def topic_account_def sv_admitted_def)
qed (auto intro: sv_dedup_inv_step topic_account_step [OF assms(2)])

lemma sv_reach_room:
  "sv_reach produce landed ins trunc refill get (start_service k s) g \<Longrightarrow> batch_room g"
proof (induction rule: sv_reach.induct)
  case start
  show ?case by (simp add: batch_room_def start_service_def ch_batch_size_def)
qed (rule batch_room_step)

text \<open>Everything in the account comes from the topic's first messages or from the arrivals.\<close>

lemma received_known:
  assumes "topic_account landed k g"
  shows "set_mset (sv_received g) \<subseteq> set (landed k) \<union> set (sv_arrivals g)"
proof -
  from assms obtain x where "sv_received g \<subseteq># mset (landed (sv_producer g))"
    "mset (landed k) + mset (sv_admitted g) = mset (landed (sv_producer g)) + sv_producing g + x"
    by (auto simp: topic_account_def)
  then have "set_mset (sv_received g) \<subseteq> set_mset (mset (landed k) + mset (sv_admitted g))"
    by (auto dest: mset_subset_eqD)
  then show ?thesis using wh.accepted_subset [where key = webhook_id and s = new_webhook_dedup and es = "sv_arrivals g"]
    by (fastforce simp: sv_admitted_def)
qed

lemma raw_totals_mset:
  assumes "mset ws = mset ws'"
  shows "raw_totals ws = raw_totals ws'"
proof -
  have c: "count_list (map pair_of ws) k = count_list (map pair_of ws') k" for k
    unfolding count_mset [symmetric] using assms by simp
  have "set ws = set ws'" using assms by (rule mset_eq_setD)
  then have "sort (remdups (map pair_of ws)) = sort (remdups (map pair_of ws'))"
    by (intro sorted_distinct_set_unique) simp_all
  with c show ?thesis by (simp add: raw_totals_def)
qed

lemma raw_totals_row:
  "(k, n) \<in> set (raw_totals ws) \<longleftrightarrow> n = int (count_list (map pair_of ws) k) \<and> k \<in> pair_of ` set ws"
  by (auto simp: raw_totals_def)

lemma count_list_positive: "k \<in> pair_of ` set ws \<Longrightarrow> 1 \<le> int (count_list (map pair_of ws) k)"
  using count_list_0_iff [of "map pair_of ws" k] by fastforce

lemma count_list_pairs_mono:
  assumes "mset ws \<subseteq># mset ws'"
  shows "count_list (map pair_of ws) k \<le> count_list (map pair_of ws') k"
proof -
  have "mset (map pair_of ws) \<subseteq># mset (map pair_of ws')"
    using image_mset_subseteq_mono [OF assms, of pair_of] by simp
  then show ?thesis by (metis count_mset mset_subset_eq_count)
qed

text \<open>What the consumer holds is what it took.\<close>

lemma in_hand_step:
  "sv_step produce landed ins trunc refill get g g' \<Longrightarrow>
   set (inserting (sv_consumer g)) \<union> set (sv_batch g) \<subseteq> set_mset (sv_received g) \<Longrightarrow>
   set (inserting (sv_consumer g')) \<union> set (sv_batch g') \<subseteq> set_mset (sv_received g')"
  by (induction rule: sv_step.induct) auto

lemma sv_reach_in_hand:
  "sv_reach produce landed ins trunc refill get (start_service k s) g \<Longrightarrow>
   set (inserting (sv_consumer g)) \<union> set (sv_batch g) \<subseteq> set_mset (sv_received g)"
proof (induction rule: sv_reach.induct)
  case start
  show ?case by (simp add: start_service_def)
qed (rule in_hand_step)

lemma count_le_reference:
  assumes "card (webhook_id ` set ws) \<le> 4000000"
  shows "accepted webhook_admit webhook_id new_webhook_dedup ws = webhook_reference_dedup ws"
  using wh.accepted_start [of webhook_id ws] assms
  by (simp add: webhook_reference_first_occ max_webhook_ids_def)

context rollup_store
begin

lemma store_account_step:
  "sv_step produce landed insert_batch truncate refill get_summary g g' \<Longrightarrow>
   list_all storable (inserting (sv_consumer g)) \<Longrightarrow> totals_of_prefix stored totals g \<Longrightarrow>
   store_account stored s0 g \<Longrightarrow> store_account stored s0 g'"
proof (induction rule: sv_step.induct)
  case (inserted g b s)
  with insert_ok [of b "sv_store g" s] show ?case by (auto simp: store_account_def)
next
  case (insert_failed g b e s)
  then obtain x where x: "x \<subseteq># mset (sv_dropped g)"
    "mset (stored s0) + sv_received g = mset (stored (sv_store g)) + x + mset b + mset (sv_batch g)"
    by (auto simp: store_account_def)
  from insert_any [OF _ insert_failed(2)] insert_failed.prems(1) insert_failed(1)
  consider "stored s = stored (sv_store g)" | "stored s = stored (sv_store g) @ b" by auto
  then show ?case
  proof cases
    case 1
    with x show ?thesis by (auto simp: store_account_def intro!: exI [of _ "x + mset b"] subset_mset.add_mono)
  next
    case 2
    with x show ?thesis
      by (auto simp: store_account_def intro!: exI [of _ x] intro: subset_mset.order_trans)
  qed
next
  case (refilled g r s)
  with refill_any [of "sv_store g" r s] show ?case by (simp add: store_account_def totals_of_prefix_def)
qed (auto simp: store_account_def dest: truncate_ok truncate_any summary_any)

lemma prefix_grows:
  "n \<le> length xs \<Longrightarrow> \<exists>m \<le> length xs + length ys. raw_totals (take n xs) = raw_totals (take m (xs @ ys))"
  by (intro exI [of _ n]) simp

lemma totals_of_none [simp]: "raw_totals [] = []"
  by (simp add: raw_totals_def)

lemma totals_of_prefix_step:
  "sv_step produce landed insert_batch truncate refill get_summary g g' \<Longrightarrow>
   list_all storable (inserting (sv_consumer g)) \<Longrightarrow> totals_of_prefix stored totals g \<Longrightarrow>
   totals_of_prefix stored totals g'"
proof (induction rule: sv_step.induct)
  case (inserted g b s)
  with insert_ok [of b "sv_store g" s] show ?case
    by (auto simp: totals_of_prefix_def simp del: take_append intro: prefix_grows)
next
  case (insert_failed g b e s)
  with insert_any [of b "sv_store g" "Some e" s] show ?case
    by (auto simp: totals_of_prefix_def simp del: take_append intro: prefix_grows)
next
  case (truncated g s)
  with truncate_ok [of "sv_store g" s] show ?case by (auto simp: totals_of_prefix_def intro: exI [of _ 0])
next
  case (truncate_failed g e s)
  with truncate_any [of "sv_store g" "Some e" s] show ?case
    by (auto simp: totals_of_prefix_def intro: exI [of _ 0])
next
  case (refilled g r s)
  with refill_any [of "sv_store g" r s] show ?case
    by (auto simp: totals_of_prefix_def intro: exI [of _ 0] exI [of _ "length (stored (sv_store g))"])
next
  case (served g q s)
  with summary_any [of "sv_store g" q s] show ?case by (simp add: totals_of_prefix_def)
qed (simp_all add: totals_of_prefix_def)

lemma sv_reach_store:
  assumes "sv_reach produce landed insert_batch truncate refill get_summary (start_service k s) g"
    and "sender_ok produce landed"
    and "\<exists>n \<le> length (stored s). totals s = raw_totals (take n (stored s))"
  shows "list_all storable (landed k) \<Longrightarrow> list_all storable (sv_arrivals g) \<Longrightarrow>
    store_account stored s g \<and> totals_of_prefix stored totals g"
  using assms(1)
proof (induction rule: sv_reach.induct)
  case start
  then show ?case
    using assms(3) by (simp add: store_account_def totals_of_prefix_def start_service_def)
next
  case (step g g')
  then have a: "list_all storable (sv_arrivals g)"
    using sv_arrivals_step [OF step.hyps(2)] by (auto simp: list_all_iff)
  have "set (inserting (sv_consumer g)) \<subseteq> set (landed k) \<union> set (sv_arrivals g)"
    using sv_reach_in_hand [OF step.hyps(1)] received_known [of landed k g] sv_reach_topic [OF step.hyps(1) assms(2)]
    by blast
  with a step.prems(1) have "list_all storable (inserting (sv_consumer g))" by (auto simp: list_all_iff)
  with step.IH [OF step.prems(1) a] step.hyps(2) show ?case
    by (blast intro: store_account_step totals_of_prefix_step)
qed

text \<open>At rest the store holds, beside what it held before, the whole topic once.\<close>

lemma at_rest_stored:
  assumes "store_account stored s g" and "sv_at_rest landed g"
  shows "mset (stored (sv_store g)) = mset (stored s) + mset (landed (sv_producer g))"
  using assms by (auto simp: store_account_def sv_at_rest_def)

lemma at_rest_served:
  assumes "refresh s = (None, s1)" and "get_summary s1 = (Inr rows, s2)" and "mset (stored s) = mset ws"
    and "length ws < 2 ^ 63"
  shows "rows = map (\<lambda>t. (fst (fst t), snd (fst t), snd t)) (raw_totals ws)"
proof -
  have t: "totals s1 = raw_totals ws"
    using refresh_ok [OF assms(1)] raw_totals_mset [OF assms(3)] by simp
  with raw_totals_bounded [OF assms(4)] summary_ok [OF _ assms(2)] show ?thesis by simp
qed

text \<open>No summary of a life counts more than there is on the topic and was stored before.\<close>

lemma served_bound:
  assumes "store_account stored s g" and "totals_of_prefix stored totals g" and "topic_account landed k g"
    and "get_summary (sv_store g) = (Inr rows, s')" and "(ch, st, n) \<in> set rows"
    and "mset (stored s) + mset (landed k) + mset (sv_admitted g) \<subseteq># mset ws" and "length ws < 2 ^ 63"
  shows "1 \<le> n \<and> n \<le> int (count_list (map pair_of ws) (ch, st))"
proof -
  let ?st = "stored (sv_store g)"
  obtain i where i: "totals (sv_store g) = raw_totals (take i ?st)"
    using assms(2) by (auto simp: totals_of_prefix_def)
  have "mset ?st \<subseteq># mset (stored s) + sv_received g"
    using assms(1) by (auto simp: store_account_def)
  moreover have "sv_received g \<subseteq># mset (landed k) + mset (sv_admitted g)"
    using assms(3) by (auto simp: topic_account_def intro: subset_mset.order_trans)
  ultimately have "mset ?st \<subseteq># mset ws"
    using assms(6) by (metis add.assoc subset_mset.add_left_mono subset_mset.order_trans)
  moreover have "mset (take i ?st) \<subseteq># mset ?st"
    by (metis append_take_drop_id mset_append mset_subset_eq_add_left)
  ultimately have le: "mset (take i ?st) \<subseteq># mset ws" by (rule subset_mset.order_trans [rotated])
  have "length (take i ?st) < 2 ^ 63" using size_mset_mono [OF le] assms(7) by (simp del: length_take)
  from raw_totals_bounded [OF this] summary_ok [OF _ assms(4)] i
  have "rows = map (\<lambda>t. (fst (fst t), snd (fst t), snd t)) (raw_totals (take i ?st))" by simp
  with assms(5) have "((ch, st), n) \<in> set (raw_totals (take i ?st))" by auto
  then have "n = int (count_list (map pair_of (take i ?st)) (ch, st))" "(ch, st) \<in> pair_of ` set (take i ?st)"
    by (simp_all add: raw_totals_row)
  with count_list_pairs_mono [OF le, of "(ch, st)"] count_list_positive show ?thesis by simp
qed

end

section \<open>The sequential operations are paths\<close>

text \<open>A request that passes the checks of the handler, alone: its steps lead where handle_webhook does.\<close>

lemma handler_steps:
  assumes "request_webhook unmarshal r = Some w"
    and "handle_webhook unmarshal produce r \<lparr>wp_dedup = sv_dedup g, wp_producer = sv_producer g\<rparr> = (reply, p)"
  shows "\<exists>g'. sv_reach produce landed ins trunc refill get g g' \<and> sv_dedup g' = wp_dedup p \<and>
    sv_producer g' = wp_producer p \<and> sv_arrivals g' = sv_arrivals g @ [w] \<and> sv_store g' = sv_store g"
proof -
  obtain b d where d: "webhook_admit (webhook_id w) (sv_dedup g) = (b, d)" by (metis prod.collapse)
  obtain r k where k: "produce w (sv_producer g) = (r, k)" by (metis prod.collapse)
  show ?thesis
  proof (cases b)
    case False
    with assms(2) d have p: "p = \<lparr>wp_dedup = d, wp_producer = sv_producer g\<rparr>"
      by (simp add: handle_webhook_some [OF assms(1)] webhook_ingest_def)
    from sv_reach.step [OF sv_reach.start sv_step.refused [of w g d]] d False
    show ?thesis by (fastforce simp: p)
  next
    case True
    let ?g1 = "g\<lparr>sv_dedup := d, sv_arrivals := sv_arrivals g @ [w], sv_producing := add_mset w (sv_producing g)\<rparr>"
    have p: "p = \<lparr>wp_dedup = d, wp_producer = k\<rparr>"
      using assms(2) d k True by (cases r) (simp_all add: handle_webhook_some [OF assms(1)] webhook_ingest_def)
    have r1: "sv_reach produce landed ins trunc refill get g ?g1"
      by (rule sv_reach.step [OF sv_reach.start sv_step.arrived]) (simp add: d True)
    show ?thesis
    proof (cases r)
      case None
      from sv_reach.step [OF r1 sv_step.produced [of w ?g1 produce k]] k None show ?thesis by (fastforce simp: p)
    next
      case (Some e)
      from sv_reach.step [OF r1 sv_step.failed [of w ?g1 produce e k]] k Some show ?thesis by (fastforce simp: p)
    qed
  qed
qed

text \<open>A flush, alone: its steps do what flush_ch does.\<close>

lemma flush_steps:
  assumes "sv_consumer g = At_Flush" and "c = flush_ch ins \<lparr>cs_batch = sv_batch g, cs_store = sv_store g\<rparr>"
  shows "\<exists>g'. sv_reach produce landed ins trunc refill get g g' \<and> sv_consumer g' = At_Select \<and>
    sv_batch g' = cs_batch c \<and> sv_store g' = cs_store c"
proof (cases "sv_batch g = []")
  case True
  with assms sv_reach.step [OF sv_reach.start sv_step.nothing [of g]] show ?thesis
    by (fastforce simp: flush_ch_def)
next
  case False
  let ?g1 = "g\<lparr>sv_batch := [], sv_consumer := At_Insert (sv_batch g)\<rparr>"
  have r1: "sv_reach produce landed ins trunc refill get g ?g1"
    using sv_reach.step [OF sv_reach.start sv_step.swapped [of g]] assms(1) False by simp
  obtain r s where i: "ins (sv_batch g) (sv_store g) = (r, s)" by (metis prod.collapse)
  show ?thesis
  proof (cases r)
    case None
    from sv_reach.step [OF r1 sv_step.inserted [of ?g1 "sv_batch g" ins s]] i None assms(2) False
    show ?thesis by (fastforce simp: flush_ch_def)
  next
    case (Some e)
    from sv_reach.step [OF r1 sv_step.insert_failed [of ?g1 "sv_batch g" ins e s]] i Some assms(2) False
    show ?thesis by (fastforce simp: flush_ch_def)
  qed
qed

text \<open>A refresh, alone: its steps do what RefreshRollup does.\<close>

lemma refresh_path:
  assumes "sv_rollup g = Rollup_Waiting" and "refresh_rollup env srv db (sv_store g) = (r, s)"
  shows "\<exists>g'. gateway_reach produce landed env srv db g g' \<and> sv_rollup g' = Rollup_Waiting \<and> sv_store g' = s"
proof -
  obtain r1 s1 where t: "ch_exec env srv (truncate_rollup_sql db) (sv_store g) = (r1, s1)"
    by (metis prod.collapse)
  show ?thesis
  proof (cases r1)
    case (Some e)
    with assms(2) t have "s = s1" by (simp add: refresh_rollup_def)
    with sv_reach.step [OF sv_reach.start sv_step.truncate_failed [OF assms(1)]] t Some assms(1)
    show ?thesis by fastforce
  next
    case None
    with assms(2) t have f: "ch_exec env srv (refresh_sql db) s1 = (r, s)" by (simp add: refresh_rollup_def)
    let ?g1 = "g\<lparr>sv_rollup := Rollup_Insert, sv_store := s1\<rparr>"
    have r1: "gateway_reach produce landed env srv db g ?g1"
      by (rule sv_reach.step [OF sv_reach.start sv_step.truncated]) (simp_all add: assms(1) t None)
    from sv_reach.step [OF r1 sv_step.refilled [of ?g1 _ r s]] f show ?thesis by fastforce
  qed
qed

section \<open>Properties\<close>

abbreviation summary_rows :: "((string \<times> string) \<times> int) list \<Rightarrow> (string \<times> string \<times> int) list" where
  "summary_rows ts \<equiv> map (\<lambda>t. (fst (fst t), snd (fst t), snd t)) ts"

lemma raw_totals_twice:
  assumes "mset xs = mset ws + mset ws"
  shows "raw_totals xs = map (\<lambda>t. (fst t, 2 * snd t)) (raw_totals ws)"
proof -
  have "raw_totals xs = raw_totals (ws @ ws)" using assms by (intro raw_totals_mset) simp
  moreover have "sort (remdups (map pair_of (ws @ ws))) = sort (remdups (map pair_of ws))"
    by (rule sorted_distinct_set_unique) simp_all
  ultimately show ?thesis by (simp add: raw_totals_def)
qed

text \<open>A life of the process over ClickHouse, from its start-up.\<close>

lemma startup_life:
  assumes "executes db srv tab view" and "decodes env view"
    and "gateway_startup env srv db cv broker topic partitions k s = Inr (note, g0)"
    and "\<exists>n \<le> length (tb_events (tab s)). rollup_totals (tb_rollup (tab s)) = raw_totals (take n (tb_events (tab s)))"
    and "sender_ok produce landed" and "gateway_reach produce landed env srv db g0 g"
    and "list_all storable_webhook (landed k)" and "list_all storable_webhook (sv_arrivals g)"
  shows "\<exists>s0. store_account (\<lambda>s. tb_events (tab s)) s0 g \<and>
      totals_of_prefix (\<lambda>s. tb_events (tab s)) (\<lambda>s. rollup_totals (tb_rollup (tab s))) g \<and>
      topic_account landed k g \<and> tb_events (tab s0) = tb_events (tab s)"
proof -
  note ch = clickhouse.intro [OF assms(1,2)]
  note abs = clickhouse.stored_def [OF ch] clickhouse.totals_def [OF ch]
  note store = clickhouse.rollup_store [OF ch]
  obtain s0 where e: "ensure_schema env srv db s = (None, s0)" and g0: "g0 = start_service k s0"
    using assms(3) by (auto simp: gateway_startup_def split: prod.splits option.splits)
  from clickhouse.schema_same [OF ch e]
  have same: "tb_events (tab s0) = tb_events (tab s)" "rollup_totals (tb_rollup (tab s0)) = rollup_totals (tb_rollup (tab s))"
    by (simp_all add: abs)
  have st: "clickhouse.stored tab = (\<lambda>s. tb_events (tab s))" "clickhouse.totals tab = (\<lambda>s. rollup_totals (tb_rollup (tab s)))"
    by (simp_all add: fun_eq_iff abs)
  note reach = assms(6) [unfolded g0]
  have "\<exists>n \<le> length (clickhouse.stored tab s0). clickhouse.totals tab s0 = raw_totals (take n (clickhouse.stored tab s0))"
    using assms(4) by (simp add: st same)
  from rollup_store.sv_reach_store [OF store reach assms(5) this assms(7,8)]
    sv_reach_topic [OF reach assms(5)] same(1) show ?thesis
    unfolding st by blast
qed

text \<open>What is stored when a first life rests: the reference deduplication of what was offered.\<close>

lemma rest_holds_reference:
  assumes "store_account (\<lambda>s. tb_events (tab s)) s0 g" and "topic_account landed k g" and "sv_at_rest landed g"
    and "landed k = []" and "tb_events (tab s0) = []" and "card (webhook_id ` set (sv_arrivals g)) \<le> 4000000"
  shows "mset (tb_events (tab (sv_store g))) = mset (webhook_reference_dedup (sv_arrivals g))"
    and "mset (landed (sv_producer g)) = mset (webhook_reference_dedup (sv_arrivals g))"
proof -
  show l: "mset (landed (sv_producer g)) = mset (webhook_reference_dedup (sv_arrivals g))"
    using assms(2,3,4) count_le_reference [OF assms(6)]
    by (auto simp: topic_account_def sv_at_rest_def sv_admitted_def)
  show "mset (tb_events (tab (sv_store g))) = mset (webhook_reference_dedup (sv_arrivals g))"
    using assms(1,3,5) l by (auto simp: store_account_def sv_at_rest_def)
qed

lemma length_webhook_reference: "length (webhook_reference_dedup ws) \<le> length ws"
  by (simp add: webhook_reference_first_occ length_first_occ) (metis card_image_le card_length le_trans finite_set)

section \<open>Two lives with one webhook\<close>

abbreviation demo_w :: delivery_webhook where
  "demo_w \<equiv> demo_hook ''w1'' ''sent'' 90000"

abbreviation demo_reach ::
  "(delivery_webhook list, tables) service \<Rightarrow> (delivery_webhook list, tables) service \<Rightarrow> bool"
where
  "demo_reach \<equiv> gateway_reach keep_all (\<lambda>k. k) plain_env (ch_reliable ''d'') ''d''"

lemma keep_all_sender: "sender_ok keep_all (\<lambda>k. k)"
  by (simp add: sender_ok_def keep_all_def)

lemma demo_w_storable: "list_all storable_webhook [demo_w]"
  by (simp add: demo_hook_storable)

lemma demo_startup:
  "gateway_startup plain_env (ch_reliable ''d'') ''d'' demo_cluster ''kafka'' ''t'' 6 k T = Inr (None, start_service k T)"
  by (simp add: gateway_startup_def rel_schema ensure_topic_def demo_cluster_def Let_def)

text \<open>The consumer takes the webhook of the topic and a flush inserts it.\<close>

lemma demo_take:
  assumes "sv_consumer g = At_Select" and "sv_batch g = []" and "sv_received g = {#}" and "sv_producer g = [demo_w]"
    and "demo_reach g0 g"
  shows "demo_reach g0 (g\<lparr>sv_received := {#demo_w#}, sv_batch := [], sv_consumer := At_Select,
    sv_store := (sv_store g)\<lparr>tb_events := tb_events (sv_store g) @ [demo_w]\<rparr>\<rparr>)"
proof -
  let ?g1 = "g\<lparr>sv_received := {#demo_w#}, sv_batch := [demo_w], sv_consumer := At_Select\<rparr>"
  have 1: "demo_reach g0 ?g1"
    using sv_reach.step [OF assms(5) sv_step.received [of g demo_w]] assms(1-4) by (simp add: ch_batch_size_def)
  have 2: "demo_reach g0 (?g1\<lparr>sv_consumer := At_Flush\<rparr>)"
    by (rule sv_reach.step [OF 1 sv_step.ticked]) simp
  have 3: "demo_reach g0 (?g1\<lparr>sv_batch := [], sv_consumer := At_Insert [demo_w]\<rparr>)"
    using sv_reach.step [OF 2 sv_step.swapped] by simp
  from sv_reach.step [OF 3 sv_step.inserted] rel_insert [OF demo_w_storable, of "''d''" "sv_store g"]
  show ?thesis by fastforce
qed

text \<open>The first life: the webhook arrives twice, is produced once and stored.\<close>

definition demo_first :: "(delivery_webhook list, tables) service" where
  "demo_first = (start_service [demo_w] \<lparr>tb_events = [demo_w], tb_rollup = []\<rparr>)
     \<lparr>sv_dedup := snd (webhook_admit ''w1'' new_webhook_dedup), sv_arrivals := [demo_w, demo_w],
      sv_received := {#demo_w#}\<rparr>"

lemma demo_first_reached: "demo_reach (start_service [] \<lparr>tb_events = [], tb_rollup = []\<rparr>) demo_first"
proof -
  let ?g0 = "start_service [] \<lparr>tb_events = [], tb_rollup = []\<rparr> :: (delivery_webhook list, tables) service"
  let ?d = "snd (webhook_admit ''w1'' new_webhook_dedup)"
  have d: "webhook_admit ''w1'' new_webhook_dedup = (True, ?d)" "webhook_admit ''w1'' ?d = (False, ?d)"
    by (simp_all add: webhook_admit_def new_webhook_dedup_def max_webhook_ids_def Let_def)
  have id: "webhook_id demo_w = ''w1''" by (simp add: demo_hook_def)
  let ?g1 = "?g0\<lparr>sv_dedup := ?d, sv_arrivals := [demo_w], sv_producing := {#demo_w#}\<rparr>"
  have "demo_reach ?g0 ?g1"
    using sv_reach.step [OF sv_reach.start sv_step.arrived [of demo_w ?g0 ?d]] d(1)
    by (simp add: id start_service_def)
  from sv_reach.step [OF this sv_step.refused [of demo_w _ ?d]]
  have "demo_reach ?g0 (?g1\<lparr>sv_arrivals := [demo_w, demo_w]\<rparr>)" using d(2) by (simp add: id start_service_def)
  from sv_reach.step [OF this sv_step.produced [of demo_w _ keep_all "[demo_w]"]]
  have "demo_reach ?g0 (?g1\<lparr>sv_arrivals := [demo_w, demo_w], sv_producing := {#}, sv_producer := [demo_w]\<rparr>)"
    by (simp add: keep_all_def start_service_def)
  from demo_take [OF _ _ _ _ this] show ?thesis by (simp add: start_service_def demo_first_def)
qed

lemma demo_first_facts:
  "sv_at_rest (\<lambda>k. k) demo_first" "sv_arrivals demo_first = [demo_w, demo_w]" "sv_producer demo_first = [demo_w]"
  "sv_store demo_first = \<lparr>tb_events = [demo_w], tb_rollup = []\<rparr>" "sv_rollup demo_first = Rollup_Waiting"
  by (simp_all add: sv_at_rest_def demo_first_def start_service_def)

lemma demo_reference: "webhook_reference_dedup [demo_w, demo_w] = [demo_w]"
  by (simp add: webhook_reference_dedup_def)

lemma demo_counts: "raw_totals [demo_w] = [((''sms'', ''sent''), 1)]" "raw_totals [demo_w, demo_w] = [((''sms'', ''sent''), 2)]"
  by code_simp+

lemma demo_served:
  assumes "raw_totals ws = [((''sms'', ''sent''), n)]" and "0 \<le> n" and "n < 2 ^ 63"
  shows "summary plain_env (ch_reliable ''d'') ''d'' \<lparr>tb_events = ws, tb_rollup = rollup_of ws\<rparr> =
    (Inr [(''sms'', ''sent'', n)], \<lparr>tb_events = ws, tb_rollup = rollup_of ws\<rparr>)"
  using assms by (subst rel_summary) (simp_all add: rollup_totals_rollup_of)

section \<open>End to end\<close>

text \<open>
  End to end, from the start-up over an empty topic and empty tables and with every interleaving of
  the handlers, the consumer, the rollup and the summaries: when nothing is under way, no produce and no
  insert failed and the consumer took the whole topic, ClickHouse holds each webhook of the reference
  deduplication once, and after one more refresh the summary serves their counts.
\<close>

theorem service_summary_exact:
  assumes server: "executes db srv tab view" and env: "decodes env view" and producer: "sender_ok produce landed"
    and started: "gateway_startup env srv db cv broker topic partitions k s = Inr (note, g0)"
    and fresh: "landed k = []" "tb_events (tab s) = []" "tb_rollup (tab s) = []"
    and reach: "gateway_reach produce landed env srv db g0 g"
    and storable: "list_all storable_webhook (sv_arrivals g)"
    and ids: "card (webhook_id ` set (sv_arrivals g)) \<le> 4000000" and fits: "length (sv_arrivals g) < 2 ^ 63"
    and rest: "sv_at_rest landed g"
    and refreshed: "refresh_rollup env srv db (sv_store g) = (None, s1)"
    and served: "summary env srv db s1 = (Inr rows, s2)"
  shows "mset (tb_events (tab (sv_store g))) = mset (webhook_reference_dedup (sv_arrivals g)) \<and>
    rows = summary_rows (raw_totals (webhook_reference_dedup (sv_arrivals g)))"
proof -
  note ch = clickhouse.intro [OF server env]
  have t0: "\<exists>n \<le> length (tb_events (tab s)). rollup_totals (tb_rollup (tab s)) = raw_totals (take n (tb_events (tab s)))"
    by (simp add: fresh rollup_totals_def raw_totals_def)
  have l0: "list_all storable_webhook (landed k)" by (simp add: fresh)
  obtain s0 where "store_account (\<lambda>s. tb_events (tab s)) s0 g" "topic_account landed k g" "tb_events (tab s0) = []"
    using startup_life [OF server env started t0 producer reach l0 storable] fresh(2) by auto
  note stored = rest_holds_reference(1) [OF this(1,2) rest fresh(1) this(3) ids]
  have "length (webhook_reference_dedup (sv_arrivals g)) < 2 ^ 63"
    using length_webhook_reference [of "sv_arrivals g"] fits by simp
  from rollup_store.at_rest_served [OF clickhouse.rollup_store [OF ch] refreshed served _ this] stored
  show ?thesis by (simp add: clickhouse.stored_def [OF ch])
qed

theorem service_summary_exact_witness:
  "mset (tb_events (sv_store demo_first)) = {#demo_w#} \<and>
   fst (summary plain_env (ch_reliable ''d'') ''d'' (snd (refresh_rollup plain_env (ch_reliable ''d'') ''d'' (sv_store demo_first)))) =
     Inr [(''sms'', ''sent'', 1)]"
proof -
  have ids: "card (webhook_id ` set (sv_arrivals demo_first)) \<le> 4000000"
    and fits: "length (sv_arrivals demo_first) < 2 ^ 63" and st: "list_all storable_webhook (sv_arrivals demo_first)"
    using demo_w_storable by (simp_all add: demo_first_facts)
  have r: "refresh_rollup plain_env (ch_reliable ''d'') ''d'' (sv_store demo_first) =
      (None, \<lparr>tb_events = [demo_w], tb_rollup = rollup_of [demo_w]\<rparr>)"
    by (simp add: rel_refresh demo_first_facts)
  have s: "summary plain_env (ch_reliable ''d'') ''d'' \<lparr>tb_events = [demo_w], tb_rollup = rollup_of [demo_w]\<rparr> =
      (Inr [(''sms'', ''sent'', 1)], \<lparr>tb_events = [demo_w], tb_rollup = rollup_of [demo_w]\<rparr>)"
    by (rule demo_served [OF demo_counts(1)]) simp_all
  show ?thesis
    using service_summary_exact [OF ch_reliable_executes plain_env_decodes keep_all_sender demo_startup _ _ _
        demo_first_reached st ids fits demo_first_facts(1) r s] r s
    by (simp add: demo_first_facts demo_reference)
qed

text \<open>
  A summary served at any moment of such a run, with a refresh half done, inserts under way or
  failed and Produce calls that report an error for a webhook that landed, never counts more webhooks
  for a channel and a status than distinct ones were offered.
\<close>

theorem summary_never_overcounts:
  assumes server: "executes db srv tab view" and env: "decodes env view" and producer: "sender_ok produce landed"
    and started: "gateway_startup env srv db cv broker topic partitions k s = Inr (note, g0)"
    and fresh: "landed k = []" "tb_events (tab s) = []" "tb_rollup (tab s) = []"
    and reach: "gateway_reach produce landed env srv db g0 g"
    and storable: "list_all storable_webhook (sv_arrivals g)"
    and ids: "card (webhook_id ` set (sv_arrivals g)) \<le> 4000000" and fits: "length (sv_arrivals g) < 2 ^ 63"
    and served: "summary env srv db (sv_store g) = (Inr rows, s')" and row: "(ch, st, n) \<in> set rows"
  shows "1 \<le> n \<and> n \<le> int (count_list (map pair_of (webhook_reference_dedup (sv_arrivals g))) (ch, st))"
proof -
  note c = clickhouse.intro [OF server env]
  have t0: "\<exists>n \<le> length (tb_events (tab s)). rollup_totals (tb_rollup (tab s)) = raw_totals (take n (tb_events (tab s)))"
    by (simp add: fresh rollup_totals_def raw_totals_def)
  have l0: "list_all storable_webhook (landed k)" by (simp add: fresh)
  obtain s0 where life: "store_account (\<lambda>s. tb_events (tab s)) s0 g"
      "totals_of_prefix (\<lambda>s. tb_events (tab s)) (\<lambda>s. rollup_totals (tb_rollup (tab s))) g"
      "topic_account landed k g" "tb_events (tab s0) = []"
    using startup_life [OF server env started t0 producer reach l0 storable] fresh(2) by auto
  have abs: "clickhouse.stored tab = (\<lambda>s. tb_events (tab s))" "clickhouse.totals tab = (\<lambda>s. rollup_totals (tb_rollup (tab s)))"
    by (simp_all add: fun_eq_iff clickhouse.stored_def [OF c] clickhouse.totals_def [OF c])
  have len: "length (webhook_reference_dedup (sv_arrivals g)) < 2 ^ 63"
    using length_webhook_reference [of "sv_arrivals g"] fits by simp
  have sub: "mset (tb_events (tab s0)) + mset (landed k) + mset (sv_admitted g) \<subseteq>#
      mset (webhook_reference_dedup (sv_arrivals g))"
    using count_le_reference [OF ids] life(4) fresh(1) by (simp add: sv_admitted_def)
  show ?thesis
    by (rule rollup_store.served_bound [OF clickhouse.rollup_store [OF c], unfolded abs,
          OF life(1,2,3) served row sub len])
qed

text \<open>A refresh runs after the flush, then a summary is served.\<close>

theorem summary_never_overcounts_witness:
  "\<exists>g. demo_reach (start_service [] \<lparr>tb_events = [], tb_rollup = []\<rparr>) g \<and>
     fst (summary plain_env (ch_reliable ''d'') ''d'' (sv_store g)) = Inr [(''sms'', ''sent'', 1)] \<and>
     1 \<le> int (count_list (map pair_of (webhook_reference_dedup (sv_arrivals g))) (''sms'', ''sent''))"
proof -
  let ?T = "\<lparr>tb_events = [demo_w], tb_rollup = rollup_of [demo_w]\<rparr>"
  let ?g1 = "demo_first\<lparr>sv_rollup := Rollup_Insert\<rparr>" and ?g = "demo_first\<lparr>sv_store := ?T\<rparr>"
  have "demo_reach (start_service [] \<lparr>tb_events = [], tb_rollup = []\<rparr>) ?g1"
    using sv_reach.step [OF demo_first_reached sv_step.truncated [of demo_first _ "sv_store demo_first"]]
    by (simp add: demo_first_facts rel_exec [OF meaning_truncate_rollup])
      (simp add: demo_first_def start_service_def)
  from sv_reach.step [OF this sv_step.refilled [of ?g1 _ None ?T]]
  have g: "demo_reach (start_service [] \<lparr>tb_events = [], tb_rollup = []\<rparr>) ?g"
    by (simp add: demo_first_facts rel_exec [OF meaning_refresh])
      (simp add: demo_first_def start_service_def)
  have st: "list_all storable_webhook (sv_arrivals ?g)" and ids: "card (webhook_id ` set (sv_arrivals ?g)) \<le> 4000000"
    and fits: "length (sv_arrivals ?g) < 2 ^ 63"
    using demo_w_storable by (simp_all add: demo_first_facts)
  have s: "summary plain_env (ch_reliable ''d'') ''d'' (sv_store ?g) = (Inr [(''sms'', ''sent'', 1)], ?T)"
    using demo_served [OF demo_counts(1)] by simp
  have "1 \<le> (1::int) \<and> 1 \<le> int (count_list (map pair_of (webhook_reference_dedup (sv_arrivals ?g))) (''sms'', ''sent''))"
    by (rule summary_never_overcounts [OF ch_reliable_executes plain_env_decodes keep_all_sender demo_startup _ _ _
          g st ids fits s]) simp_all
  with g s show ?thesis by (intro exI [of _ ?g]) simp
qed

text \<open>
  The counts do not survive a restart: the readers of the next life start at the first offset again
  and the tables are kept, so that the whole topic is inserted a second time. When the second life rests
  too, without a single new webhook, its summary serves twice the number of webhooks.
\<close>

theorem restart_counts_twice:
  assumes server: "executes db srv tab view" and env: "decodes env view" and producer: "sender_ok produce landed"
    and started: "gateway_startup env srv db cv broker topic partitions k s = Inr (note, g0)"
    and fresh: "landed k = []" "tb_events (tab s) = []" "tb_rollup (tab s) = []"
    and first: "gateway_reach produce landed env srv db g0 g" "sv_at_rest landed g"
    and storable: "list_all storable_webhook (sv_arrivals g)"
    and ids: "card (webhook_id ` set (sv_arrivals g)) \<le> 4000000" and fits: "length (sv_arrivals g) < 2 ^ 62"
    and again: "gateway_startup env srv db cv broker topic partitions (sv_producer g) (sv_store g) = Inr (note', h0)"
    and second: "gateway_reach produce landed env srv db h0 h" "sv_at_rest landed h" "sv_arrivals h = []"
    and refreshed: "refresh_rollup env srv db (sv_store h) = (None, s1)"
    and served: "summary env srv db s1 = (Inr rows, s2)"
  shows "rows = map (\<lambda>(ch, st, n). (ch, st, 2 * n))
    (summary_rows (raw_totals (webhook_reference_dedup (sv_arrivals g))))"
proof -
  note c = clickhouse.intro [OF server env]
  let ?ref = "webhook_reference_dedup (sv_arrivals g)"
  have t0: "\<exists>n \<le> length (tb_events (tab s)). rollup_totals (tb_rollup (tab s)) = raw_totals (take n (tb_events (tab s)))"
    by (simp add: fresh rollup_totals_def raw_totals_def)
  have l0: "list_all storable_webhook (landed k)" by (simp add: fresh)
  obtain s0 where life: "store_account (\<lambda>s. tb_events (tab s)) s0 g"
      "totals_of_prefix (\<lambda>s. tb_events (tab s)) (\<lambda>s. rollup_totals (tb_rollup (tab s))) g"
      "topic_account landed k g" "tb_events (tab s0) = []"
    using startup_life [OF server env started t0 producer first(1) l0 storable] fresh(2) by auto
  note one = rest_holds_reference [OF life(1,3) first(2) fresh(1) life(4) ids]
  have t1: "\<exists>n \<le> length (tb_events (tab (sv_store g))).
      rollup_totals (tb_rollup (tab (sv_store g))) = raw_totals (take n (tb_events (tab (sv_store g))))"
    using life(2) by (simp add: totals_of_prefix_def)
  have "set (landed (sv_producer g)) = set ?ref" using one(2) by (rule mset_eq_setD)
  then have l1: "list_all storable_webhook (landed (sv_producer g))"
    using storable by (auto simp: list_all_iff webhook_reference_first_occ dest: set_first_occ_subset [THEN subsetD])
  have "list_all storable_webhook (sv_arrivals h)" by (simp add: second(3))
  from startup_life [OF server env again t1 producer second(1) l1 this] obtain s1'
    where next_life: "store_account (\<lambda>s. tb_events (tab s)) s1' h" "topic_account landed (sv_producer g) h"
      "tb_events (tab s1') = tb_events (tab (sv_store g))" by blast
  have "mset (landed (sv_producer h)) = mset ?ref"
    using next_life(2) second(2,3) one(2) by (auto simp: topic_account_def sv_at_rest_def sv_admitted_def)
  then have two: "mset (tb_events (tab (sv_store h))) = mset (?ref @ ?ref)"
    using next_life(1,3) second(2) one(1) by (auto simp: store_account_def sv_at_rest_def)
  have "length (?ref @ ?ref) < 2 ^ 63" using length_webhook_reference [of "sv_arrivals g"] fits by simp
  from rollup_store.at_rest_served [OF clickhouse.rollup_store [OF c] refreshed served _ this] two
  have "rows = summary_rows (raw_totals (?ref @ ?ref))" by (simp add: clickhouse.stored_def [OF c])
  then show ?thesis using raw_totals_twice [of "?ref @ ?ref" ?ref] by simp
qed

theorem restart_counts_twice_witness:
  "\<exists>h. demo_reach (start_service (sv_producer demo_first) (sv_store demo_first)) h \<and> sv_arrivals h = [] \<and>
     fst (summary plain_env (ch_reliable ''d'') ''d'' (snd (refresh_rollup plain_env (ch_reliable ''d'') ''d'' (sv_store h)))) =
       Inr [(''sms'', ''sent'', 2)]"
proof -
  let ?T = "\<lparr>tb_events = [demo_w, demo_w], tb_rollup = rollup_of [demo_w, demo_w]\<rparr>"
  let ?h0 = "start_service (sv_producer demo_first) (sv_store demo_first)"
  define h where "h = ?h0\<lparr>sv_received := {#demo_w#}, sv_store := \<lparr>tb_events = [demo_w, demo_w], tb_rollup = []\<rparr>\<rparr>"
  have second: "demo_reach ?h0 h"
    using demo_take [of ?h0 ?h0, OF _ _ _ _ sv_reach.start] by (simp add: h_def demo_first_facts start_service_def)
  have hf: "sv_at_rest (\<lambda>k. k) h" "sv_arrivals h = []"
    by (simp_all add: h_def sv_at_rest_def start_service_def demo_first_facts)
  have st: "list_all storable_webhook (sv_arrivals demo_first)"
    and ids: "card (webhook_id ` set (sv_arrivals demo_first)) \<le> 4000000" and fits: "length (sv_arrivals demo_first) < 2 ^ 62"
    using demo_w_storable by (simp_all add: demo_first_facts)
  have r: "refresh_rollup plain_env (ch_reliable ''d'') ''d'' (sv_store h) = (None, ?T)"
    by (simp add: rel_refresh h_def)
  have s: "summary plain_env (ch_reliable ''d'') ''d'' ?T = (Inr [(''sms'', ''sent'', 2)], ?T)"
    by (rule demo_served [OF demo_counts(2)]) simp_all
  have "[(''sms'', ''sent'', 2)] = map (\<lambda>(ch, st, n). (ch, st, 2 * n))
      (summary_rows (raw_totals (webhook_reference_dedup (sv_arrivals demo_first))))"
    by (rule restart_counts_twice [OF ch_reliable_executes plain_env_decodes keep_all_sender demo_startup _ _ _
          demo_first_reached demo_first_facts(1) st ids fits demo_startup second hf r s]) simp_all
  with second hf(2) r s show ?thesis by (intro exI [of _ h]) simp
qed

end
