(* ===== verification/Spec2Isabelle.thy ===== *)
theory Spec2Isabelle
  imports Dedup_Bench Scale_Bench Segment_Setup Burst_Run Soak Throughput Outage_Run Loadgen Load_Curve Gateway_Restart Delivery_Service
begin

text \<open>
  A verification library for device-telemetry-gateway, three ingest services written in Go and the
  benchmarks that measure them.

  \<^bold>\<open>The program.\<close> Each service deduplicates what it is sent at its edge, puts it on a Kafka topic and
  answers the sender. The telemetry gateway (cmd/gateway) takes sensor readings over WebSocket
  (internal/wsserver), deduplicates by device and sequence, and spills what Kafka refuses to an
  append-only file that a drainer replays (internal/ingest). The storefront edge
  (internal/eventingest) takes events by id; from its topic a consumer feeds ClickHouse and an
  engine that keeps fifty customer segments in Redis (internal/segment), compared against SQL that
  recomputes them. The delivery gateway (cmd/deliverygateway, internal/deliverystats) takes provider
  webhooks over HTTP, batches them from Kafka into ClickHouse, refreshes a rollup table and serves a
  summary. internal/simdevice and internal/simstorefront generate traffic; the commands under cmd/
  drive the services and compare the outcome with an independent computation.

  \<^bold>\<open>How code and model correspond.\<close> A Go struct is a record, an enumeration a datatype, an operation a
  function on the state that returns the new state; an error is a value of type goerror, in a sum
  or an option. A method that holds its mutex for its whole body is one atomic function. int64 values
  are integers with their range written as a hypothesis where it matters, uint64 sequences and the
  words of SHA-256 are machine words. float64 arithmetic is never guessed: where the code only copies a
  float it is its bits, where it computes with it the operations are parameters (float64_ops,
  sim_floats, or a function in the place of one expression). Operations that run concurrently are
  inductive step relations, or functions of a schedule (the list of the workers' turns, in any order),
  or any merge of the lists that the workers go through (merge_of of Interleaving). What is outside of the
  repository (Kafka, Redis, ClickHouse, net/http, protobuf, math/rand, the disk) is a parameter with its
  documented behaviour as a named hypothesis, and each hypothesis is met by a concrete instance in a
  witness.

  \<^bold>\<open>Shared theories.\<close>
  \<^item> Prelude: Go values, the reference "first occurrence wins" (first_occ), lemmas on lists and maps.
  \<^item> Go_Format, Go_Text: the verbs of fmt, strconv.ParseInt, UTC dates and JSON texts, with round trips.
  \<^item> Dedup_Interface: the locale of a deduplication cache and its extension to a first-in-first-out cache,
    with what a stream of requests looks like behind one; interpreted on the three caches of the code.
  \<^item> Edge_Interface: the locale of an edge without a spool; interpreted in Event_Edge and Delivery_Edge.
  \<^item> Messages: the three protobuf messages (proto/), and the law of a codec.
  \<^item> Sim_Random, Interleaving: a source of random draws; merges of concurrent workers' lists.

  \<^bold>\<open>The telemetry gateway.\<close>
  \<^item> Telemetry_Dedup (ingest/dedup.go): the answers of Admit are determined by exactly the last 4096
    sequences of a device.
  \<^item> Spool (ingest/spool.go): the file with its bufio.Writer, under any script of failing system calls.
    Drain returns what was written, in order; a failed flush poisons the spool; a torn last record
    swallows what is appended after it.
  \<^item> Telemetry_Pipeline (ingest/pipeline.go, ReferenceDedup): Ingest and drainOnce conserve what the
    reference keeps, and what each error means for the reading and for its retry.
  \<^item> Gateway_Concurrency: the same operations interleaved at their calls out. Nothing admitted is lost, and
    with a producer that reports truthfully everything lands exactly once; at most 32 goroutines drain.
  \<^item> Gateway_Restart (cmd/gateway): lives of the process over one spool file, stopped and crashed anywhere;
    the account of every admission, and the window in which a crash loses drained readings.
  \<^item> Outage_Bench, Outage_Run (cmd/outagebench): devices that send through an outage of the broker, the
    wait for the spool and the reading back; the verdict of the whole run.
  \<^item> Sha256, Digest (FinalStateDigest): crypto/sha256 on 32-bit words, and the digest that does not depend
    on the order of its input when the keys are distinct.

  \<^bold>\<open>The storefront pipeline.\<close>
  \<^item> Event_Edge (internal/eventingest): the edge is the reference deduplication for up to 4,000,000 ids,
    and what is forgotten beyond.
  \<^item> Segments (definitions.go, diff.go), Segment_Engine (incremental.go), Segment_State: the commands the
    engine sends, their meaning on Redis, and the membership sets as a function of the history.
  \<^item> Redis_Memory: an in-memory store that meets the hypothesis on Redis.
  \<^item> Segment_Agreement (recompute.go): each family's SQL as the set it selects. Finalize and recompute agree
    under stated conditions on a profile's history, and histories where they do not.
  \<^item> Segment_Bench, Segment_Run, Segment_Server, Segment_Setup (cmd/segmentbench): the senders and the
    verdict; the consumer's loop and main as interleaved steps, from the subscription to the comparison,
    with the race between the two flushes; the tables that the event statements mean, and the set-up.
    From whatever the services held, the benchmark reports every segment exact under stated conditions.

  \<^bold>\<open>The delivery gateway.\<close>
  \<^item> Delivery_Edge (deliverystats/dedup.go, pipeline.go, reference.go): the third edge.
  \<^item> ClickHouse (deliverystats/clickhouse.go, segment/clickhouse.go): every statement as the text the code
    builds, and the client's reading of the answers.
  \<^item> ClickHouse_Server: the meaning of these texts on tables, the law of a server that executes them, and
    then: inserts round-trip, the rollup equals the recompute, a failure between TRUNCATE and INSERT
    leaves the summary empty, the two dashboards agree on windows of whole minutes. Three locales: the
    contract of a webhook store, its extension by the two statements of a refresh, and a ClickHouse that
    gives both.
  \<^item> Delivery_Gateway (cmd/deliverygateway): the handlers, the batching consumer, the rollup loop and the
    summary endpoint as functions, and the paths on which a webhook is lost.
  \<^item> Delivery_Service: the same process from its start-up, with handlers, consumer and rollup
    interleaved at their calls out. No summary overcounts, at rest every distinct webhook is counted once,
    and after a restart twice; the functions of Delivery_Gateway are paths of these steps.
  \<^item> Delivery_Scale, Scale_Bench (cmd/deliveryscale): the loader's workers and the generated rows; the run
    from the schema to the exactness check and the latencies.
  \<^item> Stream_Bench, Burst_Run (cmd/deliveryburst): the batching consumer and the senders; the whole run over
    the tables' earlier contents, with its two phases and the wait for the backlog.

  \<^bold>\<open>Kafka.\<close>
  \<^item> Kafka_Client (internal/kafkaclient): the producers, the outage wrapper, reading a whole topic, offsets
    and lag, and the readers of a stream.
  \<^item> Topic: what the constructors configure, and that a keyed synchronous writer behind an edge and one
    reader per partition give the consumer a merge of the partitions' logs.

  \<^bold>\<open>Simulators and benchmarks.\<close>
  \<^item> Corpora (simstorefront/corpus.go, simwebhooks.go; cmd/eventgen, cmd/deliverygen): generated corpora have
    distinct ids, whatever the draws, and the dedup benchmarks match the reference.
  \<^item> Dedup_Bench: the two dedup benchmarks as whole commands, with their exit status.
  \<^item> Replay, Replay_Send (simdevice/corpus.go, wsserver/server.go): the replay corpus, the read loop of a
    connection, and the sender with its bound on connections, which always ends.
  \<^item> Loadgen, Soak, Load_Curve, Throughput: the other benchmarks. The theorems on benchmarks say that the
    number one reports is the one it is meant to measure, for every schedule of its workers: digests match,
    losses are zero, counters equal what is on the topic, segments are exact; and each profile's events
    arrive in order end to end.

  \<^bold>\<open>Termination and bounds.\<close> The functions are structurally recursive over the input, the script of the
  system calls, the schedule or the list of what a clock shows; a loop of the code that waits for a
  condition is given the outcomes of its polls. The spool's read loop decreases the bytes left and is
  proved to end for every content (spool_total). read_webhooks, the reader of a server, takes the length of
  the text as fuel: every row takes at least one character. Send is shown to end by a measure on its
  steps. The statements carry the bounds of the code: 4096 sequences of a device, 4,000,000 ids, 32 drain
  goroutines, 200 webhooks in a batch, 2 to the 63 for counters and instants.

  \<^bold>\<open>Not modelled.\<close> Flag parsing, log lines, the printed reports and the listeners of the commands, static
  files; the generated accessors and the wire format of protobuf; the WebSocket upgrade and
  framing; kafka-go below its calls, the internals of Redis and ClickHouse, the decoding of JSON in
  responses; float64 arithmetic, elapsed times and rates; dialling and closing of connections.
\<close>

end
